(* ===== verification/Emu_Prelude.thy ===== *)
theory Emu_Prelude
  imports Main "HOL-Library.Word" "HOL-Library.Sublist" "HOL-Library.Code_Target_Nat"
begin

text \<open>
  Shared vocabulary of the emuroot development: machine integers, C strings and the
  handful of \<^verbatim>\<open>string.h\<close>/\<^verbatim>\<open>stdio.h\<close> operations the sources use, the error numbers
  the handlers return, and list lemmas every component needs.

  A C string is a \<^typ>\<open>string\<close> without its terminating NUL; \<open>c_at\<close> reads the terminator
  at the index just past the end. \<open>snprintf n s\<close> is what \<^verbatim>\<open>snprintf(buf, n, "%s", s)\<close>
  leaves in \<^verbatim>\<open>buf\<close>: at most \<open>n - 1\<close> characters. The collection \<open>path_simps\<close>
  gathers the rewrite rules on path strings.
\<close>

unbundle bit_operations_syntax

named_theorems path_simps \<open>rewrite rules on path strings and their components\<close>
named_theorems wf_intros \<open>preservation of the components' well-formedness invariants\<close>

type_synonym u8 = "8 word"
type_synonym u32 = "32 word"
type_synonym u64 = "64 word"

abbreviation SLASH :: char where "SLASH \<equiv> CHR ''/''"
abbreviation NUL :: char where "NUL \<equiv> CHR 0x00"

definition PATH_LEN :: nat where
  "PATH_LEN = 4096"

subsection \<open>Error numbers (Linux, asm-generic)\<close>

definition EPERM :: int where "EPERM = 1"
definition ESRCH :: int where "ESRCH = 3"
definition EINTR :: int where "EINTR = 4"
definition EIO :: int where "EIO = 5"
definition EFAULT :: int where "EFAULT = 14"
definition EINVAL :: int where "EINVAL = 22"
definition ENOSYS :: int where "ENOSYS = 38"

lemmas errno_defs = EPERM_def ESRCH_def EINTR_def EIO_def EFAULT_def EINVAL_def ENOSYS_def

subsection \<open>C strings\<close>

definition c_at :: "string \<Rightarrow> nat \<Rightarrow> char" where
  "c_at s i = (if i < length s then s ! i else NUL)"

definition snprintf :: "nat \<Rightarrow> string \<Rightarrow> string" where
  "snprintf n s = take (n - 1) s"

text \<open>Offset of the last occurrence of a character, \<open>None\<close> for C's NULL.\<close>

primrec strrchr :: "string \<Rightarrow> char \<Rightarrow> nat option" where
  "strrchr [] c = None"
| "strrchr (x # xs) c =
     (case strrchr xs c of Some i \<Rightarrow> Some (Suc i) | None \<Rightarrow> if x = c then Some 0 else None)"

text \<open>Offset of the first occurrence.\<close>

primrec strchr :: "string \<Rightarrow> char \<Rightarrow> nat option" where
  "strchr [] c = None"
| "strchr (x # xs) c = (if x = c then Some 0 else map_option Suc (strchr xs c))"

definition strspn :: "string \<Rightarrow> string \<Rightarrow> nat" where
  "strspn s accept = length (takeWhile (\<lambda>c. c \<in> set accept) s)"

definition strcspn :: "string \<Rightarrow> string \<Rightarrow> nat" where
  "strcspn s reject = length (takeWhile (\<lambda>c. c \<notin> set reject) s)"

text \<open>Whether the last character is a slash, the test \<^verbatim>\<open>s[strlen(s) - 1] == '/'\<close> (the
  sources only apply it to non-empty strings).\<close>

definition ends_slash :: "string \<Rightarrow> bool" where
  "ends_slash s \<longleftrightarrow> s \<noteq> [] \<and> last s = SLASH"

lemma c_at_0 [simp]: "c_at (x # xs) 0 = x" "c_at [] i = NUL"
  by (simp_all add: c_at_def)

lemma c_at_append_length [simp]: "c_at (s @ t) (length s) = c_at t 0"
  by (cases t) (simp_all add: c_at_def nth_append)

lemma c_at_slash_conv: "c_at s 0 = SLASH \<longleftrightarrow> (\<exists>t. s = SLASH # t)"
  by (cases s) (auto simp: c_at_def)

lemma c_at_nul_conv: "NUL \<notin> set s \<Longrightarrow> c_at s i = NUL \<longleftrightarrow> length s \<le> i"
  by (auto simp: c_at_def dest: nth_mem)

lemma snprintf_id [simp]: "length s < n \<Longrightarrow> snprintf n s = s"
  by (simp add: snprintf_def)

lemma length_snprintf: "0 < n \<Longrightarrow> length (snprintf n s) < n"
  by (auto simp: snprintf_def)

lemma set_snprintf: "set (snprintf n s) \<subseteq> set s"
  by (auto simp: snprintf_def dest: in_set_takeD)

lemma strrchr_None: "strrchr s c = None \<longleftrightarrow> c \<notin> set s"
  by (induction s) (auto split: option.splits)

lemma strrchr_append:
  "strrchr (s @ t) c =
     (case strrchr t c of Some i \<Rightarrow> Some (length s + i) | None \<Rightarrow> strrchr s c)"
  by (induction s) (auto split: option.splits)

lemma strchr_None: "strchr s c = None \<longleftrightarrow> c \<notin> set s"
  by (induction s) auto

lemma strchr_Some: "strchr s c = Some i \<Longrightarrow> i < length s \<and> s ! i = c \<and> c \<notin> set (take i s)"
  by (induction s arbitrary: i) (auto split: if_splits)

lemma ends_slash_append [simp]:
  "ends_slash (s @ t) \<longleftrightarrow> (if t = [] then ends_slash s else ends_slash t)"
  by (auto simp: ends_slash_def)

lemma ends_slash_Nil [simp]: "\<not> ends_slash []"
  by (simp add: ends_slash_def)

subsection \<open>Lists\<close>

lemma dropWhile_not_hd: "dropWhile P xs = y # ys \<Longrightarrow> \<not> P y"
  by (induction xs) (auto split: if_splits)

lemma takeWhile_dropWhile_not:
  "dropWhile (\<lambda>x. x \<noteq> a) xs = [] \<or> (\<exists>ys. dropWhile (\<lambda>x. x \<noteq> a) xs = a # ys)"
  by (induction xs) auto

lemma takeWhile_stop: "q = [] \<or> \<not> P (hd q) \<Longrightarrow> takeWhile P (r @ q) = takeWhile P r"
  by (induction r) (cases q; auto)+

lemma dropWhile_stop: "q = [] \<or> \<not> P (hd q) \<Longrightarrow> dropWhile P (r @ q) = dropWhile P r @ q"
  by (induction r) (cases q; auto)+

lemma length_dropWhile_less:
  "xs \<noteq> [] \<Longrightarrow> P (hd xs) \<Longrightarrow> length (dropWhile P xs) < length xs"
  by (cases xs) (auto simp: length_dropWhile_le le_imp_less_Suc)

subsection \<open>Words and bytes\<close>

text \<open>\<open>x & ~(2 ^ n - 1)\<close>: the address rounded down to a multiple of \<open>2 ^ n\<close>.\<close>

definition align_down :: "nat \<Rightarrow> u64 \<Rightarrow> u64" where
  "align_down n x = x AND NOT (mask n)"

lemma align_down_minus: "align_down n x = x - take_bit n x"
proof -
  have "(x AND NOT (mask n)) AND take_bit n x = 0"
    by (rule bit_eqI) (simp add: bit_simps)
  then have "(x AND NOT (mask n)) + take_bit n x = x AND NOT (mask n) OR take_bit n x"
    by (rule disjunctive_add_eq_or)
  also have "\<dots> = x" by (rule bit_eqI) (auto simp: bit_simps)
  finally show ?thesis by (simp add: align_down_def algebra_simps)
qed

lemma unat_align_down: "unat (align_down n x) = unat x - unat x mod 2 ^ n"
proof -
  have t: "unat (take_bit n x) = unat x mod 2 ^ n" by (simp only: unsigned_take_bit_eq) (simp add: take_bit_eq_mod)
  then have "take_bit n x \<le> x" by (simp add: word_le_nat_alt)
  then show ?thesis by (simp add: align_down_minus unat_sub t)
qed

lemma align_down_le: "align_down n x \<le> x"
  by (simp add: word_le_nat_alt unat_align_down)

text \<open>Bytes and characters.\<close>

definition str_bytes :: "string \<Rightarrow> u8 list" where
  "str_bytes s = map of_char s"

definition bytes_str :: "u8 list \<Rightarrow> string" where
  "bytes_str bs = map (\<lambda>b. char_of (unat b)) bs"

lemma unat_of_char: "unat (of_char c :: u8) = of_char c"
proof -
  have "(of_char c :: u8) = of_nat (of_char c)" by (rule of_nat_of_char [symmetric])
  then show ?thesis by (simp only: unsigned_of_nat) (simp add: take_bit_nat_eq_self)
qed

lemma bytes_str_bytes [simp]: "bytes_str (str_bytes s) = s"
  by (simp add: bytes_str_def str_bytes_def unat_of_char o_def)

end
