(* ===== verification/Creds.thy ===== *)
theory Creds
  imports Emu_Prelude
begin

text \<open>
  \<^verbatim>\<open>creds.c\<close>: the fake credentials of one process. Every \<^verbatim>\<open>creds_set*\<close> function is a
  definition that takes the credentials and returns the result code (\<open>0\<close> or a negated
  error number; the old id for the \<^verbatim>\<open>setfs*\<close> pair) with the new credentials. User and
  group ids are the same code twice in C; the locale \<open>id_side\<close> states what one side
  promises, proves the run-level facts once, and is interpreted for both.
\<close>

definition CREDS_MAX_GROUPS :: nat where
  "CREDS_MAX_GROUPS = 32"

definition NOID :: u32 where
  "NOID = - 1"

text \<open>The arrays \<^verbatim>\<open>uid[3]\<close> and \<^verbatim>\<open>gid[3]\<close> are \<open>{real, effective, saved}\<close>.\<close>

record id3 =
  id_r :: u32
  id_e :: u32
  id_s :: u32

record creds_t =
  uid :: id3
  gid :: id3
  fsuid :: u32
  fsgid :: u32
  groups :: "u32 list"
  ngroups :: int

definition creds_init :: "u32 \<Rightarrow> u32 \<Rightarrow> creds_t" where
  "creds_init u g =
     \<lparr>uid = \<lparr>id_r = u, id_e = u, id_s = u\<rparr>, gid = \<lparr>id_r = g, id_e = g, id_s = g\<rparr>,
      fsuid = u, fsgid = g, groups = (replicate CREDS_MAX_GROUPS 0)[0 := g], ngroups = 1\<rparr>"

definition in3 :: "id3 \<Rightarrow> u32 \<Rightarrow> bool" where
  "in3 ids v \<longleftrightarrow> v = id_r ids \<or> v = id_e ids \<or> v = id_s ids"

definition privileged :: "creds_t \<Rightarrow> bool" where
  "privileged c \<longleftrightarrow> id_e (uid c) = 0"

definition apply_ids :: "id3 \<Rightarrow> u32 \<Rightarrow> u32 \<Rightarrow> u32 \<Rightarrow> id3" where
  "apply_ids ids r e s =
     \<lparr>id_r = (if r \<noteq> NOID then r else id_r ids),
      id_e = (if e \<noteq> NOID then e else id_e ids),
      id_s = (if s \<noteq> NOID then s else id_s ids)\<rparr>"

definition apply_uid :: "creds_t \<Rightarrow> u32 \<Rightarrow> u32 \<Rightarrow> u32 \<Rightarrow> creds_t" where
  "apply_uid c r e s =
     (let ids = apply_ids (uid c) r e s in c\<lparr>uid := ids, fsuid := id_e ids\<rparr>)"

definition apply_gid :: "creds_t \<Rightarrow> u32 \<Rightarrow> u32 \<Rightarrow> u32 \<Rightarrow> creds_t" where
  "apply_gid c r e s =
     (let ids = apply_ids (gid c) r e s in c\<lparr>gid := ids, fsgid := id_e ids\<rparr>)"

definition creds_setuid :: "creds_t \<Rightarrow> u32 \<Rightarrow> int \<times> creds_t" where
  "creds_setuid c u =
     (if privileged c then (0, apply_uid c u u u)
      else if u = id_r (uid c) \<or> u = id_s (uid c) then (0, apply_uid c NOID u NOID)
      else (- EPERM, c))"

definition creds_setgid :: "creds_t \<Rightarrow> u32 \<Rightarrow> int \<times> creds_t" where
  "creds_setgid c g =
     (if privileged c then (0, apply_gid c g g g)
      else if g = id_r (gid c) \<or> g = id_s (gid c) then (0, apply_gid c NOID g NOID)
      else (- EPERM, c))"

definition creds_setresuid :: "creds_t \<Rightarrow> u32 \<Rightarrow> u32 \<Rightarrow> u32 \<Rightarrow> int \<times> creds_t" where
  "creds_setresuid c r e s =
     (if \<not> privileged c \<and> (r \<noteq> NOID \<and> \<not> in3 (uid c) r \<or> e \<noteq> NOID \<and> \<not> in3 (uid c) e \<or>
                             s \<noteq> NOID \<and> \<not> in3 (uid c) s)
      then (- EPERM, c) else (0, apply_uid c r e s))"

definition creds_setresgid :: "creds_t \<Rightarrow> u32 \<Rightarrow> u32 \<Rightarrow> u32 \<Rightarrow> int \<times> creds_t" where
  "creds_setresgid c r e s =
     (if \<not> privileged c \<and> (r \<noteq> NOID \<and> \<not> in3 (gid c) r \<or> e \<noteq> NOID \<and> \<not> in3 (gid c) e \<or>
                             s \<noteq> NOID \<and> \<not> in3 (gid c) s)
      then (- EPERM, c) else (0, apply_gid c r e s))"

definition creds_setreuid :: "creds_t \<Rightarrow> u32 \<Rightarrow> u32 \<Rightarrow> int \<times> creds_t" where
  "creds_setreuid c r e =
     (if \<not> privileged c \<and> (r \<noteq> NOID \<and> r \<noteq> id_r (uid c) \<and> r \<noteq> id_e (uid c) \<or>
                             e \<noteq> NOID \<and> \<not> in3 (uid c) e)
      then (- EPERM, c)
      else let old_real = id_r (uid c);
               new_e = (if e \<noteq> NOID then e else id_e (uid c));
               save = (r \<noteq> NOID \<or> e \<noteq> NOID \<and> e \<noteq> old_real)
           in (0, apply_uid c r e (if save then new_e else NOID)))"

definition creds_setregid :: "creds_t \<Rightarrow> u32 \<Rightarrow> u32 \<Rightarrow> int \<times> creds_t" where
  "creds_setregid c r e =
     (if \<not> privileged c \<and> (r \<noteq> NOID \<and> r \<noteq> id_r (gid c) \<and> r \<noteq> id_e (gid c) \<or>
                             e \<noteq> NOID \<and> \<not> in3 (gid c) e)
      then (- EPERM, c)
      else let old_real = id_r (gid c);
               new_e = (if e \<noteq> NOID then e else id_e (gid c));
               save = (r \<noteq> NOID \<or> e \<noteq> NOID \<and> e \<noteq> old_real)
           in (0, apply_gid c r e (if save then new_e else NOID)))"

text \<open>\<open>list\<close> is the caller's buffer: \<^verbatim>\<open>memcpy\<close> takes its first \<open>n\<close> ids and leaves the rest of
  the fixed array as it was.\<close>

definition creds_setgroups :: "creds_t \<Rightarrow> u32 list \<Rightarrow> int \<Rightarrow> int \<times> creds_t" where
  "creds_setgroups c list n =
     (if \<not> privileged c then (- EPERM, c)
      else if n < 0 \<or> n > int CREDS_MAX_GROUPS then (- EINVAL, c)
      else (0, c\<lparr>groups := take (nat n) list @ drop (nat n) (groups c), ngroups := n\<rparr>))"

definition creds_setfsuid :: "creds_t \<Rightarrow> u32 \<Rightarrow> int \<times> creds_t" where
  "creds_setfsuid c u =
     (uint (fsuid c),
      if u \<noteq> NOID \<and> (privileged c \<or> u = fsuid c \<or> in3 (uid c) u) then c\<lparr>fsuid := u\<rparr> else c)"

definition creds_setfsgid :: "creds_t \<Rightarrow> u32 \<Rightarrow> int \<times> creds_t" where
  "creds_setfsgid c g =
     (uint (fsgid c),
      if g \<noteq> NOID \<and> (privileged c \<or> g = fsgid c \<or> in3 (gid c) g) then c\<lparr>fsgid := g\<rparr> else c)"


text \<open>The credential-changing system calls as the exit handler (\<^verbatim>\<open>fake.c\<close>) dispatches them.\<close>

datatype cred_op =
    SETUID u32 | SETGID u32
  | SETREUID u32 u32 | SETREGID u32 u32
  | SETRESUID u32 u32 u32 | SETRESGID u32 u32 u32
  | SETFSUID u32 | SETFSGID u32
  | SETGROUPS "u32 list" int

fun cred_call :: "cred_op \<Rightarrow> creds_t \<Rightarrow> int \<times> creds_t" where
  "cred_call (SETUID u) c = creds_setuid c u"
| "cred_call (SETGID g) c = creds_setgid c g"
| "cred_call (SETREUID r e) c = creds_setreuid c r e"
| "cred_call (SETREGID r e) c = creds_setregid c r e"
| "cred_call (SETRESUID r e s) c = creds_setresuid c r e s"
| "cred_call (SETRESGID r e s) c = creds_setresgid c r e s"
| "cred_call (SETFSUID u) c = creds_setfsuid c u"
| "cred_call (SETFSGID g) c = creds_setfsgid c g"
| "cred_call (SETGROUPS list n) c = creds_setgroups c list n"

text \<open>Whatever sequence of calls the process makes.\<close>

inductive cred_run :: "creds_t \<Rightarrow> creds_t \<Rightarrow> bool" for c0 where
  cred_start: "cred_run c0 c0"
| cred_next: "cred_run c0 c \<Longrightarrow> cred_run c0 (snd (cred_call x c))"

definition creds_wf :: "creds_t \<Rightarrow> bool" where
  "creds_wf c \<longleftrightarrow> length (groups c) = CREDS_MAX_GROUPS \<and> 0 \<le> ngroups c \<and>
     ngroups c \<le> int CREDS_MAX_GROUPS"

text \<open>The caller's buffer holds at least the ids a valid count announces.\<close>

fun op_wf :: "cred_op \<Rightarrow> bool" where
  "op_wf (SETGROUPS list n) \<longleftrightarrow> (n \<le> int CREDS_MAX_GROUPS \<longrightarrow> n \<le> int (length list))"
| "op_wf _ \<longleftrightarrow> True"

definition id_set :: "id3 \<Rightarrow> u32 set" where
  "id_set i = {id_r i, id_e i, id_s i}"

lemmas uid_call_defs = creds_setuid_def creds_setreuid_def creds_setresuid_def
  creds_setfsuid_def apply_uid_def
lemmas gid_call_defs = creds_setgid_def creds_setregid_def creds_setresgid_def
  creds_setfsgid_def apply_gid_def
lemmas cred_call_defs = uid_call_defs gid_call_defs creds_setgroups_def

lemma in3_id_set [simp]: "in3 i v \<longleftrightarrow> v \<in> id_set i"
  by (auto simp: in3_def id_set_def)

lemma id_set_apply:
  "id_set (apply_ids i r e s) \<subseteq> id_set i \<union> ({r, e, s} - {NOID})"
  by (auto simp: id_set_def apply_ids_def)

lemma id_e_apply: "id_e (apply_ids i r e s) \<in> id_set (apply_ids i r e s)"
  by (simp add: id_set_def)

lemma id_set_members [simp]: "id_r i \<in> id_set i" "id_e i \<in> id_set i" "id_s i \<in> id_set i"
  by (simp_all add: id_set_def)

subsection \<open>What one side (user or group ids) promises\<close>

text \<open>\<open>others\<close> is the part of the credentials the side must not touch.\<close>

locale id_side =
  fixes ids :: "creds_t \<Rightarrow> id3" and fsid :: "creds_t \<Rightarrow> u32" and others :: "creds_t \<Rightarrow> 'r"
    and set1 :: "creds_t \<Rightarrow> u32 \<Rightarrow> int \<times> creds_t"
    and setre :: "creds_t \<Rightarrow> u32 \<Rightarrow> u32 \<Rightarrow> int \<times> creds_t"
    and setres :: "creds_t \<Rightarrow> u32 \<Rightarrow> u32 \<Rightarrow> u32 \<Rightarrow> int \<times> creds_t"
    and setfs :: "creds_t \<Rightarrow> u32 \<Rightarrow> int \<times> creds_t"
  assumes set1_ids: "\<not> privileged c \<Longrightarrow> id_set (ids (snd (set1 c u))) \<subseteq> id_set (ids c)"
    and setre_ids: "\<not> privileged c \<Longrightarrow> id_set (ids (snd (setre c r e))) \<subseteq> id_set (ids c)"
    and setres_ids: "\<not> privileged c \<Longrightarrow> id_set (ids (snd (setres c r e s))) \<subseteq> id_set (ids c)"
    and setfs_ids: "ids (snd (setfs c u)) = ids c"
    and set1_fs: "fsid (snd (set1 c u)) \<in> insert (fsid c) (id_set (ids (snd (set1 c u))))"
    and setre_fs: "fsid (snd (setre c r e)) \<in> insert (fsid c) (id_set (ids (snd (setre c r e))))"
    and setres_fs:
      "fsid (snd (setres c r e s)) \<in> insert (fsid c) (id_set (ids (snd (setres c r e s))))"
    and setfs_fs: "\<not> privileged c \<Longrightarrow> fsid (snd (setfs c u)) \<in> insert (fsid c) (id_set (ids c))"
    and set1_others: "others (snd (set1 c u)) = others c"
    and setre_others: "others (snd (setre c r e)) = others c"
    and setres_others: "others (snd (setres c r e s)) = others c"
    and setfs_others: "others (snd (setfs c u)) = others c"
begin

definition within :: "creds_t \<Rightarrow> creds_t \<Rightarrow> bool" where
  "within c0 c \<longleftrightarrow> id_set (ids c) \<subseteq> id_set (ids c0) \<and>
     fsid c \<in> insert (fsid c0) (id_set (ids c0))"

lemma within_refl: "within c c"
  by (simp add: within_def)

lemma within_trans: "within a b \<Longrightarrow> within b c \<Longrightarrow> within a c"
  by (auto simp: within_def)

lemma own_within:
  assumes "\<not> privileged c"
  shows "within c (snd (set1 c u))" "within c (snd (setre c r e))"
    "within c (snd (setres c r e s))" "within c (snd (setfs c u))"
  using set1_ids [OF assms, of u] set1_fs [of c u] setre_ids [OF assms, of r e]
    setre_fs [of c r e] setres_ids [OF assms, of r e s] setres_fs [of c r e s]
    setfs_fs [OF assms, of u]
  by (auto simp: within_def setfs_ids)

lemma foreign_within: "ids c = ids d \<Longrightarrow> fsid c = fsid d \<Longrightarrow> within c0 c \<longleftrightarrow> within c0 d"
  by (simp add: within_def)

end

interpretation us: id_side uid fsuid "\<lambda>c. (gid c, fsgid c, groups c, ngroups c)"
  creds_setuid creds_setreuid creds_setresuid creds_setfsuid
  by unfold_locales (auto simp: uid_call_defs Let_def apply_ids_def id_set_def)

interpretation gs: id_side gid fsgid "\<lambda>c. (uid c, fsuid c, groups c, ngroups c)"
  creds_setgid creds_setregid creds_setresgid creds_setfsgid
  by unfold_locales (auto simp: gid_call_defs Let_def apply_ids_def id_set_def)

subsection \<open>Runs of calls\<close>

definition drops_only :: "creds_t \<Rightarrow> creds_t \<Rightarrow> bool" where
  "drops_only c0 c \<longleftrightarrow> us.within c0 c \<and> gs.within c0 c \<and>
     groups c = groups c0 \<and> ngroups c = ngroups c0"

lemma drops_only_refl: "drops_only c c"
  by (simp add: drops_only_def us.within_refl gs.within_refl)

lemma drops_only_trans: "drops_only a b \<Longrightarrow> drops_only b c \<Longrightarrow> drops_only a c"
  unfolding drops_only_def by (metis us.within_trans gs.within_trans)

lemma uid_side_frame:
  assumes "(gid d, fsgid d, groups d, ngroups d) = (gid c, fsgid c, groups c, ngroups c)"
    and "us.within c d"
  shows "drops_only c d"
  using assms gs.foreign_within [of d c] by (simp add: drops_only_def gs.within_refl)

lemma gid_side_frame:
  assumes "(uid d, fsuid d, groups d, ngroups d) = (uid c, fsuid c, groups c, ngroups c)"
    and "gs.within c d"
  shows "drops_only c d"
  using assms us.foreign_within [of d c] by (simp add: drops_only_def us.within_refl)

lemmas side_drops =
  uid_side_frame [OF us.set1_others us.own_within(1)]
  uid_side_frame [OF us.setre_others us.own_within(2)]
  uid_side_frame [OF us.setres_others us.own_within(3)]
  uid_side_frame [OF us.setfs_others us.own_within(4)]
  gid_side_frame [OF gs.set1_others gs.own_within(1)]
  gid_side_frame [OF gs.setre_others gs.own_within(2)]
  gid_side_frame [OF gs.setres_others gs.own_within(3)]
  gid_side_frame [OF gs.setfs_others gs.own_within(4)]

lemma cred_call_drops_only:
  assumes "\<not> privileged c"
  shows "drops_only c (snd (cred_call x c))"
  using assms by (cases x) (simp_all add: side_drops creds_setgroups_def drops_only_refl)

lemma drops_only_unprivileged:
  "drops_only c0 c \<Longrightarrow> 0 \<notin> id_set (uid c0) \<Longrightarrow> \<not> privileged c"
  by (metis drops_only_def us.within_def privileged_def id_set_members(2) subsetD)

lemma cred_run_drops_only:
  assumes "cred_run c0 c" and "0 \<notin> id_set (uid c0)"
  shows "drops_only c0 c"
  using assms(1)
proof (induction rule: cred_run.induct)
  case cred_start
  show ?case by (rule drops_only_refl)
next
  case (cred_next c x)
  then have "drops_only c (snd (cred_call x c))"
    using drops_only_unprivileged [OF _ assms(2)] cred_call_drops_only by blast
  with cred_next.IH show ?case by (rule drops_only_trans)
qed

lemma creds_setuid_drop:
  assumes "privileged c" and "u \<noteq> NOID"
  shows "creds_setuid c u = (0, c\<lparr>uid := \<lparr>id_r = u, id_e = u, id_s = u\<rparr>, fsuid := u\<rparr>)"
  using assms by (simp add: creds_setuid_def apply_uid_def apply_ids_def Let_def)

lemma cred_call_wf [wf_intros]:
  assumes "creds_wf c" and "op_wf x"
  shows "creds_wf (snd (cred_call x c))"
  using assms
  by (cases x) (auto simp: cred_call_defs creds_wf_def Let_def)

subsection \<open>Properties\<close>

text \<open>C11: a process none of whose three user ids is 0 can never become root. Whatever
  sequence of \<^verbatim>\<open>set*id\<close>, \<^verbatim>\<open>setfs*id\<close> and \<^verbatim>\<open>setgroups\<close> calls it makes, its effective user id
  stays non-zero, its user and group ids stay among the ones it started with, and its
  supplementary groups do not change.\<close>

theorem no_privilege_escalation:
  assumes "cred_run c0 c" and "0 \<notin> id_set (uid c0)"
  shows "\<not> privileged c \<and> id_set (uid c) \<subseteq> id_set (uid c0) \<and> id_set (gid c) \<subseteq> id_set (gid c0) \<and>
    fsuid c \<in> insert (fsuid c0) (id_set (uid c0)) \<and> groups c = groups c0 \<and> ngroups c = ngroups c0"
  using cred_run_drops_only [OF assms] drops_only_unprivileged [OF _ assms(2)]
  by (simp add: drops_only_def us.within_def gs.within_def)

theorem no_privilege_escalation_witness:
  "\<not> privileged (snd (cred_call (SETUID 0) (creds_init 1000 1000)))"
proof -
  have "cred_run (creds_init 1000 1000) (snd (cred_call (SETUID 0) (creds_init 1000 1000)))"
    by (rule cred_next [OF cred_start])
  from no_privilege_escalation [OF this] show ?thesis
    by (simp add: creds_init_def id_set_def)
qed

text \<open>Giving up root with \<^verbatim>\<open>setuid(u)\<close> is permanent. After a privileged process calls
  \<^verbatim>\<open>setuid\<close> with a non-zero id (and not -1), the call has succeeded and after any further
  sequence of calls the real, effective, saved and file-system user ids are all still \<open>u\<close>.\<close>

theorem setuid_drop_is_permanent:
  assumes "privileged c0" and "u \<noteq> 0" and "u \<noteq> NOID"
    and "cred_run (snd (creds_setuid c0 u)) c"
  shows "fst (creds_setuid c0 u) = 0 \<and> uid c = \<lparr>id_r = u, id_e = u, id_s = u\<rparr> \<and> fsuid c = u"
proof -
  have d: "creds_setuid c0 u = (0, c0\<lparr>uid := \<lparr>id_r = u, id_e = u, id_s = u\<rparr>, fsuid := u\<rparr>)"
    using assms(1,3) by (rule creds_setuid_drop)
  have "drops_only (snd (creds_setuid c0 u)) c"
    using assms(2) by (intro cred_run_drops_only [OF assms(4)]) (simp add: d id_set_def)
  then have "id_set (uid c) \<subseteq> {u}" "fsuid c \<in> {u}"
    by (simp_all add: d drops_only_def us.within_def id_set_def)
  then show ?thesis
    by (cases "uid c") (simp add: d id_set_def)
qed

theorem setuid_drop_is_permanent_witness:
  "uid (snd (cred_call (SETRESUID 0 0 0) (snd (creds_setuid (creds_init 0 0) 42))))
     = \<lparr>id_r = 42, id_e = 42, id_s = 42\<rparr>"
proof -
  have "cred_run (snd (creds_setuid (creds_init 0 0) 42))
      (snd (cred_call (SETRESUID 0 0 0) (snd (creds_setuid (creds_init 0 0) 42))))"
    by (rule cred_next [OF cred_start])
  from setuid_drop_is_permanent [OF _ _ _ this] show ?thesis
    by (simp add: creds_init_def privileged_def NOID_def)
qed

text \<open>Dropping root temporarily loses nothing. A root process whose saved and file-system
  ids are 0 that sets its effective user id to \<open>u\<close> (\<^verbatim>\<open>setresuid(-1, u, -1)\<close>, or
  \<^verbatim>\<open>setreuid(-1, u)\<close> when its real id is \<open>u\<close>) and later back to 0 has exactly the
  credentials it started with, and both calls succeed.\<close>

theorem temporary_drop_roundtrip:
  assumes "privileged c" and "id_s (uid c) = 0" and "fsuid c = 0"
  shows "(case creds_setresuid c NOID u NOID of (rc, c') \<Rightarrow>
      rc = 0 \<and> creds_setresuid c' NOID 0 NOID = (0, c)) \<and>
    (id_r (uid c) = u \<longrightarrow> (case creds_setreuid c NOID u of (rc, c') \<Rightarrow>
      rc = 0 \<and> creds_setreuid c' NOID 0 = (0, c)))"
  using assms
  by (cases "uid c", cases c)
     (auto simp: creds_setresuid_def creds_setreuid_def apply_uid_def apply_ids_def
        privileged_def Let_def id_set_def NOID_def)

theorem temporary_drop_roundtrip_witness:
  "creds_setresuid (snd (creds_setresuid (creds_init 0 0) NOID 33 NOID)) NOID 0 NOID
     = (0, creds_init 0 0)"
  using temporary_drop_roundtrip [of "creds_init 0 0" 33]
  by (auto simp: creds_init_def privileged_def split: prod.splits)

text \<open>A refused call changes nothing and reports what the kernel would. The result code
  of every \<^verbatim>\<open>set*id\<close> and \<^verbatim>\<open>setgroups\<close> call is 0, \<^verbatim>\<open>-EPERM\<close> or \<^verbatim>\<open>-EINVAL\<close> (the \<^verbatim>\<open>setfs*\<close> pair
  returns the previous id instead); when it is not 0 the credentials are untouched; \<^verbatim>\<open>-EPERM\<close>
  is only ever given to a process whose effective user id is not 0, and \<^verbatim>\<open>-EINVAL\<close> only to a
  \<^verbatim>\<open>setgroups\<close> whose count is outside 0..32.\<close>

theorem cred_call_result:
  "case cred_call x c of (rc, c') \<Rightarrow>
     (case x of SETFSUID u \<Rightarrow> rc = uint (fsuid c) | SETFSGID g \<Rightarrow> rc = uint (fsgid c)
      | _ \<Rightarrow> rc = 0 \<or> rc = - EPERM \<and> \<not> privileged c \<and> c' = c
          \<or> rc = - EINVAL \<and> privileged c \<and> c' = c \<and>
            (\<exists>list n. x = SETGROUPS list n \<and> n \<notin> {0..32}))"
  by (cases x) (auto simp: cred_call_defs errno_defs CREDS_MAX_GROUPS_def Let_def)

text \<open>The group array never overflows. Every call keeps the fixed array of 32 entries
  and a count between 0 and 32, so the exit handler's copy of \<open>ngroups\<close> ids stays inside it;
  the initial credentials satisfy this.\<close>

theorem group_array_in_bounds:
  assumes "creds_wf c" and "op_wf x"
  shows "creds_wf (creds_init u g) \<and> creds_wf (snd (cred_call x c)) \<and>
    length (take (nat (ngroups (snd (cred_call x c)))) (groups (snd (cred_call x c))))
      = nat (ngroups (snd (cred_call x c)))"
  using cred_call_wf [OF assms]
  by (auto simp: creds_wf_def creds_init_def CREDS_MAX_GROUPS_def min_def)

theorem group_array_in_bounds_witness:
  "creds_wf (snd (cred_call (SETGROUPS [4, 24, 27] 3) (creds_init 0 0)))"
  using group_array_in_bounds [of "creds_init 0 0" "SETGROUPS [4, 24, 27] 3"]
  by (simp add: creds_wf_def creds_init_def CREDS_MAX_GROUPS_def)

end
