(* ===== verification/Ownership.thy ===== *)
theory Ownership
  imports Emu_Prelude
begin

text \<open>
  \<^verbatim>\<open>ownership.c\<close>: the fake file-ownership table, an open-addressing hash table with linear
  probing keyed by (device, inode). \<open>find_slot\<close> is the C probe loop: its fuel is the capacity,
  after which the indices repeat, so \<open>None\<close> says that the C loop would not end;
  \<open>find_slot_terminates\<close> shows that this never happens on a well-formed table. \<open>mem\<close> is the
  allocator: whether a request for so many bytes is granted.

  The locale \<open>owner_map\<close> is the interface the handlers rely on (a map with update, which may
  be refused for lack of memory); it is interpreted on the table. Saving and loading are
  modelled down to the characters \<^verbatim>\<open>fprintf\<close> writes and \<^verbatim>\<open>fscanf\<close> reads.
\<close>

type_synonym fkey = "u64 \<times> u64"
type_synonym owner = "u32 \<times> u32"

record owner_entry =
  e_dev :: u64
  e_ino :: u64
  e_uid :: u32
  e_gid :: u32
  e_used :: bool

record owner_db =
  db_slots :: "owner_entry list"
  db_cap :: nat
  db_count :: nat

definition zero_entry :: owner_entry where
  "zero_entry = \<lparr>e_dev = 0, e_ino = 0, e_uid = 0, e_gid = 0, e_used = False\<rparr>"

definition fresh_db :: owner_db where
  "fresh_db = \<lparr>db_slots = [], db_cap = 0, db_count = 0\<rparr>"

text \<open>\<^verbatim>\<open>calloc(n, size)\<close>: refused when the product overflows \<^verbatim>\<open>size_t\<close>, or by the allocator.\<close>

definition calloc_ok :: "(nat \<Rightarrow> bool) \<Rightarrow> nat \<Rightarrow> nat \<Rightarrow> bool" where
  "calloc_ok mem n sz \<longleftrightarrow> n * sz < 2 ^ 64 \<and> mem (n * sz)"

definition sizeof_db :: nat where "sizeof_db = 24"
definition sizeof_entry :: nat where "sizeof_entry = 32"

definition hash_of :: "u64 \<Rightarrow> u64 \<Rightarrow> u64" where
  "hash_of dev ino =
     (let h = (dev * 0x9E3779B97F4A7C15) XOR (ino * 0xC2B2AE3D27D4EB4F)
      in h XOR drop_bit 29 h)"

text \<open>Does the probe stop at this entry?\<close>

definition probe_stop :: "u64 \<Rightarrow> u64 \<Rightarrow> owner_entry \<Rightarrow> bool" where
  "probe_stop dev ino e \<longleftrightarrow> \<not> e_used e \<or> e_dev e = dev \<and> e_ino e = ino"

fun probe :: "owner_entry list \<Rightarrow> u64 \<Rightarrow> u64 \<Rightarrow> u64 \<Rightarrow> nat \<Rightarrow> u64 \<Rightarrow> nat option" where
  "probe slots msk dev ino 0 i = None"
| "probe slots msk dev ino (Suc fuel) i =
     (if probe_stop dev ino (slots ! unat i) then Some (unat i)
      else probe slots msk dev ino fuel ((i + 1) AND msk))"

definition find_slot :: "owner_entry list \<Rightarrow> nat \<Rightarrow> u64 \<Rightarrow> u64 \<Rightarrow> nat option" where
  "find_slot slots cap dev ino =
     (let msk = of_nat cap - 1 in probe slots msk dev ino cap (hash_of dev ino AND msk))"

definition emuroot_owner_lookup :: "owner_db option \<Rightarrow> u64 \<Rightarrow> u64 \<Rightarrow> owner option" where
  "emuroot_owner_lookup owners dev ino =
     (case owners of None \<Rightarrow> None
      | Some db \<Rightarrow>
          if db_count db = 0 then None
          else case find_slot (db_slots db) (db_cap db) dev ino of None \<Rightarrow> None
               | Some i \<Rightarrow>
                   let e = db_slots db ! i
                   in if \<not> e_used e then None else Some (e_uid e, e_gid e))"

text \<open>One step of the rehash loop: copy a used entry into its slot of the new array.\<close>

definition rehash_step :: "nat \<Rightarrow> owner_entry \<Rightarrow> owner_entry list \<Rightarrow> owner_entry list" where
  "rehash_step cap e slots =
     (if e_used e then
        case find_slot slots cap (e_dev e) (e_ino e) of None \<Rightarrow> slots | Some i \<Rightarrow> slots[i := e]
      else slots)"

text \<open>Room for one more entry at a load of at most one half; \<open>None\<close> when the larger array cannot
  be allocated (the table is then left as it was).\<close>

definition grow :: "(nat \<Rightarrow> bool) \<Rightarrow> owner_db \<Rightarrow> owner_db option" where
  "grow mem db =
     (if (db_count db + 1) * 2 > db_cap db then
        let cap = (if db_cap db \<noteq> 0 then db_cap db * 2 else 1024)
        in if calloc_ok mem cap sizeof_entry
           then Some (db\<lparr>db_cap := cap,
                  db_slots := fold (rehash_step cap) (db_slots db) (replicate cap zero_entry)\<rparr>)
           else None
      else Some db)"

definition emuroot_owner_set ::
  "(nat \<Rightarrow> bool) \<Rightarrow> owner_db option \<Rightarrow> u64 \<Rightarrow> u64 \<Rightarrow> u32 \<Rightarrow> u32 \<Rightarrow> owner_db option" where
  "emuroot_owner_set mem owners dev ino u g =
     (case (case owners of Some db \<Rightarrow> Some db
            | None \<Rightarrow> if calloc_ok mem 1 sizeof_db then Some fresh_db else None) of
        None \<Rightarrow> None
      | Some db \<Rightarrow>
          (case grow mem db of None \<Rightarrow> Some db
           | Some db \<Rightarrow>
               (case find_slot (db_slots db) (db_cap db) dev ino of None \<Rightarrow> Some db
                | Some i \<Rightarrow>
                    let e = db_slots db ! i
                    in Some (db\<lparr>db_count := (if e_used e then db_count db else db_count db + 1),
                         db_slots := (db_slots db)[i := \<lparr>e_dev = dev, e_ino = ino, e_uid = u,
                           e_gid = g, e_used = True\<rparr>]\<rparr>))))"

subsection \<open>Masked indices\<close>

lemma unat_and_mask:
  assumes "k < 64"
  shows "unat (w AND (of_nat (2 ^ k) - 1) :: u64) = unat w mod 2 ^ k"
proof -
  have "(of_nat (2 ^ k) - 1 :: u64) = mask k"
    by (simp add: mask_eq_exp_minus_1)
  then have "w AND (of_nat (2 ^ k) - 1) = take_bit k w"
    by (simp only: take_bit_eq_mask)
  then have "unat (w AND (of_nat (2 ^ k) - 1)) = take_bit k (unat w)"
    by (simp only: unsigned_take_bit_eq)
  then show ?thesis
    by (simp only: take_bit_eq_mod)
qed

lemma unat_next_mask:
  assumes "k < 64"
  shows "unat ((i + 1) AND (of_nat (2 ^ k) - 1) :: u64) = Suc (unat i) mod 2 ^ k"
proof -
  have "unat (i + 1) mod 2 ^ k = (Suc (unat i) mod 2 ^ 64) mod 2 ^ k"
    by (simp add: unat_word_ariths)
  also have "\<dots> = Suc (unat i) mod 2 ^ k"
    using assms by (intro mod_mod_cancel le_imp_power_dvd) simp
  finally show ?thesis
    using unat_and_mask [OF assms, of "i + 1"] by simp
qed

subsection \<open>Linear probing on natural-number indices\<close>

text \<open>The slots from \<open>h\<close> on, cyclically; the probe returns the first stopping one.\<close>

definition pslot :: "'a list \<Rightarrow> nat \<Rightarrow> nat \<Rightarrow> nat" where
  "pslot xs h t = (h + t) mod length xs"

lemma pslot_less [simp]: "xs \<noteq> [] \<Longrightarrow> pslot xs h t < length xs"
  by (simp add: pslot_def)

lemma pslot_0: "h < length xs \<Longrightarrow> pslot xs h 0 = h"
  by (simp add: pslot_def)

lemma pslot_Suc: "pslot xs (Suc h mod length xs) t = pslot xs h (Suc t)"
  by (simp add: pslot_def mod_add_left_eq)

lemma pslot_reaches: "j < length xs \<Longrightarrow> h < length xs \<Longrightarrow> \<exists>t < length xs. pslot xs h t = j"
proof -
  assume j: "j < length xs" and h: "h < length xs"
  show ?thesis
  proof (cases "h \<le> j")
    case True
    then show ?thesis using j by (intro exI [of _ "j - h"]) (simp add: pslot_def)
  next
    case False
    then show ?thesis using j h
      by (intro exI [of _ "length xs - h + j"]) (simp add: pslot_def)
  qed
qed

lemma pslot_inj:
  assumes "pslot xs h s = pslot xs h t" and "s < length xs" and "t < length xs"
  shows "s = t"
proof -
  have *: "s = t" if "pslot xs h s = pslot xs h t" "s \<le> t" "t < length xs" for s t
  proof -
    have "length xs dvd (h + t) - (h + s)"
      using that by (intro mod_eq_dvd_iff_nat [THEN iffD1]) (simp_all add: pslot_def)
    then have "length xs dvd t - s" by simp
    then show ?thesis
      using that nat_dvd_not_less [of "t - s" "length xs"] by linarith
  qed
  show ?thesis
    using assms * [of s t] * [of t s] by (metis le_cases)
qed

lemma probe_first:
  assumes "length xs = 2 ^ k" and "k < 64" and "unat i < length xs"
  shows "probe xs (of_nat (length xs) - 1) dev ino fuel i = Some j \<longleftrightarrow>
    (\<exists>t < fuel. j = pslot xs (unat i) t \<and> probe_stop dev ino (xs ! j) \<and>
      (\<forall>s < t. \<not> probe_stop dev ino (xs ! pslot xs (unat i) s)))"
  using assms(3)
proof (induction fuel arbitrary: i)
  case 0
  then show ?case by simp
next
  case (Suc fuel)
  let ?i' = "(i + 1) AND (of_nat (length xs) - 1)"
  have i': "unat ?i' = Suc (unat i) mod length xs"
    using assms(1,2) unat_next_mask [of k i] by simp
  have lt: "unat ?i' < length xs"
    unfolding i' using assms(1) by simp
  show ?case
  proof (cases "probe_stop dev ino (xs ! unat i)")
    case True
    with Suc.prems show ?thesis by (auto simp: pslot_0 Ex_less_Suc2 All_less_Suc2)
  next
    case False
    then have "probe xs (of_nat (length xs) - 1) dev ino (Suc fuel) i = Some j \<longleftrightarrow>
      (\<exists>t < fuel. j = pslot xs (unat i) (Suc t) \<and> probe_stop dev ino (xs ! j) \<and>
        (\<forall>s < t. \<not> probe_stop dev ino (xs ! pslot xs (unat i) (Suc s))))"
      using Suc.IH [OF lt] by (simp add: i' pslot_Suc)
    also have "\<dots> \<longleftrightarrow> (\<exists>t < Suc fuel. j = pslot xs (unat i) t \<and> probe_stop dev ino (xs ! j) \<and>
        (\<forall>s < t. \<not> probe_stop dev ino (xs ! pslot xs (unat i) s)))"
      using False Suc.prems
      by (auto simp: Ex_less_Suc2 All_less_Suc2 pslot_0)
    finally show ?thesis .
  qed
qed

subsection \<open>The table invariant\<close>

definition entry_key :: "owner_entry \<Rightarrow> fkey" where
  "entry_key e = (e_dev e, e_ino e)"

definition entry_val :: "owner_entry \<Rightarrow> owner" where
  "entry_val e = (e_uid e, e_gid e)"

definition home :: "owner_entry list \<Rightarrow> fkey \<Rightarrow> nat" where
  "home xs k = unat (hash_of (fst k) (snd k)) mod length xs"

definition holds :: "owner_entry list \<Rightarrow> fkey \<Rightarrow> nat \<Rightarrow> bool" where
  "holds xs k j \<longleftrightarrow> j < length xs \<and> e_used (xs ! j) \<and> entry_key (xs ! j) = k"

text \<open>A power-of-two size below \<open>2 ^ 64\<close>; no key twice; and no free slot between a key's home and
  the slot that holds it.\<close>

definition slots_wf :: "owner_entry list \<Rightarrow> bool" where
  "slots_wf xs \<longleftrightarrow> (\<exists>k < 64. length xs = 2 ^ k) \<and>
     (\<forall>key i j. holds xs key i \<longrightarrow> holds xs key j \<longrightarrow> i = j) \<and>
     (\<forall>key. \<forall>t < length xs. holds xs key (pslot xs (home xs key) t) \<longrightarrow>
        (\<forall>s < t. e_used (xs ! pslot xs (home xs key) s)))"

definition n_used :: "owner_entry list \<Rightarrow> nat" where
  "n_used xs = length (filter e_used xs)"

definition db_wf :: "owner_db \<Rightarrow> bool" where
  "db_wf db \<longleftrightarrow> db_cap db = length (db_slots db) \<and> db_count db = n_used (db_slots db) \<and>
     2 * db_count db \<le> db_cap db \<and> db_cap db * sizeof_entry < 2 ^ 64 \<and>
     (db_slots db = [] \<or> slots_wf (db_slots db))"

definition owners_wf :: "owner_db option \<Rightarrow> bool" where
  "owners_wf = pred_option db_wf"

text \<open>The abstract value: a finite map from file identity to owner.\<close>

definition slots_map :: "owner_entry list \<Rightarrow> fkey \<rightharpoonup> owner" where
  "slots_map xs = map_of (map (\<lambda>e. (entry_key e, entry_val e)) (filter e_used xs))"

definition owners_map :: "owner_db option \<Rightarrow> fkey \<rightharpoonup> owner" where
  "owners_map owners = (case owners of None \<Rightarrow> Map.empty | Some db \<Rightarrow> slots_map (db_slots db))"

lemma probe_stop_alt: "probe_stop d n e \<longleftrightarrow> \<not> e_used e \<or> entry_key e = (d, n)"
  by (auto simp: probe_stop_def entry_key_def)

lemma slots_wf_unique: "slots_wf xs \<Longrightarrow> holds xs key i \<Longrightarrow> holds xs key j \<Longrightarrow> i = j"
  unfolding slots_wf_def by blast

lemma slots_wf_chain:
  "slots_wf xs \<Longrightarrow> t < length xs \<Longrightarrow> holds xs key (pslot xs (home xs key) t) \<Longrightarrow> s < t \<Longrightarrow>
   e_used (xs ! pslot xs (home xs key) s)"
  unfolding slots_wf_def by blast

lemma slots_wf_nonempty: "slots_wf xs \<Longrightarrow> xs \<noteq> []"
  by (auto simp: slots_wf_def)

lemma home_less: "xs \<noteq> [] \<Longrightarrow> home xs key < length xs"
  by (simp add: home_def)

lemma slots_map_holds: "holds xs key j \<Longrightarrow> key \<in> dom (slots_map xs)"
proof -
  assume h: "holds xs key j"
  then have "xs ! j \<in> set (filter e_used xs)" and "entry_key (xs ! j) = key"
    by (simp_all add: holds_def)
  then have "key \<in> entry_key ` set (filter e_used xs)" by blast
  then show ?thesis
    by (simp add: slots_map_def dom_map_of_conv_image_fst image_image)
qed

lemma slots_map_SomeD:
  "slots_map xs key = Some v \<Longrightarrow> \<exists>j. holds xs key j \<and> entry_val (xs ! j) = v"
  by (auto simp: slots_map_def holds_def in_set_conv_nth dest!: map_of_SomeD)

lemma slots_map_None: "slots_map xs key = None \<longleftrightarrow> (\<forall>j. \<not> holds xs key j)"
  using slots_map_holds [of xs key] slots_map_SomeD [of xs key] by (metis domIff option.exhaust)

lemma slots_map_Some:
  assumes "slots_wf xs" and "holds xs key j"
  shows "slots_map xs key = Some (entry_val (xs ! j))"
proof -
  obtain v where v: "slots_map xs key = Some v"
    using slots_map_holds [OF assms(2)] by auto
  with slots_map_SomeD [OF v] slots_wf_unique [OF assms(1) _ assms(2)] show ?thesis by auto
qed

lemma n_used_less_spare: "n_used xs < length xs \<Longrightarrow> \<exists>j < length xs. \<not> e_used (xs ! j)"
  unfolding n_used_def
  by (metis filter_True in_set_conv_nth order.strict_iff_not order_refl)

lemma n_used_update:
  assumes "i < length xs" and "e_used e"
  shows "n_used (xs[i := e]) = (if e_used (xs ! i) then n_used xs else Suc (n_used xs))"
proof -
  let ?U = "\<lambda>ys. {j. j < length ys \<and> e_used (ys ! j)}"
  have "?U (xs[i := e]) = insert i (?U xs)"
    using assms by (auto simp: nth_list_update)
  moreover have "finite (?U xs)" by simp
  ultimately show ?thesis
    using assms(1) by (auto simp: n_used_def length_filter_conv_card card_insert_if)
qed

lemma map_of_rev_distinct:
  "distinct (map fst xs) \<Longrightarrow> map_of (rev xs) = map_of xs"
  by (rule map_of_inject_set [THEN iffD2]) (simp_all add: rev_map [symmetric])

lemma distinct_filter_nth:
  assumes "\<And>i j. i < length xs \<Longrightarrow> j < length xs \<Longrightarrow> P (xs ! i) \<Longrightarrow> xs ! i = xs ! j \<Longrightarrow> i = j"
  shows "distinct (filter P xs)"
  using assms
proof (induction xs)
  case Nil
  then show ?case by simp
next
  case (Cons x xs)
  have "distinct (filter P xs)"
    using Cons.prems [of "Suc _" "Suc _"] by (intro Cons.IH) auto
  moreover have "P x \<Longrightarrow> x \<notin> set xs"
    using Cons.prems [of 0 "Suc _"] by (auto simp: in_set_conv_nth)
  ultimately show ?case by auto
qed

lemma first_such:
  fixes P :: "nat \<Rightarrow> bool"
  assumes "P t0" and "t0 < m"
  shows "\<exists>t < m. P t \<and> (\<forall>s < t. \<not> P s)"
proof (intro exI conjI allI impI)
  show "P (LEAST t. P t)" using assms(1) by (rule LeastI)
  show "(LEAST t. P t) < m" using Least_le [of P, OF assms(1)] assms(2) by simp
qed (rule not_less_Least)

subsection \<open>The probe loop ends, at the key's slot or at a free one\<close>

lemma find_slot_first:
  assumes wf: "slots_wf xs" and spare: "n_used xs < length xs"
  obtains t where "t < length xs" "find_slot xs (length xs) d n = Some (pslot xs (home xs (d, n)) t)"
    "probe_stop d n (xs ! pslot xs (home xs (d, n)) t)"
    "\<forall>s < t. \<not> probe_stop d n (xs ! pslot xs (home xs (d, n)) s)"
proof -
  obtain k where k: "k < 64" "length xs = 2 ^ k"
    using wf by (auto simp: slots_wf_def)
  have h: "unat (hash_of d n AND (of_nat (length xs) - 1)) = home xs (d, n)"
    using k unat_and_mask [of k "hash_of d n"] by (simp add: home_def)
  note ne = slots_wf_nonempty [OF wf]
  obtain j where "j < length xs" "\<not> e_used (xs ! j)"
    using n_used_less_spare [OF spare] by blast
  then obtain t0 where "t0 < length xs" "probe_stop d n (xs ! pslot xs (home xs (d, n)) t0)"
    using pslot_reaches [of j xs "home xs (d, n)"] home_less [OF ne]
    by (auto simp: probe_stop_def)
  then obtain t where t: "t < length xs" "probe_stop d n (xs ! pslot xs (home xs (d, n)) t)"
      "\<forall>s < t. \<not> probe_stop d n (xs ! pslot xs (home xs (d, n)) s)"
    using first_such [of "\<lambda>t. probe_stop d n (xs ! pslot xs (home xs (d, n)) t)"] by blast
  have "find_slot xs (length xs) d n = Some (pslot xs (home xs (d, n)) t)"
    unfolding find_slot_def Let_def
    by (subst probe_first [OF k(2,1)]) (use t h home_less [OF ne] in auto)
  with t show ?thesis using that by blast
qed

lemma find_slot_spec:
  assumes wf: "slots_wf xs" and spare: "n_used xs < length xs"
  obtains i where "find_slot xs (length xs) d n = Some i" "i < length xs"
    "if e_used (xs ! i) then holds xs (d, n) i else slots_map xs (d, n) = None"
proof -
  obtain t where t: "t < length xs"
      "find_slot xs (length xs) d n = Some (pslot xs (home xs (d, n)) t)"
      "probe_stop d n (xs ! pslot xs (home xs (d, n)) t)"
      "\<forall>s < t. \<not> probe_stop d n (xs ! pslot xs (home xs (d, n)) s)"
    using find_slot_first [OF wf spare] by blast
  let ?i = "pslot xs (home xs (d, n)) t"
  note ne = slots_wf_nonempty [OF wf]
  have "slots_map xs (d, n) = None" if free: "\<not> e_used (xs ! ?i)"
    unfolding slots_map_None
  proof (intro allI notI)
    fix j assume j: "holds xs (d, n) j"
    obtain s where s: "s < length xs" "j = pslot xs (home xs (d, n)) s"
      using pslot_reaches [of j xs "home xs (d, n)"] home_less [OF ne] j
      by (auto simp: holds_def)
    have "\<not> s < t" using t(4) j s(2) by (auto simp: holds_def probe_stop_alt)
    moreover have "s \<noteq> t" using free j s(2) by (auto simp: holds_def)
    ultimately have "e_used (xs ! ?i)"
      using slots_wf_chain [OF wf s(1), of "(d, n)" t] j s(2) by simp
    with free show False ..
  qed
  moreover have "e_used (xs ! ?i) \<Longrightarrow> holds xs (d, n) ?i"
    using t(3) ne by (auto simp: holds_def probe_stop_alt)
  ultimately show ?thesis
    using that [of ?i] t(2) ne by simp
qed

subsection \<open>Writing the slot the probe found\<close>

lemma holds_update:
  assumes "i < length xs" and "e_used e"
  shows "holds (xs[i := e]) key j \<longleftrightarrow>
    (if j = i then entry_key e = key else holds xs key j)"
  using assms by (auto simp: holds_def nth_list_update)

lemma home_update [simp]: "home (xs[i := e]) = home xs"
  by (simp add: home_def fun_eq_iff)

lemma pslot_update [simp]: "pslot (xs[i := e]) = pslot xs"
  by (simp add: pslot_def fun_eq_iff)

lemma slots_wf_update:
  assumes wf: "slots_wf xs" and spare: "n_used xs < length xs"
    and i: "find_slot xs (length xs) (e_dev e) (e_ino e) = Some i" and e: "e_used e"
  shows "slots_wf (xs[i := e])"
proof -
  let ?k = "(e_dev e, e_ino e)"
  obtain t where t: "t < length xs" "i = pslot xs (home xs ?k) t"
      "\<forall>s < t. \<not> probe_stop (e_dev e) (e_ino e) (xs ! pslot xs (home xs ?k) s)"
    using find_slot_first [OF wf spare, of "e_dev e" "e_ino e"] i by auto
  have il: "i < length xs" using t(2) slots_wf_nonempty [OF wf] by simp
  have same: "holds xs ?k j \<Longrightarrow> j = i" for j
    using find_slot_spec [OF wf spare, of "e_dev e" "e_ino e"] i slots_wf_unique [OF wf]
      slots_map_None [of xs ?k] by (metis option.inject)
  have keyi: "holds xs key i \<Longrightarrow> key = ?k" for key
    using find_slot_spec [OF wf spare, of "e_dev e" "e_ino e"] i
    by (auto simp: holds_def)
  have used: "e_used (xs ! j) \<Longrightarrow> e_used (xs[i := e] ! j)" for j
    using il e by (cases "j = i") auto
  have chain: "e_used (xs[i := e] ! pslot xs (home xs key) s)"
    if "r < length xs" "holds (xs[i := e]) key (pslot xs (home xs key) r)" "s < r" for key r s
  proof (cases "pslot xs (home xs key) r = i")
    case True
    with that(2) il e have key: "key = ?k" by (simp add: holds_update entry_key_def)
    have "r = t" using True t(1,2) that(1) pslot_inj key by blast
    then show ?thesis using t(3) that(3) key used by (auto simp: probe_stop_alt)
  next
    case False
    then show ?thesis
      using that il e slots_wf_chain [OF wf that(1) _ that(3)] used by (simp add: holds_update)
  qed
  have uniq: "a = b" if "holds (xs[i := e]) key a" "holds (xs[i := e]) key b" for key a b
    using that il e same slots_wf_unique [OF wf]
    by (auto simp: holds_update entry_key_def split: if_splits)
  from chain uniq wf show ?thesis
    unfolding slots_wf_def home_update pslot_update length_list_update by blast
qed

lemma slots_map_update:
  assumes wf: "slots_wf xs" and spare: "n_used xs < length xs"
    and i: "find_slot xs (length xs) (e_dev e) (e_ino e) = Some i" and e: "e_used e"
  shows "slots_map (xs[i := e]) = (slots_map xs)(entry_key e \<mapsto> entry_val e)"
proof
  fix key
  have il: "i < length xs" and keyi: "holds xs key i \<Longrightarrow> key = entry_key e"
    using find_slot_spec [OF wf spare, of "e_dev e" "e_ino e"] i
    by (auto simp: holds_def entry_key_def)
  note wf' = slots_wf_update [OF wf spare i e]
  show "slots_map (xs[i := e]) key = ((slots_map xs)(entry_key e \<mapsto> entry_val e)) key"
  proof (cases "key = entry_key e")
    case True
    then have "holds (xs[i := e]) key i" using il e by (simp add: holds_update)
    from slots_map_Some [OF wf' this] show ?thesis using True il by simp
  next
    case False
    have eq: "holds (xs[i := e]) key j \<longleftrightarrow> holds xs key j" for j
      using il e False keyi by (auto simp: holds_update)
    show ?thesis
    proof (cases "slots_map xs key")
      case None
      with eq have "slots_map (xs[i := e]) key = None" by (simp add: slots_map_None)
      with None False show ?thesis by simp
    next
      case (Some v)
      then obtain j where j: "holds xs key j" "entry_val (xs ! j) = v"
        using slots_map_SomeD by blast
      have "j \<noteq> i" using j(1) False keyi by auto
      moreover have "slots_map (xs[i := e]) key = Some (entry_val (xs[i := e] ! j))"
        using j(1) eq by (intro slots_map_Some [OF wf']) simp
      ultimately show ?thesis using Some False j(2) by simp
    qed
  qed
qed

subsection \<open>Growing\<close>

lemma rehash_fold:
  assumes "slots_wf xs" and "n_used xs + n_used es < length xs"
    and "distinct (map entry_key (filter e_used es))"
    and "dom (slots_map xs) \<inter> entry_key ` set (filter e_used es) = {}"
  shows "let ys = fold (rehash_step (length xs)) es xs in
    slots_wf ys \<and> length ys = length xs \<and> n_used ys = n_used xs + n_used es \<and>
    slots_map ys = slots_map xs ++ slots_map es"
  using assms
proof (induction es arbitrary: xs)
  case Nil
  then show ?case by (simp add: n_used_def slots_map_def)
next
  case (Cons e es)
  show ?case
  proof (cases "e_used e")
    case False
    with Cons show ?thesis by (simp add: rehash_step_def n_used_def slots_map_def)
  next
    case True
    have spare: "n_used xs < length xs" using Cons.prems(2) by simp
    obtain i where i: "find_slot xs (length xs) (e_dev e) (e_ino e) = Some i" "i < length xs"
        "if e_used (xs ! i) then holds xs (e_dev e, e_ino e) i
         else slots_map xs (e_dev e, e_ino e) = None"
      using find_slot_spec [OF Cons.prems(1) spare] by blast
    have new: "entry_key e \<notin> dom (slots_map xs)"
      using Cons.prems(4) True by auto
    then have free: "\<not> e_used (xs ! i)"
      using i(3) slots_map_holds [of xs "(e_dev e, e_ino e)" i] by (auto simp: entry_key_def)
    let ?ys = "xs[i := e]"
    have step: "rehash_step (length xs) e xs = ?ys"
      using True i(1) by (simp add: rehash_step_def)
    have map: "slots_map ?ys = (slots_map xs)(entry_key e \<mapsto> entry_val e)"
      by (rule slots_map_update [OF Cons.prems(1) spare i(1) True])
    have cnt: "n_used ?ys = Suc (n_used xs)"
      using n_used_update [OF i(2) True] free by simp
    have es: "n_used (e # es) = Suc (n_used es)"
      "slots_map (e # es) = (slots_map es)(entry_key e \<mapsto> entry_val e)"
      using True by (simp_all add: n_used_def slots_map_def)
    have ndom: "entry_key e \<notin> dom (slots_map es)"
      using Cons.prems(3) True by (auto simp: slots_map_def dom_map_of_conv_image_fst image_image)
    have "let zs = fold (rehash_step (length ?ys)) es ?ys in
      slots_wf zs \<and> length zs = length ?ys \<and> n_used zs = n_used ?ys + n_used es \<and>
      slots_map zs = slots_map ?ys ++ slots_map es"
    proof (rule Cons.IH)
      show "slots_wf ?ys"
        by (rule slots_wf_update [OF Cons.prems(1) spare i(1) True])
      show "n_used ?ys + n_used es < length ?ys"
        using Cons.prems(2) cnt es(1) by simp
      show "distinct (map entry_key (filter e_used es))" using Cons.prems(3) True by simp
      show "dom (slots_map ?ys) \<inter> entry_key ` set (filter e_used es) = {}"
        using Cons.prems(3,4) True map by auto
    qed
    then show ?thesis
      using step cnt es(1) map map_add_upd_left [OF ndom] map_add_upd
      unfolding es(2) Let_def by simp
  qed
qed

lemma slots_wf_zero:
  assumes "k < 64" shows "slots_wf (replicate (2 ^ k) zero_entry)"
  using assms by (auto simp: slots_wf_def holds_def zero_entry_def)

lemma n_used_zero [simp]: "n_used (replicate m zero_entry) = 0"
  by (simp add: n_used_def zero_entry_def)

lemma slots_map_zero [simp]: "slots_map (replicate m zero_entry) = Map.empty"
  by (simp add: slots_map_def zero_entry_def)

lemma slots_wf_distinct:
  assumes "slots_wf xs" shows "distinct (map entry_key (filter e_used xs))"
proof -
  have "inj_on entry_key (set (filter e_used xs)) \<and> distinct (filter e_used xs)"
  proof
    show "inj_on entry_key (set (filter e_used xs))"
    proof (rule inj_onI)
      fix a b assume ab: "a \<in> set (filter e_used xs)" "b \<in> set (filter e_used xs)"
        and eq: "entry_key a = entry_key b"
      then obtain i j where "holds xs (entry_key a) i" "xs ! i = a" "holds xs (entry_key a) j" "xs ! j = b"
        by (auto simp: holds_def in_set_conv_nth)
      then show "a = b" using slots_wf_unique [OF assms] by blast
    qed
    show "distinct (filter e_used xs)"
    proof (rule distinct_filter_nth)
      fix i j assume "i < length xs" "j < length xs" "e_used (xs ! i)" "xs ! i = xs ! j"
      then show "i = j"
        using slots_wf_unique [OF assms, of "entry_key (xs ! i)" i j] by (simp add: holds_def)
    qed
  qed
  then show ?thesis by (simp add: distinct_map)
qed

lemma new_cap_power:
  assumes "db_wf db" and "calloc_ok mem (if db_cap db \<noteq> 0 then db_cap db * 2 else 1024) sizeof_entry"
  obtains k where "k < 64" "(if db_cap db \<noteq> 0 then db_cap db * 2 else 1024) = 2 ^ k"
proof (cases "db_cap db = 0")
  case True
  then show ?thesis using that [of 10] by simp
next
  case False
  with assms(1) have "slots_wf (db_slots db)" and cap: "db_cap db = length (db_slots db)"
    by (auto simp: db_wf_def)
  then obtain k where k: "db_cap db = 2 ^ k" by (auto simp: slots_wf_def)
  with False assms(2) have "(2::nat) ^ Suc k < 2 ^ 64"
    by (auto simp: calloc_ok_def sizeof_entry_def)
  then have "Suc k < 64" by (rule power_less_imp_less_exp [rotated]) simp
  with k False show ?thesis by (intro that [of "Suc k"]) simp_all
qed

lemma grow_spec:
  assumes wf: "db_wf db" and g: "grow mem db = Some db'"
  shows "slots_wf (db_slots db') \<and> db_cap db' = length (db_slots db') \<and>
    db_count db' = n_used (db_slots db') \<and> (db_count db' + 1) * 2 \<le> db_cap db' \<and>
    db_cap db' * sizeof_entry < 2 ^ 64 \<and> slots_map (db_slots db') = slots_map (db_slots db)"
proof (cases "(db_count db + 1) * 2 > db_cap db")
  case False
  with wf g show ?thesis by (auto simp: grow_def db_wf_def)
next
  case True
  let ?cap = "if db_cap db \<noteq> 0 then db_cap db * 2 else 1024"
  let ?z = "replicate ?cap zero_entry"
  have ok: "calloc_ok mem ?cap sizeof_entry" and db': "db' = db\<lparr>db_cap := ?cap,
      db_slots := fold (rehash_step ?cap) (db_slots db) ?z\<rparr>"
    using True g by (auto simp: grow_def Let_def split: if_splits)
  obtain k where k: "k < 64" "?cap = 2 ^ k"
    using new_cap_power [OF wf ok] by blast
  have cnt: "db_count db = n_used (db_slots db)" "2 * db_count db \<le> db_cap db"
    using wf by (auto simp: db_wf_def)
  then have room: "(db_count db + 1) * 2 \<le> ?cap"
    by (cases "db_cap db = 0") (simp_all, presburger)
  have zwf: "slots_wf ?z" using slots_wf_zero [OF k(1)] k(2) by metis
  have dist: "distinct (map entry_key (filter e_used (db_slots db)))"
    using wf slots_wf_distinct by (cases "db_slots db = []") (auto simp: db_wf_def)
  have less: "n_used ?z + n_used (db_slots db) < length ?z"
    using room cnt(1) by (simp del: replicate.simps)
  have "let ys = fold (rehash_step (length ?z)) (db_slots db) ?z in
    slots_wf ys \<and> length ys = length ?z \<and> n_used ys = n_used ?z + n_used (db_slots db) \<and>
    slots_map ys = slots_map ?z ++ slots_map (db_slots db)"
    by (rule rehash_fold [OF zwf less dist]) simp
  then show ?thesis
    unfolding db' using room cnt(1) ok by (simp add: Let_def calloc_ok_def del: replicate.simps)
qed

subsection \<open>Lookup and store against the abstract map\<close>

text \<open>Whether a store has the memory it needs: the table exists or can be made, and the larger
  array, if one is due, can be allocated.\<close>

definition can_store :: "(nat \<Rightarrow> bool) \<Rightarrow> owner_db option \<Rightarrow> bool" where
  "can_store mem owners =
     (case owners of None \<Rightarrow> calloc_ok mem 1 sizeof_db \<and> grow mem fresh_db \<noteq> None
      | Some db \<Rightarrow> grow mem db \<noteq> None)"

definition owners_count :: "owner_db option \<Rightarrow> nat" where
  "owners_count owners = (case owners of None \<Rightarrow> 0 | Some db \<Rightarrow> db_count db)"

lemma fresh_db_wf [simp]: "db_wf fresh_db"
  by (simp add: db_wf_def fresh_db_def n_used_def)

lemma db_wf_count_pos:
  assumes "db_wf db" and "db_count db \<noteq> 0"
  shows "slots_wf (db_slots db)" and "n_used (db_slots db) < length (db_slots db)"
  using assms by (auto simp: db_wf_def)

lemma n_used_0_map: "n_used xs = 0 \<Longrightarrow> slots_map xs = Map.empty"
  by (simp add: n_used_def slots_map_def)

lemma owner_lookup_map:
  assumes "owners_wf owners"
  shows "emuroot_owner_lookup owners d n = owners_map owners (d, n)"
proof (cases owners)
  case None
  then show ?thesis by (simp add: emuroot_owner_lookup_def owners_map_def)
next
  case (Some db)
  with assms have wf: "db_wf db" by (simp add: owners_wf_def)
  show ?thesis
  proof (cases "db_count db = 0")
    case True
    with wf have "slots_map (db_slots db) = Map.empty"
      by (intro n_used_0_map) (simp add: db_wf_def)
    with True Some show ?thesis by (simp add: emuroot_owner_lookup_def owners_map_def)
  next
    case False
    note s = db_wf_count_pos [OF wf False]
    obtain i where i: "find_slot (db_slots db) (length (db_slots db)) d n = Some i"
        "if e_used (db_slots db ! i) then holds (db_slots db) (d, n) i
         else slots_map (db_slots db) (d, n) = None"
      using find_slot_spec [OF s] by blast
    have cap: "db_cap db = length (db_slots db)" using wf by (simp add: db_wf_def)
    show ?thesis
      using Some False cap i slots_map_Some [OF s(1), of "(d, n)" i]
      by (auto simp: emuroot_owner_lookup_def owners_map_def Let_def entry_val_def)
  qed
qed

lemma store_slot_spec:
  assumes wf: "db_wf db" and g: "grow mem db = Some db'"
  shows "case emuroot_owner_set mem (Some db) d n u g of None \<Rightarrow> False
    | Some r \<Rightarrow> db_wf r \<and> slots_map (db_slots r) = (slots_map (db_slots db))((d, n) \<mapsto> (u, g)) \<and>
        db_count r \<le> Suc (db_count db)"
proof -
  note G = grow_spec [OF wf g]
  let ?xs = "db_slots db'"
  let ?e = "\<lparr>e_dev = d, e_ino = n, e_uid = u, e_gid = g, e_used = True\<rparr>"
  have sw: "slots_wf ?xs" and spare: "n_used ?xs < length ?xs" using G by simp_all
  obtain i where i: "find_slot ?xs (length ?xs) d n = Some i" "i < length ?xs"
    using find_slot_spec [OF sw spare] by blast
  have cnt: "db_count db' = db_count db"
    using g by (auto simp: grow_def Let_def split: if_splits)
  have swu: "slots_wf (?xs[i := ?e])"
    by (rule slots_wf_update [OF sw spare]) (simp_all add: i)
  have map: "slots_map (?xs[i := ?e]) = (slots_map ?xs)((d, n) \<mapsto> (u, g))"
    using slots_map_update [OF sw spare, of ?e i] i by (simp add: entry_key_def entry_val_def)
  show ?thesis
    using G i swu map cnt n_used_update [OF i(2), of ?e] g
    by (auto simp: emuroot_owner_set_def Let_def db_wf_def)
qed

lemma owner_set_map:
  assumes wf: "owners_wf owners"
  shows "owners_wf (emuroot_owner_set mem owners d n u g)"
    and "owners_map (emuroot_owner_set mem owners d n u g) =
      (if can_store mem owners then (owners_map owners)((d, n) \<mapsto> (u, g)) else owners_map owners)"
    and "owners_count (emuroot_owner_set mem owners d n u g) \<le> Suc (owners_count owners)"
proof -
  have fresh: "emuroot_owner_set mem None d n u g =
      (if calloc_ok mem 1 sizeof_db then emuroot_owner_set mem (Some fresh_db) d n u g else None)"
    by (simp add: emuroot_owner_set_def)
  have step: "owners_wf (emuroot_owner_set mem (Some db) d n u g) \<and>
      owners_map (emuroot_owner_set mem (Some db) d n u g) =
        (if grow mem db \<noteq> None then (slots_map (db_slots db))((d, n) \<mapsto> (u, g))
         else slots_map (db_slots db)) \<and>
      owners_count (emuroot_owner_set mem (Some db) d n u g) \<le> Suc (db_count db)"
    if "db_wf db" for db
  proof (cases "grow mem db")
    case None
    with that show ?thesis
      by (simp add: emuroot_owner_set_def owners_wf_def owners_map_def owners_count_def)
  next
    case (Some db')
    from store_slot_spec [OF that this, of d n u g] Some show ?thesis
      by (auto simp: owners_wf_def owners_map_def owners_count_def split: option.splits)
  qed
  have f: "slots_map (db_slots fresh_db) = Map.empty" "db_count fresh_db = 0"
    by (simp_all add: fresh_db_def slots_map_def)
  show "owners_wf (emuroot_owner_set mem owners d n u g)"
    "owners_map (emuroot_owner_set mem owners d n u g) =
      (if can_store mem owners then (owners_map owners)((d, n) \<mapsto> (u, g)) else owners_map owners)"
    "owners_count (emuroot_owner_set mem owners d n u g) \<le> Suc (owners_count owners)"
    using wf step [OF fresh_db_wf] step fresh f
    by (cases owners; auto simp: owners_wf_def owners_map_def can_store_def owners_count_def)+
qed

lemma can_store_small:
  assumes "owners_wf owners" and "\<And>b. mem b" and "owners_count owners < 2 ^ 57"
  shows "can_store mem owners"
proof -
  have "grow mem db \<noteq> None" if "db_wf db" "db_count db < 2 ^ 57" for db
    using that assms(2)
    by (auto simp: grow_def Let_def calloc_ok_def sizeof_entry_def db_wf_def)
  then show ?thesis
    using assms by (cases owners)
      (auto simp: can_store_def owners_wf_def owners_count_def calloc_ok_def sizeof_db_def
        fresh_db_def grow_def Let_def sizeof_entry_def)
qed

subsection \<open>The interface the handlers rely on\<close>

text \<open>\<open>room\<close> says that the next store is not refused for lack of memory.\<close>

fun store_all :: "('t \<Rightarrow> u64 \<Rightarrow> u64 \<Rightarrow> u32 \<Rightarrow> u32 \<Rightarrow> 't) \<Rightarrow> 't \<Rightarrow> (fkey \<times> owner) list \<Rightarrow> 't" where
  "store_all st m [] = m"
| "store_all st m (((d, n), (u, g)) # xs) = store_all st (st m d n u g) xs"

fun room_all :: "('t \<Rightarrow> u64 \<Rightarrow> u64 \<Rightarrow> u32 \<Rightarrow> u32 \<Rightarrow> 't) \<Rightarrow> ('t \<Rightarrow> bool) \<Rightarrow> 't \<Rightarrow>
    (fkey \<times> owner) list \<Rightarrow> bool" where
  "room_all st room m [] = True"
| "room_all st room m (((d, n), (u, g)) # xs) = (room m \<and> room_all st room (st m d n u g) xs)"

locale owner_map =
  fixes look :: "'t \<Rightarrow> u64 \<Rightarrow> u64 \<Rightarrow> owner option"
    and store :: "'t \<Rightarrow> u64 \<Rightarrow> u64 \<Rightarrow> u32 \<Rightarrow> u32 \<Rightarrow> 't"
    and room :: "'t \<Rightarrow> bool" and invar :: "'t \<Rightarrow> bool"
  assumes look_store: "invar m \<Longrightarrow> look (store m d n u g) d' n' =
      (if room m \<and> d' = d \<and> n' = n then Some (u, g) else look m d' n')"
    and invar_store: "invar m \<Longrightarrow> invar (store m d n u g)"
begin

lemma look_store_same: "invar m \<Longrightarrow> room m \<Longrightarrow> look (store m d n u g) d n = Some (u, g)"
  by (simp add: look_store)

lemma look_store_other: "invar m \<Longrightarrow> (d', n') \<noteq> (d, n) \<Longrightarrow> look (store m d n u g) d' n' = look m d' n'"
  by (auto simp: look_store)

lemma invar_store_all: "invar m \<Longrightarrow> invar (store_all store m xs)"
  by (induction xs arbitrary: m) (auto simp: invar_store)

lemma look_store_all:
  "invar m \<Longrightarrow> room_all store room m xs \<Longrightarrow>
   look (store_all store m xs) d n = (case map_of (rev xs) (d, n) of Some v \<Rightarrow> Some v | None \<Rightarrow> look m d n)"
proof (induction xs arbitrary: m)
  case Nil
  then show ?case by simp
next
  case (Cons x xs)
  obtain d' n' u g where x: "x = ((d', n'), (u, g))" by (metis prod.exhaust)
  have "look (store_all store (store m d' n' u g) xs) d n =
      (case map_of (rev xs) (d, n) of Some v \<Rightarrow> Some v | None \<Rightarrow> look (store m d' n' u g) d n)"
    using Cons.prems x by (intro Cons.IH) (auto intro: invar_store)
  then show ?case
    using Cons.prems x by (auto simp: look_store map_add_def split: option.splits)
qed

end

interpretation ot: owner_map emuroot_owner_lookup "emuroot_owner_set mem" "can_store mem" owners_wf
  for mem
  by unfold_locales (auto simp: owner_lookup_map owner_set_map)

subsection \<open>The table as text\<close>

text \<open>\<^verbatim>\<open>"%llu %llu %u %u\n"\<close> per used slot, in slot order.\<close>

definition digit :: "nat \<Rightarrow> char" where
  "digit d = char_of (48 + d)"

fun dec :: "nat \<Rightarrow> string" where
  "dec n = (if n < 10 then [digit n] else dec (n div 10) @ [digit (n mod 10)])"

declare dec.simps [simp del]

definition entry_line :: "owner_entry \<Rightarrow> string" where
  "entry_line e = dec (unat (e_dev e)) @ '' '' @ dec (unat (e_ino e)) @ '' '' @
     dec (unat (e_uid e)) @ '' '' @ dec (unat (e_gid e)) @ [CHR 0x0A]"

text \<open>What the file holds afterwards; \<open>None\<close> when there is no table or the file cannot be opened
  (\<open>can_open\<close>).\<close>

definition emuroot_owners_save :: "bool \<Rightarrow> owner_db option \<Rightarrow> string option" where
  "emuroot_owners_save can_open owners =
     (case owners of None \<Rightarrow> None
      | Some db \<Rightarrow>
          if \<not> can_open then None
          else Some (concat (map entry_line (filter e_used (db_slots db)))))"

text \<open>\<^verbatim>\<open>fscanf\<close>: white space is skipped before every number; a number is an optional sign and
  decimal digits; the value is \<^verbatim>\<open>strtoull\<close>'s (the largest value on overflow, negated modulo
  \<open>2 ^ 64\<close> after a minus sign), and \<^verbatim>\<open>%u\<close> keeps its low 32 bits.\<close>

definition is_space :: "char \<Rightarrow> bool" where
  "is_space c \<longleftrightarrow> c = CHR '' '' \<or> (of_char c :: nat) \<in> {9, 10, 11, 12, 13}"

definition is_digit :: "char \<Rightarrow> bool" where
  "is_digit c \<longleftrightarrow> 48 \<le> (of_char c :: nat) \<and> (of_char c :: nat) \<le> 57"

definition dec_val :: "string \<Rightarrow> nat" where
  "dec_val ds = foldl (\<lambda>v c. 10 * v + (of_char c - 48)) 0 ds"

definition scan_number :: "string \<Rightarrow> (u64 \<times> string) option" where
  "scan_number s =
     (let s = dropWhile is_space s;
          neg = (c_at s 0 = CHR ''-'');
          s = (if c_at s 0 = CHR ''-'' \<or> c_at s 0 = CHR ''+'' then tl s else s);
          ds = takeWhile is_digit s;
          v = dec_val ds
      in if ds = [] then None
         else Some (if v \<ge> 2 ^ 64 then - 1 else if neg then - of_nat v else of_nat v,
                    dropWhile is_digit s))"

definition scan_entry :: "string \<Rightarrow> ((fkey \<times> owner) \<times> string) option" where
  "scan_entry s =
     (case scan_number s of None \<Rightarrow> None
      | Some (dev, s) \<Rightarrow>
          (case scan_number s of None \<Rightarrow> None
           | Some (ino, s) \<Rightarrow>
               (case scan_number s of None \<Rightarrow> None
                | Some (u, s) \<Rightarrow>
                    (case scan_number s of None \<Rightarrow> None
                     | Some (g, s) \<Rightarrow> Some (((dev, ino), (ucast u, ucast g)), s)))))"

lemma scan_number_shorter: "scan_number s = Some (v, t) \<Longrightarrow> length t < length s"
proof -
  assume a: "scan_number s = Some (v, t)"
  let ?s = "dropWhile is_space s"
  let ?u = "if c_at ?s 0 = CHR ''-'' \<or> c_at ?s 0 = CHR ''+'' then tl ?s else ?s"
  have t: "t = dropWhile is_digit ?u" and ne: "takeWhile is_digit ?u \<noteq> []"
    using a by (auto simp: scan_number_def Let_def split: if_splits)
  have "length (takeWhile is_digit ?u) + length t = length ?u"
    unfolding t by (metis length_append takeWhile_dropWhile_id)
  moreover have "length ?u \<le> length s"
    using length_dropWhile_le [of is_space s] by (auto simp: le_diff_conv)
  moreover have "length (takeWhile is_digit ?u) > 0" using ne by blast
  ultimately show ?thesis by linarith
qed

lemma scan_entry_shorter: "scan_entry s = Some (x, t) \<Longrightarrow> length t < length s"
  by (auto simp: scan_entry_def split: option.splits dest!: scan_number_shorter)

function scan_all :: "string \<Rightarrow> (fkey \<times> owner) list" where
  "scan_all s = (case scan_entry s of None \<Rightarrow> [] | Some (x, t) \<Rightarrow> x # scan_all t)"
  by pat_completeness auto
termination
  by (relation "measure length") (auto dest: scan_entry_shorter)

declare scan_all.simps [simp del]

text \<open>\<open>file\<close> is the file's contents, \<open>None\<close> when it cannot be opened.\<close>

definition emuroot_owners_load ::
  "(nat \<Rightarrow> bool) \<Rightarrow> owner_db option \<Rightarrow> string option \<Rightarrow> owner_db option" where
  "emuroot_owners_load mem owners file =
     (case file of None \<Rightarrow> owners
      | Some s \<Rightarrow> store_all (emuroot_owner_set mem) owners (scan_all s))"

definition emuroot_owners_free :: "owner_db option \<Rightarrow> owner_db option" where
  "emuroot_owners_free owners = None"

lemma of_char_digit: "d < 10 \<Longrightarrow> of_char (digit d) = 48 + d"
  by (simp add: digit_def)

lemma is_digit_digit [simp]: "d < 10 \<Longrightarrow> is_digit (digit d)"
  by (simp add: is_digit_def of_char_digit)

lemma is_digit_not_sign: "is_digit c \<Longrightarrow> \<not> is_space c \<and> c \<noteq> CHR ''-'' \<and> c \<noteq> CHR ''+''"
  by (auto simp: is_digit_def is_space_def)

lemma dec_nonempty [simp]: "dec n \<noteq> []"
  by (subst dec.simps) simp

lemma dec_digits: "c \<in> set (dec n) \<Longrightarrow> is_digit c"
proof (induction n rule: dec.induct)
  case (1 n)
  then show ?case
    by (cases "n < 10") (auto simp: dec.simps [of n])
qed

lemma dec_val_dec: "dec_val (dec n) = n"
proof (induction n rule: dec.induct)
  case (1 n)
  show ?case
  proof (cases "n < 10")
    case True
    then show ?thesis by (simp add: dec.simps [of n] dec_val_def of_char_digit)
  next
    case False
    with 1 show ?thesis
      by (simp add: dec.simps [of n] dec_val_def of_char_digit)
  qed
qed

lemma scan_number_dec:
  assumes "n < 2 ^ 64" and "\<not> is_digit (c_at t 0)" and "list_all is_space ws"
  shows "scan_number (ws @ dec n @ t) = Some (of_nat n, t)"
proof -
  obtain c cs where d: "dec n = c # cs" by (cases "dec n") auto
  have c: "\<not> is_space c" "c \<noteq> CHR ''-''" "c \<noteq> CHR ''+''"
    using dec_digits [of c n] d is_digit_not_sign by auto
  have t: "takeWhile is_digit t = []" "dropWhile is_digit t = t"
    using assms(2) by (cases t; simp)+
  have ds: "takeWhile is_digit (dec n @ t) = dec n" "dropWhile is_digit (dec n @ t) = t"
    using dec_digits [of _ n] t
    by (simp_all add: takeWhile_append2 dropWhile_append2)
  have "dropWhile is_space (ws @ dec n @ t) = dec n @ t"
    using assms(3) c(1) d by (simp add: dropWhile_append2 list_all_iff)
  moreover have "c_at (dec n @ t) 0 = c" by (simp add: d)
  ultimately show ?thesis
    using c(2,3) ds assms(1) by (simp add: scan_number_def Let_def dec_val_dec)
qed

lemma unat_u64_less: "unat (w :: u64) < 2 ^ 64"
  using unsigned_less [of w, where ?'a = nat] by simp

lemma unat_u32_less: "unat (w :: u32) < 2 ^ 64"
  using unsigned_less [of w, where ?'a = nat] by simp

lemma space_not_digit [simp]: "\<not> is_digit (CHR '' '')" "\<not> is_digit (CHR 0x0A)"
  "is_space (CHR '' '')" "is_space (CHR 0x0A)"
  by (simp_all add: is_digit_def is_space_def)

lemma scan_entry_line:
  assumes "list_all is_space ws"
  shows "scan_entry (ws @ entry_line e @ t) =
    Some ((entry_key e, entry_val e), CHR 0x0A # t)"
proof -
  note num = scan_number_dec [OF unat_u64_less] scan_number_dec [OF unat_u32_less]
  have sp: "list_all is_space [CHR '' '']" by simp
  have u: "ucast (ucast w :: u64) = w" for w :: u32
    by (simp add: ucast_up_ucast_id is_up)
  show ?thesis
    unfolding scan_entry_def entry_line_def
    using num(1) [OF _ assms, of "'' '' @ dec (unat (e_ino e)) @ '' '' @ dec (unat (e_uid e)) @
        '' '' @ dec (unat (e_gid e)) @ [CHR 0x0A] @ t" "e_dev e"]
      num(1) [OF _ sp, of "'' '' @ dec (unat (e_uid e)) @ '' '' @ dec (unat (e_gid e)) @
        [CHR 0x0A] @ t" "e_ino e"]
      num(2) [OF _ sp, of "'' '' @ dec (unat (e_gid e)) @ [CHR 0x0A] @ t" "e_uid e"]
      num(2) [OF _ sp, of "[CHR 0x0A] @ t" "e_gid e"]
    by (simp add: entry_key_def entry_val_def u)
qed

lemma scan_entry_blank: "scan_entry [CHR 0x0A] = None" "scan_entry [] = None"
  by (simp_all add: scan_entry_def scan_number_def Let_def)

lemma scan_all_lines:
  assumes "list_all is_space ws" and "ws = [] \<or> ws = [CHR 0x0A]"
  shows "scan_all (ws @ concat (map entry_line es)) = map (\<lambda>e. (entry_key e, entry_val e)) es"
  using assms
proof (induction es arbitrary: ws)
  case Nil
  then show ?case using scan_entry_blank by (auto simp: scan_all.simps)
next
  case (Cons e es)
  have "scan_all (CHR 0x0A # concat (map entry_line es)) = map (\<lambda>e. (entry_key e, entry_val e)) es"
    using Cons.IH [of "[CHR 0x0A]"] by simp
  with scan_entry_line [OF Cons.prems(1), of e "concat (map entry_line es)"] show ?case
    by (simp add: scan_all.simps [of "ws @ entry_line e @ concat (map entry_line es)"])
qed

lemma room_all_small:
  assumes "owners_wf owners" and "\<And>b. mem b" and "owners_count owners + length xs \<le> 2 ^ 57"
  shows "room_all (emuroot_owner_set mem) (can_store mem) owners xs"
  using assms(1,3)
proof (induction xs arbitrary: owners)
  case Nil
  then show ?case by simp
next
  case (Cons x xs)
  obtain d n u g where x: "x = ((d, n), (u, g))" by (metis prod.exhaust)
  have "can_store mem owners"
    using Cons.prems assms(2) by (intro can_store_small) auto
  moreover have "room_all (emuroot_owner_set mem) (can_store mem) (emuroot_owner_set mem owners d n u g) xs"
    using Cons.prems owner_set_map(1,3) [OF Cons.prems(1), of mem d n u g]
    by (intro Cons.IH) auto
  ultimately show ?case by (simp add: x)
qed

lemma owners_wf_None [simp]: "owners_wf None"
  by (simp add: owners_wf_def)

subsection \<open>Properties\<close>

text \<open>The probe loop of \<^verbatim>\<open>find_slot\<close> always ends. On a well-formed table with a free slot
  (the growth rule keeps at least half of them free) it stops within one turn around the
  array, at an index inside the array, and that slot is either the one that holds the key or
  a free one, in which case the key is nowhere in the table.\<close>

theorem find_slot_terminates:
  assumes "slots_wf xs" and "n_used xs < length xs"
  shows "\<exists>i < length xs. find_slot xs (length xs) dev ino = Some i \<and>
    (if e_used (xs ! i) then entry_key (xs ! i) = (dev, ino) else slots_map xs (dev, ino) = None)"
  using find_slot_spec [OF assms, of dev ino] by (metis holds_def)

theorem find_slot_terminates_witness:
  "\<exists>i < 1024. find_slot (replicate 1024 zero_entry) 1024 8 42 = Some i"
  using find_slot_terminates [of "replicate 1024 zero_entry" 8 42] slots_wf_zero [of 10]
  by (auto simp del: replicate.simps)

text \<open>C17: the hash table refines a map. On every well-formed table (in particular the absent
  one a context starts with), \<^verbatim>\<open>emuroot_owner_lookup\<close> reads the abstract map from (device,
  inode) to owner; \<^verbatim>\<open>emuroot_owner_set\<close>, growing and rehashing when it must, yields a well-formed
  table whose map is the old one updated at that key, or, exactly when memory for the table or the
  larger array is refused, the old map unchanged.\<close>

theorem owner_table_refines_map:
  assumes "owners_wf owners"
  shows "emuroot_owner_lookup owners d n = owners_map owners (d, n) \<and>
    owners_wf (emuroot_owner_set mem owners d n u g) \<and>
    owners_map (emuroot_owner_set mem owners d n u g) =
      (if can_store mem owners then (owners_map owners)((d, n) \<mapsto> (u, g)) else owners_map owners)"
  using owner_lookup_map [OF assms] owner_set_map(1,2) [OF assms] by auto

theorem owner_table_refines_map_witness:
  "emuroot_owner_lookup (emuroot_owner_set (\<lambda>_. True) None 8 42 0 100) 8 42 = Some (0, 100)"
proof -
  have "can_store (\<lambda>_. True) None"
    by (rule can_store_small) (simp_all add: owners_count_def)
  moreover have "owners_wf (emuroot_owner_set (\<lambda>_. True) None 8 42 0 100)"
    using owner_table_refines_map [of None] by simp
  ultimately show ?thesis
    using owner_table_refines_map [of None 8 42 "\<lambda>_. True" 0 100]
      owner_table_refines_map [of "emuroot_owner_set (\<lambda>_. True) None 8 42 0 100" 8 42]
    by simp
qed

text \<open>C27: ownership survives a save and a load. Writing the table to the ids file and loading
  that text into a fresh context gives back exactly the same owner for every file, provided the
  allocator grants memory and the table holds fewer than \<open>2 ^ 57\<close> entries.\<close>

theorem owners_save_load_roundtrip:
  assumes "owners_wf owners" and "owners_count owners \<le> 2 ^ 57" and "\<And>b. mem b"
    and "emuroot_owners_save True owners = Some contents"
  shows "emuroot_owner_lookup (emuroot_owners_load mem None (Some contents)) d n =
    emuroot_owner_lookup owners d n"
proof -
  obtain db where db: "owners = Some db" and
    contents: "contents = concat (map entry_line (filter e_used (db_slots db)))"
    using assms(4) by (auto simp: emuroot_owners_save_def split: option.splits)
  let ?kvs = "map (\<lambda>e. (entry_key e, entry_val e)) (filter e_used (db_slots db))"
  have scan: "scan_all contents = ?kvs"
    using scan_all_lines [of "[]"] by (simp add: contents)
  have wf: "db_wf db" using assms(1) db by (simp add: owners_wf_def)
  have "length ?kvs \<le> 2 ^ 57"
    using assms(2) db wf by (simp add: owners_count_def db_wf_def n_used_def)
  then have room: "room_all (emuroot_owner_set mem) (can_store mem) None ?kvs"
    using assms(3) by (intro room_all_small) (simp_all add: owners_count_def)
  have dist: "distinct (map fst ?kvs)"
    using wf slots_wf_distinct [of "db_slots db"] by (auto simp: db_wf_def comp_def)
  have "emuroot_owner_lookup (emuroot_owners_load mem None (Some contents)) d n = map_of (rev ?kvs) (d, n)"
    using ot.look_store_all [OF owners_wf_None room, of d n] scan
    by (simp add: emuroot_owners_load_def emuroot_owner_lookup_def split: option.splits)
  also have "\<dots> = slots_map (db_slots db) (d, n)"
    using dist by (simp add: slots_map_def map_of_rev_distinct)
  finally show ?thesis
    using owner_lookup_map [OF assms(1)] db by (simp add: owners_map_def)
qed

theorem owners_save_load_roundtrip_witness:
  "emuroot_owner_lookup (emuroot_owners_load (\<lambda>_. True) None
     (emuroot_owners_save True (Some fresh_db))) 1 2 = None"
proof -
  have s: "emuroot_owners_save True (Some fresh_db) = Some []"
    and l: "emuroot_owner_lookup (Some fresh_db) 1 2 = None"
    and c: "owners_count (Some fresh_db) \<le> 2 ^ 57"
    by (simp_all add: emuroot_owners_save_def emuroot_owner_lookup_def owners_count_def fresh_db_def)
  show ?thesis
    using owners_save_load_roundtrip [OF _ c _ s, of "\<lambda>_. True" 1 2] s l
    by (simp add: owners_wf_def)
qed

end
