(* ===== verification/Ctx.thy ===== *)
theory Ctx
  imports Ownership
begin

text \<open>
  \<^verbatim>\<open>emuroot.c\<close>, \<^verbatim>\<open>emuroot.h\<close> and the context of \<^verbatim>\<open>internal.h\<close>: the session context, its
  bindings and the public calls that configure it. A pointer argument that may be NULL is an
  option; every call returns its status code and the context it leaves. The fixed array of
  bindings is the list of its first \<^verbatim>\<open>nbindings\<close> entries.
\<close>

definition MAX_BINDINGS :: nat where
  "MAX_BINDINGS = 128"

record binding_t =
  b_host :: string
  b_guest :: string
  b_guest_len :: nat
  b_mount :: string
  b_mount_len :: nat

record emuroot_ctx =
  ctx_root :: string
  bindings :: "binding_t list"
  has_fake_ids :: bool
  fake_uid :: u32
  fake_gid :: u32
  has_fake_uname :: bool
  uname_sysname :: string
  uname_release :: string
  uname_machine :: string
  ids_file :: string
  owners :: "owner_db option"
  verbose :: bool

definition EMUROOT_OK :: int where "EMUROOT_OK = 0"
definition EMUROOT_ERR_NOMEM :: int where "EMUROOT_ERR_NOMEM = - 1"
definition EMUROOT_ERR_INVAL :: int where "EMUROOT_ERR_INVAL = - 2"
definition EMUROOT_ERR_UNSUPPORTED :: int where "EMUROOT_ERR_UNSUPPORTED = - 3"
definition EMUROOT_ERR_SYSTEM :: int where "EMUROOT_ERR_SYSTEM = - 4"
definition EMUROOT_ERR_NOT_FOUND :: int where "EMUROOT_ERR_NOT_FOUND = - 5"

lemmas status_defs = EMUROOT_OK_def EMUROOT_ERR_NOMEM_def EMUROOT_ERR_INVAL_def
  EMUROOT_ERR_UNSUPPORTED_def EMUROOT_ERR_SYSTEM_def EMUROOT_ERR_NOT_FOUND_def

definition zero_ctx :: emuroot_ctx where
  "zero_ctx = \<lparr>ctx_root = [], bindings = [], has_fake_ids = False, fake_uid = 0, fake_gid = 0,
     has_fake_uname = False, uname_sysname = [], uname_release = [], uname_machine = [],
     ids_file = [], owners = None, verbose = False\<rparr>"

text \<open>\<open>ok\<close> is whether \<^verbatim>\<open>calloc\<close> succeeds.\<close>

definition emuroot_create :: "bool \<Rightarrow> emuroot_ctx option" where
  "emuroot_create ok = (if ok then Some zero_ctx else None)"

text \<open>What \<^verbatim>\<open>emuroot_destroy\<close> frees, in its order: \<^verbatim>\<open>free\<close> of a null pointer does nothing.\<close>

datatype ctx_block = Owner_slots | Owner_db | Context

definition emuroot_destroy :: "emuroot_ctx option \<Rightarrow> ctx_block list" where
  "emuroot_destroy ctx =
     (case ctx of
        None \<Rightarrow> []
      | Some c \<Rightarrow>
          (case owners c of
             None \<Rightarrow> []
           | Some db \<Rightarrow> (if db_slots db \<noteq> [] then [Owner_slots] else []) @ [Owner_db]) @ [Context])"

definition copy_path :: "string \<Rightarrow> string \<Rightarrow> int \<times> string" where
  "copy_path dst src = (if length src \<ge> PATH_LEN then (EMUROOT_ERR_INVAL, dst) else (EMUROOT_OK, src))"

definition emuroot_set_root :: "emuroot_ctx option \<Rightarrow> string option \<Rightarrow> int \<times> emuroot_ctx option" where
  "emuroot_set_root ctx new_root =
     (case (ctx, new_root) of
        (Some c, Some r) \<Rightarrow>
          (case copy_path (ctx_root c) r of (rc, root) \<Rightarrow>
             if rc \<noteq> 0 then (EMUROOT_ERR_INVAL, ctx)
             else let len = length root
                  in (EMUROOT_OK, Some (c\<lparr>ctx_root :=
                       (if len > 1 \<and> root ! (len - 1) = SLASH then take (len - 1) root else root)\<rparr>)))
      | _ \<Rightarrow> (EMUROOT_ERR_INVAL, ctx))"

text \<open>A new binding's \<^verbatim>\<open>mount\<close> fields are empty here: the guest's start and \<^verbatim>\<open>emulate_mount\<close>, the two
  callers, fill them in before anything reads them (until then a slot reused after an unbind holds
  the old entry's).\<close>

definition emuroot_bind ::
  "emuroot_ctx option \<Rightarrow> string option \<Rightarrow> string option \<Rightarrow> int \<times> emuroot_ctx option" where
  "emuroot_bind ctx host guest =
     (case (ctx, host, guest) of
        (Some c, Some h, Some g) \<Rightarrow>
          if length (bindings c) \<ge> MAX_BINDINGS then (EMUROOT_ERR_NOMEM, ctx)
          else if fst (copy_path [] h) \<noteq> 0 \<or> fst (copy_path [] g) \<noteq> 0 then (EMUROOT_ERR_INVAL, ctx)
          else (EMUROOT_OK, Some (c\<lparr>bindings := bindings c @
                 [\<lparr>b_host = h, b_guest = g, b_guest_len = length g, b_mount = [], b_mount_len = 0\<rparr>]\<rparr>))
      | _ \<Rightarrow> (EMUROOT_ERR_INVAL, ctx))"

text \<open>The list without its first element that satisfies \<open>P\<close>, if there is one.\<close>

fun drop_first :: "('a \<Rightarrow> bool) \<Rightarrow> 'a list \<Rightarrow> 'a list option" where
  "drop_first P [] = None"
| "drop_first P (x # xs) = (if P x then Some xs else map_option ((#) x) (drop_first P xs))"

text \<open>The C loop runs from the last binding down.\<close>

definition emuroot_unbind :: "emuroot_ctx \<Rightarrow> string \<Rightarrow> bool \<times> emuroot_ctx" where
  "emuroot_unbind ctx guest =
     (case drop_first (\<lambda>b. b_guest b = guest) (rev (bindings ctx)) of
        None \<Rightarrow> (False, ctx)
      | Some bs \<Rightarrow> (True, ctx\<lparr>bindings := rev bs\<rparr>))"

definition emuroot_set_fake_ids :: "emuroot_ctx option \<Rightarrow> u32 \<Rightarrow> u32 \<Rightarrow> int \<times> emuroot_ctx option" where
  "emuroot_set_fake_ids ctx u g =
     (case ctx of None \<Rightarrow> (EMUROOT_ERR_INVAL, None)
      | Some c \<Rightarrow> (EMUROOT_OK, Some (c\<lparr>has_fake_ids := True, fake_uid := u, fake_gid := g\<rparr>)))"

definition or_empty :: "string option \<Rightarrow> string" where
  "or_empty s = (case s of None \<Rightarrow> [] | Some s \<Rightarrow> s)"

definition emuroot_set_fake_uname ::
  "emuroot_ctx option \<Rightarrow> string option \<Rightarrow> string option \<Rightarrow> string option \<Rightarrow> int \<times> emuroot_ctx option" where
  "emuroot_set_fake_uname ctx sysname release machine =
     (case ctx of None \<Rightarrow> (EMUROOT_ERR_INVAL, None)
      | Some c \<Rightarrow> (EMUROOT_OK, Some (c\<lparr>has_fake_uname := True,
          uname_sysname := snprintf 65 (or_empty sysname),
          uname_release := snprintf 65 (or_empty release),
          uname_machine := snprintf 65 (or_empty machine)\<rparr>)))"

definition emuroot_set_ids_file :: "emuroot_ctx option \<Rightarrow> string option \<Rightarrow> int \<times> emuroot_ctx option" where
  "emuroot_set_ids_file ctx path =
     (case (ctx, path) of
        (Some c, Some p) \<Rightarrow>
          (case copy_path (ids_file c) p of (rc, f) \<Rightarrow> (rc, Some (c\<lparr>ids_file := f\<rparr>)))
      | _ \<Rightarrow> (EMUROOT_ERR_INVAL, ctx))"

definition emuroot_set_verbose :: "emuroot_ctx option \<Rightarrow> bool \<Rightarrow> int \<times> emuroot_ctx option" where
  "emuroot_set_verbose ctx enable =
     (case ctx of None \<Rightarrow> (EMUROOT_ERR_INVAL, None)
      | Some c \<Rightarrow> (EMUROOT_OK, Some (c\<lparr>verbose := enable\<rparr>)))"

datatype emuroot_backend_t = EMUROOT_BACKEND_NONE | EMUROOT_BACKEND_PTRACE | EMUROOT_BACKEND_ENVONLY

fun emuroot_backend_name :: "emuroot_backend_t \<Rightarrow> string" where
  "emuroot_backend_name EMUROOT_BACKEND_PTRACE = ''ptrace''"
| "emuroot_backend_name EMUROOT_BACKEND_ENVONLY = ''envonly''"
| "emuroot_backend_name EMUROOT_BACKEND_NONE = ''none''"

text \<open>\<open>no_ptrace\<close> is the build without the engine, \<open>forced\<close> the value of EMUROOT_BACKEND, \<open>forked\<close>
  whether \<^verbatim>\<open>fork\<close> worked and \<open>stopped\<close> whether the traced child reported its stop.\<close>

definition emuroot_probe_backend :: "bool \<Rightarrow> string option \<Rightarrow> bool \<Rightarrow> bool \<Rightarrow> emuroot_backend_t" where
  "emuroot_probe_backend no_ptrace forced forked stopped =
     (if no_ptrace then EMUROOT_BACKEND_ENVONLY
      else if forced = Some ''envonly'' then EMUROOT_BACKEND_ENVONLY
      else if \<not> forked then EMUROOT_BACKEND_ENVONLY
      else if stopped then EMUROOT_BACKEND_PTRACE else EMUROOT_BACKEND_ENVONLY)"

text \<open>\<open>run_ptrace\<close> and \<open>run_envonly\<close> are the results of the two backends, \<open>argv0\<close> the first
  argument (\<open>None\<close> when \<^verbatim>\<open>argv\<close> or \<^verbatim>\<open>argv[0]\<close> is NULL).\<close>

definition emuroot_run ::
  "emuroot_ctx option \<Rightarrow> string option \<Rightarrow> emuroot_backend_t \<Rightarrow> int \<Rightarrow> int \<Rightarrow> int" where
  "emuroot_run ctx argv0 backend run_ptrace run_envonly =
     (if ctx = None \<or> argv0 = None then EMUROOT_ERR_INVAL
      else if backend = EMUROOT_BACKEND_PTRACE \<and> run_ptrace \<noteq> EMUROOT_ERR_UNSUPPORTED then run_ptrace
      else run_envonly)"

definition emuroot_strerror :: "int \<Rightarrow> string" where
  "emuroot_strerror status =
     (if status = EMUROOT_OK then ''success''
      else if status = EMUROOT_ERR_NOMEM then ''out of memory / binding table full''
      else if status = EMUROOT_ERR_INVAL then ''invalid argument''
      else if status = EMUROOT_ERR_UNSUPPORTED then ''unsupported on this platform''
      else if status = EMUROOT_ERR_SYSTEM then ''system call failed (see errno)''
      else if status = EMUROOT_ERR_NOT_FOUND then ''not found''
      else ''unknown error'')"

subsection \<open>The context invariant\<close>

definition binding_wf :: "binding_t \<Rightarrow> bool" where
  "binding_wf b \<longleftrightarrow> b_guest_len b = length (b_guest b) \<and> length (b_guest b) < PATH_LEN \<and>
     length (b_host b) < PATH_LEN \<and> b_mount_len b = length (b_mount b) \<and>
     NUL \<notin> set (b_guest b) \<and> NUL \<notin> set (b_host b)"

definition ctx_wf :: "emuroot_ctx \<Rightarrow> bool" where
  "ctx_wf c \<longleftrightarrow> length (bindings c) \<le> MAX_BINDINGS \<and> (\<forall>b \<in> set (bindings c). binding_wf b) \<and>
     length (ctx_root c) < PATH_LEN"

lemma zero_ctx_wf [wf_intros]: "ctx_wf zero_ctx"
  by (simp add: ctx_wf_def zero_ctx_def PATH_LEN_def)

lemma drop_first_subset: "drop_first P xs = Some ys \<Longrightarrow> set ys \<subseteq> set xs \<and> length xs = Suc (length ys)"
  by (induction xs arbitrary: ys) (force split: if_splits)+

lemma emuroot_bind_OK:
  assumes "emuroot_bind (Some c) (Some h) (Some g) = (EMUROOT_OK, Some c')"
  shows "c' = c\<lparr>bindings := bindings c @ [\<lparr>b_host = h, b_guest = g, b_guest_len = length g,
      b_mount = [], b_mount_len = 0\<rparr>]\<rparr>" "length (bindings c) < MAX_BINDINGS"
    "length h < PATH_LEN" "length g < PATH_LEN"
  using assms by (auto simp: emuroot_bind_def copy_path_def status_defs split: if_splits)

lemma emuroot_bind_wf [wf_intros]:
  assumes "ctx_wf c" and "NUL \<notin> set h" and "NUL \<notin> set g"
    and "emuroot_bind (Some c) (Some h) (Some g) = (rc, Some c')"
  shows "ctx_wf c'"
proof (cases "rc = EMUROOT_OK")
  case True
  from emuroot_bind_OK [OF assms(4) [unfolded True]] assms(1-3) show ?thesis
    by (auto simp: ctx_wf_def binding_wf_def)
next
  case False
  then have "c' = c" using assms(4) by (auto simp: emuroot_bind_def status_defs split: if_splits)
  with assms(1) show ?thesis by simp
qed

lemma emuroot_unbind_wf [wf_intros]: "ctx_wf c \<Longrightarrow> ctx_wf (snd (emuroot_unbind c g))"
  by (auto simp: ctx_wf_def emuroot_unbind_def split: option.splits dest!: drop_first_subset)

lemma emuroot_set_root_wf [wf_intros]:
  "ctx_wf c \<Longrightarrow> emuroot_set_root (Some c) r = (rc, Some c') \<Longrightarrow> ctx_wf c'"
  by (auto simp: ctx_wf_def emuroot_set_root_def copy_path_def Let_def status_defs
      split: option.splits if_splits)

subsection \<open>Sequences of configuration calls\<close>

datatype ctx_op = OpRoot string | OpBind string string | OpUnbind string

fun ctx_step :: "ctx_op \<Rightarrow> emuroot_ctx \<Rightarrow> emuroot_ctx" where
  "ctx_step (OpRoot r) c = the (snd (emuroot_set_root (Some c) (Some r)))"
| "ctx_step (OpBind h g) c = the (snd (emuroot_bind (Some c) (Some h) (Some g)))"
| "ctx_step (OpUnbind g) c = snd (emuroot_unbind c g)"

definition ctx_op_cstr :: "ctx_op \<Rightarrow> bool" where
  "ctx_op_cstr x \<longleftrightarrow> (case x of OpRoot r \<Rightarrow> NUL \<notin> set r | OpBind h g \<Rightarrow> NUL \<notin> set h \<and> NUL \<notin> set g
     | OpUnbind g \<Rightarrow> NUL \<notin> set g)"

lemma set_root_Some: "\<exists>rc c'. emuroot_set_root (Some c) (Some r) = (rc, Some c')"
  by (simp add: emuroot_set_root_def copy_path_def Let_def)

lemma bind_Some: "\<exists>rc c'. emuroot_bind (Some c) (Some h) (Some g) = (rc, Some c')"
  by (simp add: emuroot_bind_def)

lemma ctx_step_wf:
  assumes "ctx_wf c" and "ctx_op_cstr x"
  shows "ctx_wf (ctx_step x c)"
proof (cases x)
  case (OpRoot r)
  then show ?thesis
    using set_root_Some [of c r] emuroot_set_root_wf [OF assms(1), of "Some r"] by auto
next
  case (OpBind h g)
  then show ?thesis
    using bind_Some [of c h g] emuroot_bind_wf [OF assms(1), of h g] assms(2)
    by (auto simp: ctx_op_cstr_def)
next
  case (OpUnbind g)
  then show ?thesis using emuroot_unbind_wf [OF assms(1)] by simp
qed

subsection \<open>Properties\<close>

text \<open>A bind is undone by the matching unbind. After a successful \<^verbatim>\<open>emuroot_bind\<close> of any host
  path on \<open>g\<close>, \<^verbatim>\<open>emuroot_unbind\<close> of \<open>g\<close> finds a binding and leaves exactly the context there was
  before, whatever other bindings of \<open>g\<close> were already stacked below it; the bind itself succeeds
  precisely when the table has room and both paths fit their buffers.\<close>

theorem bind_unbind_roundtrip:
  "(case emuroot_bind (Some c) (Some h) (Some g) of (rc, c') \<Rightarrow>
     (rc = EMUROOT_OK \<longleftrightarrow> length (bindings c) < MAX_BINDINGS \<and> length h < PATH_LEN \<and> length g < PATH_LEN) \<and>
     (rc = EMUROOT_OK \<longrightarrow> map_option (\<lambda>d. emuroot_unbind d g) c' = Some (True, c)) \<and>
     (rc \<noteq> EMUROOT_OK \<longrightarrow> c' = Some c))"
  by (auto simp: emuroot_bind_def emuroot_unbind_def copy_path_def status_defs)

theorem bind_unbind_roundtrip_witness:
  "emuroot_unbind (the (snd (emuroot_bind (Some zero_ctx) (Some ''/dev'') (Some ''/dev'')))) ''/dev''
     = (True, zero_ctx)"
  using bind_unbind_roundtrip [of zero_ctx "''/dev''" "''/dev''"]
  by (auto simp: zero_ctx_def MAX_BINDINGS_def PATH_LEN_def split: prod.splits option.splits)

text \<open>Configuring a context keeps it well formed. Starting from the zeroed context of
  \<^verbatim>\<open>emuroot_create\<close>, every sequence of \<^verbatim>\<open>emuroot_set_root\<close>, \<^verbatim>\<open>emuroot_bind\<close> and \<^verbatim>\<open>emuroot_unbind\<close>
  calls, successful or not, leaves at most 128 bindings, every recorded \<^verbatim>\<open>guest_len\<close> equal to the
  length of its path, and every stored path shorter than its buffer.\<close>

theorem configured_context_wf:
  assumes "\<forall>x \<in> set xs. ctx_op_cstr x"
  shows "ctx_wf (fold ctx_step xs zero_ctx)"
proof -
  have "ctx_wf (fold ctx_step xs c)" if "ctx_wf c" for c
    using that assms by (induction xs arbitrary: c) (simp_all add: ctx_step_wf)
  then show ?thesis by (simp add: zero_ctx_wf)
qed

theorem configured_context_wf_witness:
  "ctx_wf (fold ctx_step [OpRoot ''/srv/ubuntu/'', OpBind ''/proc'' ''/proc'', OpUnbind ''/proc''] zero_ctx)"
  using configured_context_wf [of "[OpRoot ''/srv/ubuntu/'', OpBind ''/proc'' ''/proc'', OpUnbind ''/proc'']"]
  by (simp add: ctx_op_cstr_def)

end
