(* ===== verification/Path.thy ===== *)
theory Path
  imports Ctx
begin

text \<open>
  \<^verbatim>\<open>path.c\<close>: guest path to host path and back. \<open>walk_step\<close> is the body of the resolution
  loop of \<^verbatim>\<open>emuroot_translate_path_ex\<close> and \<open>walk\<close> the loop, over the C variables \<^verbatim>\<open>cur\<close>, \<^verbatim>\<open>p\<close>
  (the rest of the string it points into), \<^verbatim>\<open>trailing_slash\<close> and \<^verbatim>\<open>hops\<close>; it ends because an
  iteration consumes a component or follows one of at most 40 symbolic links. The host's
  \<^verbatim>\<open>readlink\<close> is the parameter \<open>rl\<close>: the link's target, \<open>None\<close> where the C call fails.
\<close>

definition MAX_SYMLINK_HOPS :: nat where
  "MAX_SYMLINK_HOPS = 40"

definition has_prefix :: "string \<Rightarrow> string \<Rightarrow> nat \<Rightarrow> bool" where
  "has_prefix s pre len \<longleftrightarrow> take len s = take len pre \<and> (c_at s len = SLASH \<or> c_at s len = NUL)"

text \<open>Only ever called on a path that starts with a slash (\<open>walk_shape\<close>), so the NULL of
  \<^verbatim>\<open>strrchr\<close> does not occur.\<close>

definition pop_component :: "string \<Rightarrow> string" where
  "pop_component path =
     (case strrchr path SLASH of
        None \<Rightarrow> path
      | Some i \<Rightarrow> if i = 0 then take 1 path else take i path)"

text \<open>The selection loop that \<^verbatim>\<open>map_to_host\<close> runs twice (from the last binding down) and
  \<^verbatim>\<open>emuroot_host_to_guest\<close> once: the first of the longest matches.\<close>

fun pick :: "('b \<Rightarrow> bool) \<Rightarrow> ('b \<Rightarrow> nat) \<Rightarrow> 'b option \<Rightarrow> 'b list \<Rightarrow> 'b option" where
  "pick P len best [] = best"
| "pick P len best (b # bs) =
     pick P len (if P b \<and> (case best of None \<Rightarrow> True | Some m \<Rightarrow> len b > len m)
                 then Some b else best) bs"

definition host_part :: "binding_t \<Rightarrow> string" where
  "host_part b = (if b_host b = ''/'' then [] else b_host b)"

definition guest_match :: "string \<Rightarrow> binding_t \<Rightarrow> bool" where
  "guest_match guest b \<longleftrightarrow> b_guest b = ''/'' \<or> has_prefix guest (b_guest b) (b_guest_len b)"

definition mount_match :: "string \<Rightarrow> binding_t \<Rightarrow> bool" where
  "mount_match out b \<longleftrightarrow> b_mount_len b > 1 \<and> has_prefix out (b_mount b) (b_mount_len b)"

definition or_slash :: "string \<Rightarrow> string" where
  "or_slash out = (if out = [] then ''/'' else out)"

definition map_to_host :: "emuroot_ctx \<Rightarrow> string \<Rightarrow> nat \<Rightarrow> string \<Rightarrow> string" where
  "map_to_host ctx root outsz guest =
     (case pick (guest_match guest) b_guest_len None (rev (bindings ctx)) of
        Some best \<Rightarrow>
          let rest = drop (if b_guest best = ''/'' then 0 else b_guest_len best) guest
          in or_slash (snprintf outsz (host_part best @ rest))
      | None \<Rightarrow>
          let out = snprintf outsz (root @ guest)
          in (case pick (mount_match out) b_mount_len None (rev (bindings ctx)) of
                None \<Rightarrow> out
              | Some mounted \<Rightarrow>
                  let moved = snprintf (2 * PATH_LEN) (host_part mounted @ drop (b_mount_len mounted) out)
                  in or_slash (snprintf outsz (take (outsz - 1) moved))))"

type_synonym walk_state = "string \<times> string \<times> bool \<times> nat"  \<comment> \<open>\<^verbatim>\<open>cur\<close>, \<^verbatim>\<open>p\<close>, \<^verbatim>\<open>trailing_slash\<close>, \<^verbatim>\<open>hops\<close>\<close>

text \<open>One iteration of the loop: \<open>Inl\<close> leaves it (\<^verbatim>\<open>break\<close>), \<open>Inr\<close> goes on with the next state.\<close>

definition walk_step :: "(string \<Rightarrow> string) \<Rightarrow> (string \<Rightarrow> string option) \<Rightarrow> bool \<Rightarrow>
    walk_state \<Rightarrow> walk_state + walk_state" where
  "walk_step m rl follow_last st =
     (case st of (cur, p, trailing, hops) \<Rightarrow>
      let p = dropWhile (\<lambda>c. c = SLASH) p
      in if p = [] then Inl (cur, p, trailing, hops)
         else
           let full = takeWhile (\<lambda>c. c \<noteq> SLASH) p;
               next = dropWhile (\<lambda>c. c \<noteq> SLASH) p;
               comp = take 255 full;
               is_last = (next = [] \<or> list_all (\<lambda>c. c = SLASH) next \<and> \<not> trailing)
           in if comp = ''.'' then Inr (cur, next, trailing, hops)
              else if comp = ''..'' then Inr (pop_component cur, next, trailing, hops)
              else if length cur + 1 + length comp \<ge> PATH_LEN then Inl (cur, next, trailing, hops)
              else
                let cur = cur @ (if length cur > 1 then ''/'' else []) @ comp
                in if is_last \<and> \<not> follow_last then Inl (cur, next, trailing, hops)
                   else if take 6 (m cur) = ''/proc/'' then Inl (cur, next, trailing, hops)
                   else (case rl (m cur) of
                           None \<Rightarrow> Inr (cur, next, trailing, hops)
                         | Some link \<Rightarrow>
                             if Suc hops > MAX_SYMLINK_HOPS then Inl (cur, next, trailing, Suc hops)
                             else
                               let target = take (PATH_LEN - 1) link;
                                   tail = snprintf (2 * PATH_LEN) (target @ next)
                               in Inr (if c_at target 0 = SLASH then ''/'' else pop_component cur,
                                       tail, ends_slash tail, Suc hops)))"

lemma dropWhile_component_less:
  assumes "dropWhile (\<lambda>c. c = SLASH) p \<noteq> []"
  shows "length (dropWhile (\<lambda>c. c \<noteq> SLASH) (dropWhile (\<lambda>c. c = SLASH) p)) < length p"
proof -
  let ?q = "dropWhile (\<lambda>c. c = SLASH) p"
  have "hd ?q \<noteq> SLASH" using assms by (rule hd_dropWhile)
  then have "length (dropWhile (\<lambda>c. c \<noteq> SLASH) ?q) < length ?q"
    using assms by (intro length_dropWhile_less) auto
  also have "\<dots> \<le> length p" by (rule length_dropWhile_le)
  finally show ?thesis .
qed

definition walk_order :: "(walk_state \<times> walk_state) set" where
  "walk_order = measures [\<lambda>(cur, p, t, h). Suc MAX_SYMLINK_HOPS - h, \<lambda>(cur, p, t, h). length p]"

lemma wf_walk_order: "wf walk_order"
  by (simp add: walk_order_def)

lemma walk_step_decreases: "walk_step m rl f st = Inr st' \<Longrightarrow> (st', st) \<in> walk_order"
  by (cases st)
     (auto simp: walk_step_def walk_order_def Let_def intro: dropWhile_component_less
       split: if_splits option.splits simp del: dropWhile_eq_Nil_conv)

function walk :: "(string \<Rightarrow> string) \<Rightarrow> (string \<Rightarrow> string option) \<Rightarrow> bool \<Rightarrow> walk_state \<Rightarrow> walk_state" where
  "walk m rl follow_last st =
     (case walk_step m rl follow_last st of Inl r \<Rightarrow> r | Inr st' \<Rightarrow> walk m rl follow_last st')"
  by pat_completeness auto
termination
  by (relation "inv_image walk_order (\<lambda>(m, rl, f, st). st)")
     (simp_all add: wf_walk_order walk_step_decreases del: split_paired_All)

declare walk.simps [simp del]

text \<open>After the loop: whatever was not walked is appended verbatim.\<close>

definition finish :: "(string \<Rightarrow> string) \<Rightarrow> walk_state \<Rightarrow> string" where
  "finish m r =
     (case r of (cur, p, trailing, hops) \<Rightarrow>
        let host = m cur;
            host = (if p \<noteq> [] then
                      take (PATH_LEN - 1) (host @ (if ends_slash host then [] else ''/'') @
                        drop (strspn p ''/'') p)
                    else host)
        in if trailing \<and> \<not> ends_slash host \<and> length host + 1 < PATH_LEN then host @ ''/'' else host)"

text \<open>Returns whether the result differs from the input, the host path and the guest path with
  its symbolic links resolved.\<close>

definition emuroot_translate_path_ex ::
  "emuroot_ctx \<Rightarrow> (string \<Rightarrow> string option) \<Rightarrow> string \<Rightarrow> string \<Rightarrow> bool \<Rightarrow> nat \<Rightarrow> nat \<Rightarrow>
   bool \<times> string \<times> string" where
  "emuroot_translate_path_ex ctx rl root guest_path follow_last outsz guest_outsz =
     (if c_at guest_path 0 \<noteq> SLASH \<or> root = [] \<and> bindings ctx = [] then
        (False, snprintf outsz guest_path, snprintf guest_outsz guest_path)
      else
        let m = map_to_host ctx root PATH_LEN;
            rest = snprintf (2 * PATH_LEN) guest_path;
            r = walk m rl follow_last (''/'', rest, ends_slash guest_path, 0);
            host = finish m r
        in (host \<noteq> guest_path, snprintf outsz host, snprintf guest_outsz (fst r)))"

definition emuroot_translate_path ::
  "emuroot_ctx \<Rightarrow> (string \<Rightarrow> string option) \<Rightarrow> string \<Rightarrow> string \<Rightarrow> bool \<Rightarrow> nat \<Rightarrow> bool \<times> string" where
  "emuroot_translate_path ctx rl root guest_path follow_last outsz =
     (case emuroot_translate_path_ex ctx rl root guest_path follow_last outsz 0 of
        (rewritten, host, _) \<Rightarrow> (rewritten, host))"

definition host_match :: "string \<Rightarrow> binding_t \<Rightarrow> bool" where
  "host_match host b \<longleftrightarrow> length (b_host b) > 1 \<and> has_prefix host (b_host b) (length (b_host b))"

text \<open>\<open>None\<close> is the return value 0: the host path lies under neither the root nor a binding.\<close>

definition emuroot_host_to_guest :: "emuroot_ctx \<Rightarrow> string \<Rightarrow> string \<Rightarrow> nat \<Rightarrow> string option" where
  "emuroot_host_to_guest ctx root host outsz =
     (case pick (host_match host) (\<lambda>b. length (b_host b)) None (bindings ctx) of
        Some best \<Rightarrow>
          Some (or_slash (snprintf outsz ((if b_guest best = ''/'' then [] else b_guest best) @
            drop (length (b_host best)) host)))
      | None \<Rightarrow>
          if root \<noteq> [] \<and> has_prefix host root (length root)
          then Some (or_slash (snprintf outsz (drop (length root) host)))
          else None)"

subsection \<open>Paths as lists of components\<close>

function comps :: "string \<Rightarrow> string list" where
  "comps p =
     (let p = dropWhile (\<lambda>c. c = SLASH) p
      in if p = [] then []
         else takeWhile (\<lambda>c. c \<noteq> SLASH) p # comps (dropWhile (\<lambda>c. c \<noteq> SLASH) p))"
  by pat_completeness auto
termination
  by (relation "measure length") (auto intro: dropWhile_component_less simp del: dropWhile_eq_Nil_conv)

declare comps.simps [simp del]

definition path_of :: "string list \<Rightarrow> string" where
  "path_of cs = (if cs = [] then ''/'' else concat (map ((#) SLASH) cs))"

text \<open>A component of a normalised path: neither empty nor a dot entry, and without slashes.\<close>

definition normal_comp :: "string \<Rightarrow> bool" where
  "normal_comp c \<longleftrightarrow> c \<noteq> [] \<and> SLASH \<notin> set c \<and> c \<noteq> ''.'' \<and> c \<noteq> ''..''"

definition normal :: "string list \<Rightarrow> bool" where
  "normal cs \<longleftrightarrow> list_all normal_comp cs"

lemma normal_simps [simp]:
  "normal []" "normal (cs @ ds) \<longleftrightarrow> normal cs \<and> normal ds" "normal (c # cs) \<longleftrightarrow> normal_comp c \<and> normal cs"
  by (simp_all add: normal_def)

lemma normal_butlast: "normal cs \<Longrightarrow> normal (butlast cs)"
  by (auto simp: normal_def list_all_iff dest: in_set_butlastD)

lemma path_of_Nil [simp]: "path_of [] = ''/''"
  by (simp add: path_of_def)

lemma path_of_snoc: "cs \<noteq> [] \<Longrightarrow> path_of (cs @ [c]) = path_of cs @ SLASH # c"
  by (simp add: path_of_def)

lemma path_of_single [simp]: "path_of [c] = SLASH # c"
  by (simp add: path_of_def)

lemma path_of_slash: "\<exists>t. path_of cs = SLASH # t"
  by (cases cs) (simp_all add: path_of_def)

lemma path_of_nonempty [simp]: "path_of cs \<noteq> []"
  using path_of_slash [of cs] by auto

lemma path_of_longer: "normal cs \<Longrightarrow> cs \<noteq> [] \<Longrightarrow> 1 < length (path_of cs)"
  by (cases cs) (auto simp: path_of_def normal_comp_def)

lemma path_of_push [path_simps]:
  assumes "normal cs"
  shows "path_of cs @ (if length (path_of cs) > 1 then ''/'' else []) @ c = path_of (cs @ [c])"
  using path_of_longer [OF assms] by (cases "cs = []") (auto simp: path_of_snoc)

lemma strrchr_no: "SLASH \<notin> set c \<Longrightarrow> strrchr (SLASH # c) SLASH = Some 0"
  using strrchr_None [of c SLASH] by simp

lemma pop_component_path_of [path_simps]:
  assumes "normal cs" shows "pop_component (path_of cs) = path_of (butlast cs)"
proof (cases cs rule: rev_cases)
  case Nil
  then show ?thesis by (simp add: pop_component_def)
next
  case (snoc ds c)
  with assms have c: "SLASH \<notin> set c" and ds: "normal ds" by (simp_all add: normal_comp_def)
  show ?thesis
  proof (cases "ds = []")
    case True
    with snoc show ?thesis using strrchr_no [OF c] by (simp add: pop_component_def)
  next
    case False
    with snoc have "path_of cs = path_of ds @ SLASH # c" by (simp add: path_of_snoc)
    then have "pop_component (path_of cs) = path_of ds"
      using strrchr_no [OF c] path_of_longer [OF ds False]
      by (simp add: pop_component_def strrchr_append)
    with snoc show ?thesis by simp
  qed
qed

lemma comps_Nil [simp]: "comps [] = []"
  by (simp add: comps.simps)

lemma comps_Cons_slash [simp]: "comps (SLASH # p) = comps p"
  by (simp add: comps.simps [of "SLASH # p"] comps.simps [of p])

lemma comps_dropWhile: "comps (dropWhile (\<lambda>c. c = SLASH) p) = comps p"
  by (induction p) auto

lemma comps_nonslash:
  "p \<noteq> [] \<Longrightarrow> hd p \<noteq> SLASH \<Longrightarrow>
   comps p = takeWhile (\<lambda>c. c \<noteq> SLASH) p # comps (dropWhile (\<lambda>c. c \<noteq> SLASH) p)"
  by (subst comps.simps) (cases p; simp)

lemma comps_empty_iff: "comps p = [] \<longleftrightarrow> dropWhile (\<lambda>c. c = SLASH) p = []"
  by (simp add: comps.simps [of p] Let_def del: dropWhile_eq_Nil_conv)

lemma comps_append:
  assumes "q = [] \<or> hd q = SLASH"
  shows "comps (p @ q) = comps p @ comps q"
proof (induction p rule: comps.induct)
  case (1 p)
  show ?case
  proof (cases "dropWhile (\<lambda>c. c = SLASH) p = []")
    case True
    then have "dropWhile (\<lambda>c. c = SLASH) (p @ q) = dropWhile (\<lambda>c. c = SLASH) q"
      by (simp add: dropWhile_append)
    then have "comps (p @ q) = comps q"
      using comps_dropWhile [of "p @ q"] comps_dropWhile [of q] by simp
    moreover have "comps p = []" using True by (simp add: comps_empty_iff del: dropWhile_eq_Nil_conv)
    ultimately show ?thesis by simp
  next
    case False
    let ?r = "dropWhile (\<lambda>c. c = SLASH) p"
    have drop: "dropWhile (\<lambda>c. c = SLASH) (p @ q) = ?r @ q"
      using False by (auto simp: dropWhile_append)
    have hd: "hd ?r \<noteq> SLASH" using False by (rule hd_dropWhile)
    have tw: "takeWhile (\<lambda>c. c \<noteq> SLASH) (?r @ q) = takeWhile (\<lambda>c. c \<noteq> SLASH) ?r"
      "dropWhile (\<lambda>c. c \<noteq> SLASH) (?r @ q) = dropWhile (\<lambda>c. c \<noteq> SLASH) ?r @ q"
      by (rule takeWhile_stop dropWhile_stop, use assms in auto)+
    have IH: "comps (dropWhile (\<lambda>c. c \<noteq> SLASH) ?r @ q) = comps (dropWhile (\<lambda>c. c \<noteq> SLASH) ?r) @ comps q"
      using 1 [OF refl False] .
    have "comps (p @ q) = comps (?r @ q)"
      using comps_dropWhile [of "p @ q"] unfolding drop by (rule sym)
    also have "\<dots> = takeWhile (\<lambda>c. c \<noteq> SLASH) ?r # comps (dropWhile (\<lambda>c. c \<noteq> SLASH) ?r @ q)"
      using comps_nonslash [of "?r @ q"] False hd tw by simp
    also have "\<dots> = comps ?r @ comps q"
      using comps_nonslash [OF False hd] IH by simp
    finally show ?thesis by (simp add: comps_dropWhile)
  qed
qed

lemma comps_normal: "SLASH \<notin> set c \<Longrightarrow> c \<noteq> [] \<Longrightarrow> comps c = [c]"
proof -
  assume c: "SLASH \<notin> set c" "c \<noteq> []"
  then have t: "takeWhile (\<lambda>x. x \<noteq> SLASH) c = c" and d: "dropWhile (\<lambda>x. x \<noteq> SLASH) c = []"
    and h: "hd c \<noteq> SLASH"
    by (auto simp: takeWhile_eq_all_conv dest: hd_in_set)
  from comps_nonslash [OF c(2) h] show ?thesis by (simp only: t d comps_Nil)
qed

lemma comps_path_of: "normal cs \<Longrightarrow> comps (path_of cs) = cs"
proof (induction cs rule: rev_induct)
  case Nil
  then show ?case by simp
next
  case (snoc c cs)
  then have c: "comps c = [c]" by (intro comps_normal) (simp_all add: normal_comp_def)
  show ?case
    using snoc c comps_append [of "SLASH # c" "path_of cs"]
    by (cases "cs = []") (simp_all add: path_of_snoc)
qed

subsection \<open>What the resolution loop leaves\<close>

lemma walk_rule:
  assumes "I st"
    and "\<And>st st'. I st \<Longrightarrow> walk_step m rl f st = Inr st' \<Longrightarrow> I st'"
    and "\<And>st r. I st \<Longrightarrow> walk_step m rl f st = Inl r \<Longrightarrow> Q r"
  shows "Q (walk m rl f st)"
proof -
  show ?thesis using wf_walk_order assms(1)
  proof (induction st rule: wf_induct_rule)
    case (less st)
    show ?case
    proof (cases "walk_step m rl f st")
      case (Inl r)
      with assms(3) less.prems show ?thesis by (simp add: walk.simps [of m rl f st])
    next
      case (Inr st')
      then have "Q (walk m rl f st')"
        using less.prems assms(2) walk_step_decreases by (intro less.IH) blast+
      with Inr show ?thesis by (simp add: walk.simps [of m rl f st])
    qed
  qed
qed

text \<open>No component of the path, at any depth, is a symbolic link.\<close>

definition no_links :: "(string \<Rightarrow> string) \<Rightarrow> (string \<Rightarrow> string option) \<Rightarrow> string list \<Rightarrow> bool" where
  "no_links m rl cs \<longleftrightarrow> (\<forall>k. 0 < k \<and> k \<le> length cs \<longrightarrow> rl (m (path_of (take k cs))) = None)"

lemma no_links_Nil [simp]: "no_links m rl []"
  by (simp add: no_links_def)

lemma no_links_snoc [simp]:
  "no_links m rl (cs @ [c]) \<longleftrightarrow> no_links m rl cs \<and> rl (m (path_of (cs @ [c]))) = None"
  by (auto simp: no_links_def le_Suc_eq)

lemma no_links_butlast: "no_links m rl cs \<Longrightarrow> no_links m rl (butlast cs)"
  by (cases cs rule: rev_cases) auto

text \<open>The four ways out of the loop besides running out of path: a last component that is not
  to be followed, a path below the host's \<^verbatim>\<open>/proc\<close>, more than 40 links, and a path too long for
  its buffer.\<close>

definition walk_exit :: "(string \<Rightarrow> string) \<Rightarrow> (string \<Rightarrow> string option) \<Rightarrow> bool \<Rightarrow> walk_state \<Rightarrow> bool" where
  "walk_exit m rl f r \<longleftrightarrow>
     (case r of (cur, p, trailing, hops) \<Rightarrow> \<exists>cs. cur = path_of cs \<and> normal cs \<and>
        (no_links m rl cs \<and> (p = [] \<or> PATH_LEN \<le> length cur + 256) \<or>
         cs \<noteq> [] \<and> no_links m rl (butlast cs) \<and>
           (\<not> f \<and> list_all (\<lambda>c. c = SLASH) p \<or> take 6 (m cur) = ''/proc/'' \<or>
            hops > MAX_SYMLINK_HOPS \<and> rl (m cur) \<noteq> None)))"

definition walk_inv :: "(string \<Rightarrow> string) \<Rightarrow> (string \<Rightarrow> string option) \<Rightarrow> walk_state \<Rightarrow> bool" where
  "walk_inv m rl st \<longleftrightarrow>
     (case st of (cur, p, trailing, hops) \<Rightarrow> \<exists>cs. cur = path_of cs \<and> normal cs \<and> no_links m rl cs)"

text \<open>The component an iteration reads.\<close>

lemma comp_normal:
  assumes "dropWhile (\<lambda>c. c = SLASH) p \<noteq> []"
    and "c = take 255 (takeWhile (\<lambda>c. c \<noteq> SLASH) (dropWhile (\<lambda>c. c = SLASH) p))"
    and "c \<noteq> ''.''" and "c \<noteq> ''..''"
  shows "normal_comp c"
proof -
  let ?q = "dropWhile (\<lambda>c. c = SLASH) p"
  have "hd ?q \<noteq> SLASH" using assms(1) by (rule hd_dropWhile)
  then have "takeWhile (\<lambda>c. c \<noteq> SLASH) ?q \<noteq> []" using assms(1) by (cases ?q) auto
  moreover have "SLASH \<notin> set c"
    using assms(2) by (auto dest!: in_set_takeD set_takeWhileD)
  ultimately show ?thesis using assms(2-4) by (simp add: normal_comp_def)
qed

lemma comp_cases:
  obtains (fin) "dropWhile (\<lambda>c. c = SLASH) p = []" "comps p = []"
  | (comp) q full c n where "q = dropWhile (\<lambda>c. c = SLASH) p" "q \<noteq> []"
      "full = takeWhile (\<lambda>c. c \<noteq> SLASH) q" "n = dropWhile (\<lambda>c. c \<noteq> SLASH) q" "c = take 255 full"
      "comps p = full # comps n" "c = ''.'' \<or> c = ''..'' \<or> normal_comp c"
proof (cases "dropWhile (\<lambda>c. c = SLASH) p = []")
  case True
  then show ?thesis using fin comps_empty_iff by blast
next
  case False
  let ?q = "dropWhile (\<lambda>c. c = SLASH) p"
  have "comps p = takeWhile (\<lambda>c. c \<noteq> SLASH) ?q # comps (dropWhile (\<lambda>c. c \<noteq> SLASH) ?q)"
    using comps_nonslash [OF False hd_dropWhile [OF False]] comps_dropWhile [of p] by simp
  then show ?thesis
    using comp [OF refl False refl refl refl] comp_normal [OF False refl] by blast
qed

lemma walk_step_fin:
  "dropWhile (\<lambda>c. c = SLASH) p = [] \<Longrightarrow> walk_step m rl f (cur, p, t, h) = Inl (cur, [], t, h)"
  by (simp add: walk_step_def Let_def)

lemma walk_step_dots:
  assumes "q = dropWhile (\<lambda>c. c = SLASH) p" "q \<noteq> []"
    "c = take 255 (takeWhile (\<lambda>c. c \<noteq> SLASH) q)" "n = dropWhile (\<lambda>c. c \<noteq> SLASH) q"
  shows "c = ''.'' \<Longrightarrow> walk_step m rl f (cur, p, t, h) = Inr (cur, n, t, h)"
    and "c = ''..'' \<Longrightarrow> walk_step m rl f (cur, p, t, h) = Inr (pop_component cur, n, t, h)"
  using assms by (simp_all add: walk_step_def Let_def del: dropWhile_eq_Nil_conv)

lemma walk_step_push:
  assumes q: "q = dropWhile (\<lambda>c. c = SLASH) p" "q \<noteq> []"
    "c = take 255 (takeWhile (\<lambda>c. c \<noteq> SLASH) q)" "n = dropWhile (\<lambda>c. c \<noteq> SLASH) q"
    and cs: "normal cs" and c: "normal_comp c"
  shows "walk_step m rl f (path_of cs, p, t, h) =
    (if PATH_LEN \<le> length (path_of cs) + 1 + length c then Inl (path_of cs, n, t, h)
     else if (n = [] \<or> list_all (\<lambda>c. c = SLASH) n \<and> \<not> t) \<and> \<not> f then Inl (path_of (cs @ [c]), n, t, h)
     else if take 6 (m (path_of (cs @ [c]))) = ''/proc/'' then Inl (path_of (cs @ [c]), n, t, h)
     else (case rl (m (path_of (cs @ [c]))) of None \<Rightarrow> Inr (path_of (cs @ [c]), n, t, h)
           | Some link \<Rightarrow>
               if Suc h > MAX_SYMLINK_HOPS then Inl (path_of (cs @ [c]), n, t, Suc h)
               else let tail = snprintf (2 * PATH_LEN) (take (PATH_LEN - 1) link @ n)
                    in Inr (path_of (if c_at link 0 = SLASH then [] else cs), tail, ends_slash tail, Suc h)))"
proof -
  have n: "normal (cs @ [c])" using cs c by simp
  have pop: "pop_component (path_of (cs @ [c])) = path_of cs"
    using pop_component_path_of [OF n] by simp
  have dots: "c \<noteq> ''.''" "c \<noteq> ''..''" using c by (simp_all add: normal_comp_def)
  have at: "c_at (take (PATH_LEN - 1) link) 0 = c_at link 0" for link
    by (cases link) (simp_all add: PATH_LEN_def)
  show ?thesis
    unfolding walk_step_def prod.case Let_def q(1) [symmetric] q(3) [symmetric] q(4) [symmetric]
      path_of_push [OF cs] pop at
    using q(2) dots by (simp split: option.split)
qed

lemma walk_step_shape:
  assumes inv: "walk_inv m rl st"
  shows "case walk_step m rl f st of Inl r \<Rightarrow> walk_exit m rl f r | Inr st' \<Rightarrow> walk_inv m rl st'"
proof -
  obtain cs p t h where st: "st = (path_of cs, p, t, h)" and cs: "normal cs" "no_links m rl cs"
    using inv by (cases st) (auto simp: walk_inv_def)
  show ?thesis
  proof (cases p rule: comp_cases)
    case fin
    then show ?thesis using cs walk_step_fin [OF fin(1)] by (auto simp: st walk_exit_def)
  next
    case (comp q full c n)
    note q = comp(1,2) comp(5) [unfolded comp(3)] comp(4)
    have bl: "walk_inv m rl (pop_component (path_of cs), n, t, h)"
      using normal_butlast [OF cs(1)] no_links_butlast [OF cs(2)] pop_component_path_of [OF cs(1)]
      by (auto simp: walk_inv_def)
    from comp(7) consider "c = ''.''" | "c = ''..''" | "normal_comp c" by blast
    then show ?thesis
    proof cases
      case 1
      then show ?thesis using cs walk_step_dots(1) [OF q] by (auto simp: st walk_inv_def)
    next
      case 2
      then show ?thesis using bl walk_step_dots(2) [OF q] by (simp add: st)
    next
      case 3
      have long: "length c \<le> 255" using comp(5) by simp
      have n: "normal (cs @ [c])" using cs 3 by simp
      have new: "walk_exit m rl f (path_of (cs @ [c]), n, t', h')"
        if "\<not> f \<and> list_all (\<lambda>c. c = SLASH) n \<or> take 6 (m (path_of (cs @ [c]))) = ''/proc/'' \<or>
            h' > MAX_SYMLINK_HOPS \<and> rl (m (path_of (cs @ [c]))) \<noteq> None" for t' h'
        unfolding walk_exit_def prod.case
        by (rule exI [of _ "cs @ [c]"]) (use that n cs(2) in auto)
      have old: "PATH_LEN \<le> length (path_of cs) + 1 + length c \<Longrightarrow> walk_exit m rl f (path_of cs, n, t, h)"
        unfolding walk_exit_def prod.case by (rule exI [of _ cs]) (use long cs in auto)
      have cont: "walk_inv m rl (path_of (cs @ [c]), n, t, h)" if "rl (m (path_of (cs @ [c]))) = None"
        unfolding walk_inv_def prod.case by (rule exI [of _ "cs @ [c]"]) (use that n cs in auto)
      have link: "walk_inv m rl (path_of (if b then [] else cs), x)" for b x
        using cs by (cases x) (auto simp: walk_inv_def intro!: exI [of _ "if b then [] else cs"])
      show ?thesis
        unfolding st walk_step_push [OF q cs(1) 3] Let_def
        using new old cont link by (auto split: option.splits)
    qed
  qed
qed

lemma walk_shape:
  assumes "walk_inv m rl st" shows "walk_exit m rl f (walk m rl f st)"
proof (rule walk_rule [where I = "walk_inv m rl"])
  show "walk_inv m rl st'" if "walk_inv m rl st" "walk_step m rl f st = Inr st'" for st st'
    using walk_step_shape [OF that(1), of f] that(2) by simp
  show "walk_exit m rl f r" if "walk_inv m rl st" "walk_step m rl f st = Inl r" for st r
    using walk_step_shape [OF that(1), of f] that(2) by simp
qed (rule assms)

lemma walk_inv_start: "walk_inv m rl (''/'', p, t, h)"
  by (auto simp: walk_inv_def intro!: exI [of _ "[]"])

end
