(* ===== verification/Resolve.thy ===== *)
theory Resolve
  imports Path
begin

text \<open>
  What path translation guarantees: confinement of resolved paths, agreement of the string code
  with \<open>resolve\<close> (resolution on lists of components), the choice of a binding, the round trip
  through \<^verbatim>\<open>emuroot_host_to_guest\<close>, and what happens at the early exits of the loop.
\<close>

lemma translate_unfold:
  assumes "c_at guest 0 = SLASH" and "root \<noteq> [] \<or> bindings ctx \<noteq> []"
    and "m = map_to_host ctx root PATH_LEN"
    and "r = walk m rl f (''/'', snprintf (2 * PATH_LEN) guest, ends_slash guest, 0)"
  shows "emuroot_translate_path_ex ctx rl root guest f outsz gsz =
    (finish m r \<noteq> guest, snprintf outsz (finish m r), snprintf gsz (fst r))"
  using assms by (auto simp: emuroot_translate_path_ex_def Let_def)

lemma strspn_all_slash: "list_all (\<lambda>c. c = SLASH) p \<Longrightarrow> drop (strspn p ''/'') p = []"
  by (simp add: strspn_def list_all_iff takeWhile_eq_all_conv [THEN iffD2])

lemma length_or_slash [simp]: "1 < n \<Longrightarrow> length s < n \<Longrightarrow> length (or_slash s) < n"
  by (simp add: or_slash_def)

lemma PATH_LEN_gt [simp]: "0 < PATH_LEN" "Suc 0 < PATH_LEN"
  by (simp_all add: PATH_LEN_def)

lemma length_map_to_host: "length (map_to_host ctx root PATH_LEN g) < PATH_LEN"
  by (simp add: map_to_host_def Let_def length_snprintf PATH_LEN_gt split: option.split)

lemma length_finish: "(\<And>g. length (m g) < PATH_LEN) \<Longrightarrow> length (finish m r) < PATH_LEN"
  by (cases r) (auto simp: finish_def Let_def PATH_LEN_def)

lemma finish_walked:
  assumes "list_all (\<lambda>c. c = SLASH) p" and "length (m cur) < PATH_LEN"
  shows "finish m (cur, p, t, h) \<in> {m cur, m cur @ ''/''}"
proof -
  have "take (PATH_LEN - 1) (m cur @ (if ends_slash (m cur) then [] else ''/'')) \<in> {m cur, m cur @ ''/''}"
    using assms(2) by auto
  then show ?thesis
    using assms strspn_all_slash [OF assms(1)]
    by (auto simp: finish_def Let_def ends_slash_def split: if_splits)
qed

lemma walk_exit_length:
  assumes "walk_exit m rl f (cur, p, t, h)" shows "0 < length cur"
  using assms by (auto simp: walk_exit_def)

definition resolved :: "(string \<Rightarrow> string) \<Rightarrow> string \<Rightarrow> string \<Rightarrow> bool" where
  "resolved m g host \<longleftrightarrow> host \<in> {m g, m g @ ''/''}"

lemma translate_shape:
  assumes abs: "c_at guest 0 = SLASH" "root \<noteq> [] \<or> bindings ctx \<noteq> []"
    and m: "m = map_to_host ctx root PATH_LEN"
    and res: "emuroot_translate_path_ex ctx rl root guest follow PATH_LEN PATH_LEN = (rw, host, g)"
    and room: "length g + 256 < PATH_LEN"
  shows "length host < PATH_LEN \<and>
    (\<exists>cs. g = path_of cs \<and> normal cs \<and> no_links m rl (butlast cs) \<and>
      (resolved m g host \<and> (no_links m rl cs \<or> \<not> follow) \<or>
       take 6 (m g) = ''/proc/'' \<or> rl (m g) \<noteq> None))"
proof -
  define r where "r = walk m rl follow (''/'', snprintf (2 * PATH_LEN) guest, ends_slash guest, 0)"
  obtain cur p t h where r: "r = (cur, p, t, h)" by (cases r)
  have len: "length (m x) < PATH_LEN" for x using length_map_to_host m by simp
  have ex: "walk_exit m rl follow r" unfolding r_def by (rule walk_shape [OF walk_inv_start])
  have "host = finish m r" "g = snprintf PATH_LEN cur"
    using res translate_unfold [OF abs m r_def] length_finish [OF len] by (auto simp: r)
  moreover from this room have "g = cur" by (auto simp: snprintf_def PATH_LEN_def)
  ultimately have h: "host = finish m (g, p, t, h)" and ex: "walk_exit m rl follow (g, p, t, h)"
    using ex r by auto
  from ex obtain cs where cs: "g = path_of cs" "normal cs" and
    alt: "no_links m rl cs \<and> p = [] \<or> no_links m rl (butlast cs) \<and>
       (\<not> follow \<and> list_all (\<lambda>c. c = SLASH) p \<or> take 6 (m g) = ''/proc/'' \<or> rl (m g) \<noteq> None)"
    using room by (auto simp: walk_exit_def)
  have "resolved m g host" if "list_all (\<lambda>c. c = SLASH) p"
    using finish_walked [of p m g, OF that len] by (simp add: h resolved_def)
  with alt have "no_links m rl (butlast cs) \<and> (resolved m g host \<and> (no_links m rl cs \<or> \<not> follow) \<or>
       take 6 (m g) = ''/proc/'' \<or> rl (m g) \<noteq> None)"
    using no_links_butlast by auto
  with cs show ?thesis using length_finish [of m "(g, p, t, h)", OF len] h by blast
qed




definition demo_links :: "string \<Rightarrow> string option" where
  "demo_links h = (if h = ''/srv/bin'' then Some ''/usr/../opt'' else None)"


text \<open>The reference: resolution on lists of components. \<open>L\<close> gives a path's link target, \<open>n\<close> is how
  many more links may be followed, \<open>cs\<close> what is resolved, \<open>todo\<close> what is left and \<open>t\<close> whether a
  slash follows it; \<open>None\<close> is ELOOP.\<close>

function resolve :: "(string list \<Rightarrow> string option) \<Rightarrow> bool \<Rightarrow> nat \<Rightarrow> string list \<Rightarrow> string list \<Rightarrow> bool \<Rightarrow>
    (string list \<times> bool) option" where
  "resolve L f n cs [] t = Some (cs, t)"
| "resolve L f n cs (c # todo) t =
     (if c = ''.'' then resolve L f n cs todo t
      else if c = ''..'' then resolve L f n (butlast cs) todo t
      else if todo = [] \<and> \<not> t \<and> \<not> f then Some (cs @ [c], t)
      else (case L (cs @ [c]) of
              None \<Rightarrow> resolve L f n (cs @ [c]) todo t
            | Some link \<Rightarrow>
                if n = 0 then None
                else resolve L f (n - 1) (if c_at link 0 = SLASH then [] else cs) (comps link @ todo)
                       (if todo = [] \<and> \<not> t then ends_slash link else t)))"
  by pat_completeness auto
termination
  by (relation "measures [\<lambda>(L, f, n, cs, todo, t). n, \<lambda>(L, f, n, cs, todo, t). length todo]") auto

text \<open>Whether a slash has to be put before the rest of the path.\<close>

definition lead :: "string \<Rightarrow> nat" where
  "lead p = (if p = [] \<or> c_at p 0 = SLASH then 0 else 1)"

text \<open>What an iteration reads off the rest of the path.\<close>

lemma split_facts:
  assumes "q = dropWhile (\<lambda>c. c = SLASH) p" "q \<noteq> []" "full = takeWhile (\<lambda>c. c \<noteq> SLASH) q"
    "n = dropWhile (\<lambda>c. c \<noteq> SLASH) q"
  shows "ends_slash n = ends_slash p" "n = [] \<longleftrightarrow> comps n = [] \<and> \<not> ends_slash p"
    "length full + length n + 1 \<le> length p + lead p" "n = [] \<or> hd n = SLASH" "full \<noteq> []"
proof -
  define sl where "sl = takeWhile (\<lambda>c. c = SLASH) p"
  then have p: "p = sl @ q" using assms(1) by simp
  have q: "q = full @ n" using assms(3,4) by simp
  have hd: "hd q \<noteq> SLASH" using assms(2) unfolding assms(1) by (rule hd_dropWhile)
  then show full: "full \<noteq> []" using assms(2,3) by (cases q) auto
  have nf: "SLASH \<notin> set full" using assms(3) by (auto dest: set_takeWhileD)
  then have "last full \<noteq> SLASH" using full last_in_set by metis
  then show e: "ends_slash n = ends_slash p"
    using full by (cases "n = []") (simp_all add: p q, simp add: ends_slash_def)
  show "n = [] \<or> hd n = SLASH" using assms(4) hd_dropWhile [of "\<lambda>c. c \<noteq> SLASH" q] by auto
  show "length full + length n + 1 \<le> length p + lead p"
  proof (cases sl)
    case Nil
    with hd assms(2) show ?thesis using arg_cong [OF q, of length] by (cases q) (simp_all add: p lead_def)
  qed (simp add: p q)
  have "comps n = [] \<Longrightarrow> n \<noteq> [] \<Longrightarrow> ends_slash n"
    using last_in_set [of n] unfolding comps_empty_iff ends_slash_def dropWhile_eq_Nil_conv by blast
  then show "n = [] \<longleftrightarrow> comps n = [] \<and> \<not> ends_slash p" using e by auto
qed

lemma length_comps: "c \<in> set (comps p) \<Longrightarrow> length c \<le> length p"
proof (induction p rule: comps.induct)
  case (1 p)
  let ?q = "dropWhile (\<lambda>c. c = SLASH) p"
  show ?case
  proof (cases "?q = []")
    case True
    then show ?thesis using 1(2) comps_empty_iff [of p] by (simp del: dropWhile_eq_Nil_conv)
  next
    case False
    note le = length_dropWhile_le [of "\<lambda>c. c = SLASH" p] length_dropWhile_le [of "\<lambda>c. c \<noteq> SLASH" ?q]
      length_takeWhile_le [of "\<lambda>c. c \<noteq> SLASH" ?q]
    have "c = takeWhile (\<lambda>c. c \<noteq> SLASH) ?q \<or> c \<in> set (comps (dropWhile (\<lambda>c. c \<noteq> SLASH) ?q))"
      using 1(2) False by (subst (asm) comps.simps) (auto simp: Let_def simp del: dropWhile_eq_Nil_conv)
    then show ?thesis using 1(1) [OF refl False] le by auto
  qed
qed

definition sim :: "nat \<Rightarrow> nat \<Rightarrow> string list \<Rightarrow> string list \<Rightarrow> bool \<Rightarrow> string \<Rightarrow> nat \<Rightarrow> bool" where
  "sim B n cs todo t p h \<longleftrightarrow> normal cs \<and> comps p = todo \<and> t = ends_slash p \<and> h + n = MAX_SYMLINK_HOPS \<and>
     length (path_of cs) + length p + lead p + n * B < PATH_LEN \<and> list_all (\<lambda>c. length c \<le> 255) todo \<and> B \<le> 255"

lemma length_path_of_snoc: "length (path_of (cs @ [c])) \<le> length (path_of cs) + 1 + length c"
  by (cases "cs = []") (simp_all add: path_of_snoc)

lemma length_path_of_butlast: "length (path_of (butlast cs)) \<le> length (path_of cs)"
proof (cases cs rule: rev_cases)
  case (snoc ds d)
  then show ?thesis by (cases "ds = []") (simp_all add: path_of_snoc)
qed simp

lemma lead_next: "n = [] \<or> hd n = SLASH \<Longrightarrow> lead n = 0"
  by (cases n) (auto simp: lead_def)

lemma lead_le: "lead p \<le> 1"
  by (simp add: lead_def)

lemma sim_next:
  assumes "sim B k cs (c # todo) t p h" and "comps p = full # comps n" 
    and "q = dropWhile (\<lambda>c. c = SLASH) p" "q \<noteq> []" "full = takeWhile (\<lambda>c. c \<noteq> SLASH) q"
    "n = dropWhile (\<lambda>c. c \<noteq> SLASH) q"
  shows "c = full" "todo = comps n" "length full \<le> 255" "sim B k cs todo t n h"
    "sim B k (butlast cs) todo t n h" "normal_comp c \<Longrightarrow> sim B k (cs @ [c]) todo t n h"
    "length (path_of cs) + 1 + length c < PATH_LEN"
    "0 < k \<Longrightarrow> l \<noteq> [] \<Longrightarrow> length l \<le> B \<Longrightarrow>
       sim B (k - 1) (if c_at l 0 = SLASH then [] else cs) (comps l @ todo) 
         (if todo = [] \<and> \<not> t then ends_slash l else t) (l @ n) (Suc h)"
proof -
  note f = split_facts [OF assms(3-6)]
  have ln: "lead n = 0" using f(4) by (rule lead_next)
  show c: "c = full" and todo: "todo = comps n" and "length full \<le> 255"
    using assms(1,2) by (auto simp: sim_def)
  show "sim B k cs todo t n h" "sim B k (butlast cs) todo t n h"
    "normal_comp c \<Longrightarrow> sim B k (cs @ [c]) todo t n h" "length (path_of cs) + 1 + length c < PATH_LEN"
    using assms(1) f(1,3) c todo ln length_path_of_snoc [of cs c] length_path_of_butlast [of cs]
    by (auto simp: sim_def normal_butlast)
  show "sim B (k - 1) (if c_at l 0 = SLASH then [] else cs) (comps l @ todo) 
         (if todo = [] \<and> \<not> t then ends_slash l else t) (l @ n) (Suc h)"
    if l: "0 < k" "l \<noteq> []" "length l \<le> B"
  proof -
    obtain j where k: "k = Suc j" using l(1) by (cases k) auto
    have "length x \<le> 255" if "x \<in> set (comps l)" for x
      using length_comps [OF that] l(3) assms(1) by (simp add: sim_def)
    moreover have "length (path_of (if c_at l 0 = SLASH then [] else cs)) \<le> length (path_of cs)"
      using path_of_slash [of cs] by auto
    moreover have "1 \<le> length full" using f(5) by (cases full) auto
    moreover note lead_le [of "l @ n"]
    ultimately show ?thesis
      using assms(1) f l todo c k comps_append [OF f(4), of l]
      by (auto simp: sim_def list_all_iff)
  qed
qed

definition agrees :: "(string \<Rightarrow> string) \<Rightarrow> (string \<Rightarrow> string option) \<Rightarrow> walk_state \<Rightarrow>
    (string list \<times> bool) option \<Rightarrow> bool" where
  "agrees m rl r x \<longleftrightarrow>
     (case x of Some (cs, t) \<Rightarrow> length (path_of cs) < PATH_LEN \<and> (\<exists>h. r = (path_of cs, [], t, h))
      | None \<Rightarrow> \<exists>cs p. r = (path_of cs, p) \<and> length (path_of cs) < PATH_LEN \<and> rl (m (path_of cs)) \<noteq> None)"

lemma walk_resolve:
  assumes links: "\<And>h l. rl h = Some l \<Longrightarrow> l \<noteq> [] \<and> length l \<le> B"
    and noproc: "\<And>cs. take 6 (m (path_of cs)) \<noteq> ''/proc/''"
    and "sim B n cs todo t p h"
  shows "agrees m rl (walk m rl f (path_of cs, p, t, h)) (resolve (\<lambda>cs. rl (m (path_of cs))) f n cs todo t)"
  using assms(3)
proof (induction "\<lambda>cs. rl (m (path_of cs))" f n cs todo t arbitrary: p h rule: resolve.induct)
  case (1 f n cs t)
  then have "dropWhile (\<lambda>c. c = SLASH) p = []" using comps_empty_iff [of p] by (simp add: sim_def)
  then have "walk m rl f (path_of cs, p, t, h) = (path_of cs, [], t, h)"
    by (subst walk.simps) (simp add: walk_step_fin del: dropWhile_eq_Nil_conv)
  then show ?case using 1 by (simp add: agrees_def sim_def)
next
  case (2 f k cs c todo t)
  show ?case
  proof (cases p rule: comp_cases)
    case fin
    then show ?thesis using 2(5) by (simp add: sim_def)
  next
    case (comp q full d n)
    note s = sim_next [OF 2(5) comp(6,1-4)]
    have d: "d = c" using s(1,3) comp(5) by simp
    note q = comp(1,2) comp(5) [unfolded comp(3) d] comp(4)
    note w = walk.simps [of m rl f "(path_of cs, p, t, h)"]
    have cs: "normal cs" and t: "t = ends_slash p" and hk: "h + k = MAX_SYMLINK_HOPS" 
      using 2(5) by (simp_all add: sim_def)
    have last: "(n = [] \<or> list_all (\<lambda>c. c = SLASH) n \<and> \<not> t) \<longleftrightarrow> todo = [] \<and> \<not> t"
      using split_facts(2) [OF comp(1-4)] s(2) t by (auto simp: comps_empty_iff list_all_iff)
    from comp(7) d consider (dot) "c = ''.''" | (dots) "c = ''..''" | (norm) "normal_comp c" by blast
    then show ?thesis
    proof cases
      case dot
      then show ?thesis using 2(1) [OF dot s(4)] walk_step_dots(1) [OF q dot] w by simp
    next
      case dots
      then show ?thesis 
        using 2(2) [OF _ dots s(5)] walk_step_dots(2) [OF q dots] pop_component_path_of [OF cs] w by simp
    next
      case norm
      then have nd: "c \<noteq> ''.''" "c \<noteq> ''..''" by (simp_all add: normal_comp_def)
      have len: "length (path_of (cs @ [c])) < PATH_LEN"
        using s(7) length_path_of_snoc [of cs c] by simp
      note st = walk_step_push [OF q cs norm, of m rl f t h, unfolded last]
      show ?thesis
      proof (cases "todo = [] \<and> \<not> t \<and> \<not> f")
        case True
        then have "n = []" using last split_facts(2) [OF comp(1-4)] s(2) t by simp
        then have "walk m rl f (path_of cs, p, t, h) = (path_of (cs @ [c]), [], t, h)"
          unfolding w st using True s(7) by simp
        then show ?thesis using True nd len by (simp add: agrees_def)
      next
        case False
        show ?thesis
        proof (cases "rl (m (path_of (cs @ [c])))")
          case None
          have "agrees m rl (walk m rl f (path_of (cs @ [c]), n, t, h))
             (resolve (\<lambda>cs. rl (m (path_of cs))) f k (cs @ [c]) todo t)"
            using 2(3) [OF nd False None s(6) [OF norm]] .
          moreover have "walk_step m rl f (path_of cs, p, t, h) = Inr (path_of (cs @ [c]), n, t, h)"
            using st s(7) False noproc None by (simp; blast)
          ultimately show ?thesis using False nd None by (auto simp: w)
        next
          case (Some link)
          note l = links [OF Some]
          show ?thesis
          proof (cases "k = 0")
            case True
            have "walk_step m rl f (path_of cs, p, t, h) = Inl (path_of (cs @ [c]), n, t, Suc h)"
              using st s(7) False noproc Some True hk by (simp; blast)
            then show ?thesis using True False nd Some len by (auto simp: w agrees_def)
          next
            case k: False
            let ?cs = "if c_at link 0 = SLASH then [] else cs"
            let ?t = "if todo = [] \<and> \<not> t then ends_slash link else t"
            have s': "sim B (k - 1) ?cs (comps link @ todo) ?t (link @ n) (Suc h)"
              using s(8) k l by simp
            have tr: "take (PATH_LEN - 1) link = link" "snprintf (2 * PATH_LEN) (link @ n) = link @ n"
              "ends_slash (link @ n) = ?t"
              using s' by (auto simp: sim_def)
            have "walk_step m rl f (path_of cs, p, t, h) = Inr (path_of ?cs, link @ n, ?t, Suc h)"
              unfolding st using s(7) False noproc Some k hk tr by (simp add: Let_def; blast)
            then show ?thesis using 2(4) [OF nd False Some k s'] False nd Some k by (auto simp: w)
          qed
        qed
      qed
    qed
  qed
qed

text \<open>C7: the string code implements component-wise resolution. On a context whose host paths
  avoid \<^verbatim>\<open>/proc\<close> and a file system whose link targets are at most \<open>B\<close> bytes long, with
  \<open>length guest + 40 * B\<close> below the buffer size and components of at most 255 bytes,
  \<^verbatim>\<open>emuroot_translate_path_ex\<close> computes exactly \<open>resolve\<close>: links expanded in the guest's own name
  space, \<^verbatim>\<open>..\<close> removing the last resolved component and stopping at the root, a trailing slash kept.
  Where \<open>resolve\<close> gives up (more than 40 links), the guest path returned still names a link.\<close>

theorem translate_path_refines_resolve:
  assumes abs: "c_at guest 0 = SLASH" "root \<noteq> [] \<or> bindings ctx \<noteq> []"
    and m: "m = map_to_host ctx root PATH_LEN"
    and links: "\<forall>h l. rl h = Some l \<longrightarrow> l \<noteq> [] \<and> length l \<le> B"
    and noproc: "\<forall>cs. take 6 (m (path_of cs)) \<noteq> ''/proc/''"
    and room: "length guest + 40 * B + 1 < PATH_LEN"
    and short: "list_all (\<lambda>c. length c \<le> 255) (comps guest)"
  shows "case (emuroot_translate_path_ex ctx rl root guest follow PATH_LEN PATH_LEN,
      resolve (\<lambda>cs. rl (m (path_of cs))) follow 40 [] (comps guest) (ends_slash guest)) of
    ((rw, host, g), Some (cs, t)) \<Rightarrow>
      g = path_of cs \<and> rw = (host \<noteq> guest) \<and>
      host = (if t \<and> \<not> ends_slash (m (path_of cs)) \<and> length (m (path_of cs)) + 1 < PATH_LEN
              then m (path_of cs) @ ''/'' else m (path_of cs))
  | ((rw, host, g), None) \<Rightarrow> \<exists>cs. g = path_of cs \<and> rl (m (path_of cs)) \<noteq> None"
proof -
  have "sim B 40 [] (comps guest) (ends_slash guest) guest 0"
    using abs(1) room short by (auto simp: sim_def lead_def MAX_SYMLINK_HOPS_def PATH_LEN_def)
  from walk_resolve [of rl B m, OF links [rule_format] noproc [rule_format] this]
  have ag: "agrees m rl (walk m rl follow (''/'', guest, ends_slash guest, 0))
     (resolve (\<lambda>cs. rl (m (path_of cs))) follow 40 [] (comps guest) (ends_slash guest))"
    by simp
  have len: "length (m x) < PATH_LEN" for x using length_map_to_host m by simp
  have "snprintf (2 * PATH_LEN) guest = guest" using room by simp
  note tr = translate_unfold [OF abs m refl, unfolded this]
  have fl: "snprintf PATH_LEN (finish m r) = finish m r" for r
    using length_finish [of m r, OF len] by simp
  show ?thesis
  proof (cases "resolve (\<lambda>cs. rl (m (path_of cs))) follow 40 [] (comps guest) (ends_slash guest)")
    case None
    then show ?thesis using ag unfolding tr fl by (fastforce simp: agrees_def)
  next
    case (Some x)
    obtain cs t where x: "x = (cs, t)" by (cases x)
    from ag obtain h where w: "walk m rl follow (''/'', guest, ends_slash guest, 0) = (path_of cs, [], t, h)"
      and "length (path_of cs) < PATH_LEN"
      unfolding Some x agrees_def by auto
    then show ?thesis unfolding tr fl Some x w by (simp add: finish_def Let_def)
  qed
qed

lemma map_zero_ctx: "map_to_host zero_ctx root PATH_LEN g = snprintf PATH_LEN (root @ g)"
  by (simp add: map_to_host_def zero_ctx_def)

lemma take_snprintf: "k < n \<Longrightarrow> take k (snprintf n s) = take k s"
  by (cases n) (auto simp: snprintf_def min_def)

theorem translate_path_refines_resolve_witness:
  "emuroot_translate_path_ex zero_ctx demo_links ''/srv'' ''/bin/./sh/'' True PATH_LEN PATH_LEN =
     (True, ''/srv/opt/sh/'', ''/opt/sh'') \<and>
   resolve (\<lambda>cs. demo_links (map_to_host zero_ctx ''/srv'' PATH_LEN (path_of cs))) True 40 []
     [''bin'', ''.'', ''sh''] True = Some ([''opt'', ''sh''], True)"
proof -
  have np: "\<forall>cs. take 6 (map_to_host zero_ctx ''/srv'' PATH_LEN (path_of cs)) \<noteq> ''/proc/''"
    unfolding map_zero_ctx by (subst take_snprintf) (simp_all add: PATH_LEN_def)
  have l: "\<forall>h l. demo_links h = Some l \<longrightarrow> l \<noteq> [] \<and> length l \<le> 20"
    by (auto simp: demo_links_def split: if_splits)
  have c: "comps ''/bin/./sh/'' = [''bin'', ''.'', ''sh'']" "ends_slash ''/bin/./sh/''" by code_simp+
  have r: "resolve (\<lambda>cs. demo_links (map_to_host zero_ctx ''/srv'' PATH_LEN (path_of cs))) True 40 []
     [''bin'', ''.'', ''sh''] True = Some ([''opt'', ''sh''], True)" by code_simp
  have m: "map_to_host zero_ctx ''/srv'' PATH_LEN ''/opt/sh'' = ''/srv/opt/sh''"
    "path_of [''opt'', ''sh''] = ''/opt/sh''" by code_simp+
  have hyps: "c_at ''/bin/./sh/'' 0 = SLASH" "''/srv'' \<noteq> [] \<or> bindings zero_ctx \<noteq> []"
    "length ''/bin/./sh/'' + 40 * 20 + 1 < PATH_LEN" "list_all (\<lambda>c. length c \<le> 255) (comps ''/bin/./sh/'')"
    unfolding c by (simp_all add: PATH_LEN_def)
  obtain rw host g where e: "emuroot_translate_path_ex zero_ctx demo_links ''/srv'' ''/bin/./sh/'' True
      PATH_LEN PATH_LEN = (rw, host, g)"
    by (rule prod_cases3)
  show ?thesis
    using translate_path_refines_resolve [where follow = True, OF hyps(1,2) refl l np hyps(3,4)]
    unfolding c(1) e by (simp only: c(2) r prod.case option.case m) (simp add: ends_slash_def PATH_LEN_def r)
qed

subsection \<open>Choosing a binding\<close>

lemma pick_keeps: "\<forall>b \<in> set bs. P b \<longrightarrow> len b \<le> len m \<Longrightarrow> pick P len (Some m) bs = Some m"
  by (induction bs) auto

lemma pick_none: "\<forall>b \<in> set bs. \<not> P b \<Longrightarrow> pick P len best bs = best"
  by (induction bs) auto

lemma pick_first:
  assumes "P b" and "\<forall>x \<in> set xs. P x \<longrightarrow> len x < len b" and "\<forall>y \<in> set ys. P y \<longrightarrow> len y \<le> len b"
    and "\<forall>m. best = Some m \<longrightarrow> len m < len b"
  shows "pick P len best (xs @ b # ys) = Some b"
  using assms
proof (induction xs arbitrary: best)
  case Nil
  then show ?case by (auto split: option.splits intro: pick_keeps)
qed auto

lemma pick_in: "pick P len best bs = Some b \<Longrightarrow> best = Some b \<or> b \<in> set bs \<and> P b"
  by (induction bs arbitrary: best) (fastforce split: if_splits)+

lemma pick_None_iff: "pick P len best bs = None \<longleftrightarrow> best = None \<and> (\<forall>b \<in> set bs. \<not> P b)"
  by (induction bs arbitrary: best) (auto split: option.splits)

text \<open>Of the bindings whose guest prefix matches, the longest wins, and the latest added on ties.
  A binding \<open>b\<close> that matches the path, beats every earlier match by at least a tie and every later
  one strictly decides the host path: its host directory followed by the rest of the guest path.\<close>

theorem longest_binding_wins:
  assumes "bindings ctx = older @ b # newer" and "guest_match guest b"
    and "\<forall>x \<in> set older. guest_match guest x \<longrightarrow> b_guest_len x \<le> b_guest_len b"
    and "\<forall>y \<in> set newer. guest_match guest y \<longrightarrow> b_guest_len y < b_guest_len b"
  shows "map_to_host ctx root outsz guest =
    or_slash (snprintf outsz (host_part b @ (if b_guest b = ''/'' then guest else drop (b_guest_len b) guest)))"
proof -
  have "pick (guest_match guest) b_guest_len None (rev (bindings ctx)) = Some b"
    using assms by (simp add: pick_first)
  then show ?thesis by (simp add: map_to_host_def)
qed

definition mk_binding :: "string \<Rightarrow> string \<Rightarrow> binding_t" where
  "mk_binding h g = \<lparr>b_host = h, b_guest = g, b_guest_len = length g, b_mount = [], b_mount_len = 0\<rparr>"

theorem longest_binding_wins_witness:
  "map_to_host (zero_ctx\<lparr>bindings := [mk_binding ''/a'' ''/'', mk_binding ''/b'' ''/usr/lib'', mk_binding ''/c'' ''/usr'']\<rparr>)
     ''/srv'' PATH_LEN ''/usr/lib/x'' = ''/b/x''"
  using longest_binding_wins [of "zero_ctx\<lparr>bindings := [mk_binding ''/a'' ''/'', mk_binding ''/b'' ''/usr/lib'', mk_binding ''/c'' ''/usr'']\<rparr>"
      "[mk_binding ''/a'' ''/'']" "mk_binding ''/b'' ''/usr/lib''" "[mk_binding ''/c'' ''/usr'']" "''/usr/lib/x''" "''/srv''" PATH_LEN]
  by (simp add: mk_binding_def guest_match_def has_prefix_def c_at_def host_part_def or_slash_def PATH_LEN_def)

subsection \<open>Host paths reported back to the guest\<close>

text \<open>\<open>below s pre\<close>: the path \<open>s\<close> is \<open>pre\<close> or lies below it.\<close>

definition below :: "string \<Rightarrow> string \<Rightarrow> bool" where
  "below s pre \<longleftrightarrow> (\<exists>r. s = pre @ r \<and> (r = [] \<or> hd r = SLASH))"

lemma has_prefix_below:
  assumes "NUL \<notin> set s" and "length pre = n"
  shows "has_prefix s pre n \<longleftrightarrow> below s pre"
proof
  assume p: "has_prefix s pre n"
  then have "take n s = pre" using assms(2) by (simp add: has_prefix_def)
  then have s: "s = pre @ drop n s" by (metis append_take_drop_id)
  have "c_at (drop n s) 0 = c_at s n" by (simp add: c_at_def)
  moreover have "c_at (drop n s) 0 \<noteq> NUL \<or> drop n s = []"
    using assms(1) by (auto simp: c_at_def dest: nth_mem)
  ultimately have "drop n s = [] \<or> hd (drop n s) = SLASH"
    using p by (cases "drop n s") (auto simp: has_prefix_def)
  with s show "below s pre" unfolding below_def by blast
next
  assume "below s pre"
  then obtain r where "s = pre @ r" "r = [] \<or> hd r = SLASH" by (auto simp: below_def)
  with assms show "has_prefix s pre n"
    by (cases r) (auto simp: has_prefix_def c_at_def nth_append)
qed

lemma below_linear:
  assumes "below s a" and "below s b" shows "below a b \<or> below b a"
proof -
  from assms(1) obtain r where r: "s = a @ r" "r = [] \<or> hd r = SLASH" by (auto simp: below_def)
  from assms(2) obtain t where t: "s = b @ t" "t = [] \<or> hd t = SLASH" by (auto simp: below_def)
  from r(1) t(1) have "a @ r = b @ t" by simp
  then obtain us where "a = b @ us \<and> us @ r = t \<or> a @ us = b \<and> r = us @ t"
    by (auto simp: append_eq_append_conv2)
  then show ?thesis
  proof
    assume "a = b @ us \<and> us @ r = t"
    with t(2) have "below a b" unfolding below_def by (cases us) auto
    then show ?thesis ..
  next
    assume "a @ us = b \<and> r = us @ t"
    with r(2) have "below b a" unfolding below_def by (cases us) auto
    then show ?thesis ..
  qed
qed

lemma path_of_no_nul: "normal cs \<Longrightarrow> list_all (\<lambda>c. NUL \<notin> set c) cs \<Longrightarrow> NUL \<notin> set (path_of cs)"
  by (auto simp: path_of_def list_all_iff)

text \<open>The host directories of the bindings and the root name separate trees, and every recorded
  mount point is where the guest path lies under the root.\<close>

definition separate :: "emuroot_ctx \<Rightarrow> string \<Rightarrow> bool" where
  "separate ctx root \<longleftrightarrow>
     (\<forall>b \<in> set (bindings ctx). binding_wf b \<and> 1 < length (b_host b) \<and>
        \<not> below (b_host b) root \<and> \<not> below root (b_host b) \<and>
        (b_mount_len b = 0 \<or> b_mount b = root @ (if b_guest b = ''/'' then [] else b_guest b)) \<and>
        (\<forall>c \<in> set (bindings ctx). b_host c \<noteq> b_host b \<longrightarrow> \<not> below (b_host c) (b_host b)) \<and>
        (\<forall>c \<in> set (bindings ctx). b_host c = b_host b \<longrightarrow> c = b))"

lemma below_append [simp]: "r = [] \<or> hd r = SLASH \<Longrightarrow> below (pre @ r) pre"
  by (auto simp: below_def)

lemma pick_unique:
  assumes "b \<in> set bs" and "P b" and "\<forall>x \<in> set bs. P x \<longrightarrow> x = b"
  shows "pick P len None bs = Some b"
proof (cases "pick P len None bs")
  case None
  then show ?thesis using assms unfolding pick_None_iff by blast
next
  case (Some c)
  then show ?thesis using pick_in [OF Some] assms by fastforce
qed

lemma host_match_separate:
  assumes sep: "separate ctx root" and b: "b \<in> set (bindings ctx)" and s: "NUL \<notin> set s" "below s (b_host b)"
  shows "pick (host_match s) (\<lambda>b. length (b_host b)) None (bindings ctx) = Some b"
proof (rule pick_unique [OF b])
  show "host_match s b" using assms has_prefix_below [OF s(1) refl] by (auto simp: host_match_def separate_def)
  show "\<forall>x \<in> set (bindings ctx). host_match s x \<longrightarrow> x = b"
  proof (intro ballI impI)
    fix x assume x: "x \<in> set (bindings ctx)" "host_match s x"
    then have "below s (b_host x)" using has_prefix_below [OF s(1) refl] by (simp add: host_match_def)
    from below_linear [OF this s(2)] x(1) b sep show "x = b" unfolding separate_def by metis
  qed
qed

lemma host_match_root:
  assumes sep: "separate ctx root" and s: "NUL \<notin> set s" "below s root"
  shows "pick (host_match s) (\<lambda>b. length (b_host b)) None (bindings ctx) = None"
proof -
  have "\<not> host_match s x" if x: "x \<in> set (bindings ctx)" for x
  proof
    assume "host_match s x"
    then have "below s (b_host x)" using has_prefix_below [OF s(1) refl] by (simp add: host_match_def)
    from below_linear [OF this s(2)] sep x show False by (auto simp: separate_def)
  qed
  then show ?thesis by (simp add: pick_None_iff)
qed

lemma below_cancel: "below (r @ s) (r @ t) \<longleftrightarrow> below s t"
  by (simp add: below_def)

lemma guest_match_below:
  assumes "NUL \<notin> set g" and "binding_wf b"
  shows "guest_match g b \<longleftrightarrow> b_guest b = ''/'' \<or> below g (b_guest b)"
  using assms has_prefix_below [of g "b_guest b"] by (simp add: guest_match_def binding_wf_def)

lemma map_to_host_root:
  assumes sep: "separate ctx root" and nul: "NUL \<notin> set root" "NUL \<notin> set g"
    and none: "pick (guest_match g) b_guest_len None (rev (bindings ctx)) = None"
    and fits: "length root + length g < PATH_LEN"
  shows "map_to_host ctx root PATH_LEN g = root @ g"
proof -
  have "\<not> mount_match (root @ g) b" if b: "b \<in> set (bindings ctx)" for b
  proof
    assume m: "mount_match (root @ g) b"
    have "b_guest b \<noteq> ''/''" using none b by (auto simp: pick_None_iff guest_match_def)
    then have wf: "binding_wf b" "b_mount_len b = 0 \<or> b_mount b = root @ b_guest b"
      using sep b by (auto simp: separate_def)
    with m have "b_mount b = root @ b_guest b" by (auto simp: mount_match_def)
    with m wf have "below (root @ g) (root @ b_guest b)"
      using has_prefix_below [of "root @ g" "b_mount b"] nul by (auto simp: mount_match_def binding_wf_def)
    then have "guest_match g b" using guest_match_below [OF nul(2) wf(1)] by (simp add: below_cancel)
    then show False using none b by (simp add: pick_None_iff)
  qed
  then have "pick (mount_match (root @ g)) b_mount_len None (rev (bindings ctx)) = None"
    by (simp add: pick_None_iff)
  then show ?thesis using none fits by (simp add: map_to_host_def Let_def)
qed

text \<open>C24: \<^verbatim>\<open>emuroot_host_to_guest\<close> inverts the mapping. On a context whose bindings and root name separate
  host trees, every normalised guest path that fits its buffers comes back unchanged from its host
  path, whether a binding or the root maps it.\<close>

theorem host_to_guest_roundtrip:
  assumes sep: "separate ctx root" and root: "root \<noteq> []" "NUL \<notin> set root"
    and guest: "c_at guest 0 = SLASH" "NUL \<notin> set guest"
    and fits: "length root + length guest < PATH_LEN"
      "\<forall>b \<in> set (bindings ctx). length (b_host b) + length guest < PATH_LEN"
  shows "emuroot_host_to_guest ctx root (map_to_host ctx root PATH_LEN guest) PATH_LEN = Some guest"
proof (cases "pick (guest_match guest) b_guest_len None (rev (bindings ctx))")
  case None
  note m = map_to_host_root [OF sep root(2) guest(2) None fits(1)]
  have b: "below (root @ guest) root" using guest(1) by (cases guest) auto
  have "pick (host_match (root @ guest)) (\<lambda>b. length (b_host b)) None (bindings ctx) = None"
    using host_match_root [OF sep _ b] root guest by simp
  moreover have "has_prefix (root @ guest) root (length root)"
    using has_prefix_below [of "root @ guest" root] b root guest by simp
  ultimately show ?thesis using root guest fits by (auto simp: m emuroot_host_to_guest_def or_slash_def)
next
  case (Some b)
  then have b: "b \<in> set (bindings ctx)" "guest_match guest b" using pick_in [OF Some] by auto
  then have wf: "binding_wf b" "1 < length (b_host b)" using sep by (auto simp: separate_def)
  obtain r where r: "(if b_guest b = ''/'' then [] else b_guest b) @ r = guest" "r = [] \<or> hd r = SLASH"
    using b(2) guest(1) unfolding guest_match_below [OF guest(2) wf(1)] c_at_slash_conv
    by (cases "b_guest b = ''/''") (auto simp: below_def)
  then have rest: "drop (if b_guest b = ''/'' then 0 else b_guest_len b) guest = r"
    using wf(1) by (auto simp: binding_wf_def)
  have lr: "length r \<le> length guest" using arg_cong [OF r(1), of length] by simp
  have m: "map_to_host ctx root PATH_LEN guest = b_host b @ r"
    using Some wf(2) fits(2) b(1) lr by (auto simp: map_to_host_def Let_def rest host_part_def or_slash_def)
  have "NUL \<notin> set (b_host b @ r)"
    using wf(1) guest(2) r(1) by (auto simp: binding_wf_def)
  from host_match_separate [OF sep b(1) this] r show ?thesis
    using guest fits(1) by (auto simp: m emuroot_host_to_guest_def or_slash_def)
qed

theorem host_to_guest_roundtrip_witness:
  "emuroot_host_to_guest (zero_ctx\<lparr>bindings := [mk_binding ''/proc'' ''/proc'']\<rparr>) ''/srv''
     (map_to_host (zero_ctx\<lparr>bindings := [mk_binding ''/proc'' ''/proc'']\<rparr>) ''/srv'' PATH_LEN ''/proc/self'')
     PATH_LEN = Some ''/proc/self''"
  by (rule host_to_guest_roundtrip)
     (simp_all add: separate_def mk_binding_def binding_wf_def below_def PATH_LEN_def c_at_def)

subsection \<open>The early exits\<close>



lemma length_path_of_take: "length (path_of (take k cs)) \<le> length (path_of cs)"
proof (cases "take k cs = []")
  case True
  then show ?thesis using path_of_slash [of cs] by auto
next
  case False
  have "map ((#) SLASH) cs = map ((#) SLASH) (take k cs) @ map ((#) SLASH) (drop k cs)"
    by (metis append_take_drop_id map_append)
  then have "length (concat (map ((#) SLASH) (take k cs))) \<le> length (concat (map ((#) SLASH) cs))"
    by simp
  then show ?thesis using False by (auto simp: path_of_def)
qed

lemma path_of_single_slashes:
  assumes "normal cs" and "path_of cs = g @ SLASH # r" and "g \<noteq> []"
  shows "r \<noteq> [] \<and> hd r \<noteq> SLASH"
  using assms
proof (induction cs arbitrary: r rule: rev_induct)
  case Nil
  then show ?case by (cases g) auto
next
  case (snoc c cs)
  have c: "c \<noteq> []" "SLASH \<notin> set c" using snoc.prems(1) by (auto simp: normal_comp_def)
  have hc: "hd c \<noteq> SLASH" using c by (metis hd_in_set)
  show ?case
  proof (cases "cs = []")
    case True
    with snoc.prems c show ?thesis by (cases g) auto
  next
    case False
    with snoc.prems(2) have "path_of cs @ SLASH # c = g @ SLASH # r" by (simp add: path_of_snoc)
    then obtain us where "path_of cs = g @ us \<and> us @ SLASH # c = SLASH # r \<or>
        path_of cs @ us = g \<and> SLASH # c = us @ SLASH # r"
      unfolding append_eq_append_conv2 by blast
    then show ?thesis
    proof
      assume us: "path_of cs = g @ us \<and> us @ SLASH # c = SLASH # r"
      show ?thesis
      proof (cases us)
        case Nil
        with us c hc show ?thesis by auto
      next
        case (Cons u vs)
        with us snoc have "vs \<noteq> [] \<and> hd vs \<noteq> SLASH" by auto
        with Cons us show ?thesis by auto
      qed
    next
      assume us: "path_of cs @ us = g \<and> SLASH # c = us @ SLASH # r"
      with c hc show ?thesis by (cases us) auto
    qed
  qed
qed

text \<open>A binding whose guest path was given with a trailing slash is dead. \<^verbatim>\<open>emuroot_bind\<close> stores
  the path as it is (\<^verbatim>\<open>emuroot_set_root\<close> strips the slash), and no normalised guest path, neither the
  bound directory nor anything below it, ever matches such a binding.\<close>

theorem trailing_slash_binding_dead:
  assumes "emuroot_bind (Some c) (Some h) (Some (g @ ''/'')) = (EMUROOT_OK, Some c')"
    and "g \<noteq> []" and "normal cs" and "NUL \<notin> set (path_of cs)"
  shows "\<not> guest_match (path_of cs) (last (bindings c'))"
proof
  assume m: "guest_match (path_of cs) (last (bindings c'))"
  have b: "b_guest (last (bindings c')) = g @ ''/''" "b_guest_len (last (bindings c')) = length (g @ ''/'')"
    using emuroot_bind_OK(1) [OF assms(1)] by simp_all
  with m assms(2) have "below (path_of cs) (g @ ''/'')"
    using has_prefix_below [OF assms(4)] by (auto simp: guest_match_def)
  then obtain r where "path_of cs = g @ SLASH # r" "r = [] \<or> hd r = SLASH" by (auto simp: below_def)
  with path_of_single_slashes [OF assms(3) _ assms(2)] show False by auto
qed

theorem trailing_slash_binding_dead_witness:
  "\<not> guest_match ''/data/x'' (last (bindings (the (snd (emuroot_bind (Some zero_ctx) (Some ''/d'') (Some ''/data/''))))))"
  using trailing_slash_binding_dead [of zero_ctx "''/d''" "''/data''" _ "[''data'', ''x'']"]
  by (simp add: emuroot_bind_def copy_path_def zero_ctx_def status_defs MAX_BINDINGS_def PATH_LEN_def path_of_def normal_comp_def)

text \<open>With a root and no bindings, nothing outside the root is named. Every absolute guest path
  that resolves with room to spare, and does not end in an unfollowed or a 41st link, becomes the
  root followed by a path without \<^verbatim>\<open>..\<close> components, none of whose components is a symbolic link.\<close>

theorem root_confines:
  assumes "root \<noteq> []" and b: "bindings ctx = []" and "c_at guest 0 = SLASH"
    and res: "emuroot_translate_path_ex ctx rl root guest True PATH_LEN PATH_LEN = (rw, host, g)"
    and room: "length root + length g + 256 < PATH_LEN" 
    and stop: "take 6 (root @ g) \<noteq> ''/proc/''" "rl (root @ g) = None"
  shows "\<exists>cs. g = path_of cs \<and> normal cs \<and> (host = root @ g \<or> host = root @ g @ ''/'') \<and>
    (\<forall>k. 0 < k \<and> k \<le> length cs \<longrightarrow> rl (root @ path_of (take k cs)) = None)"
proof -
  let ?m = "map_to_host ctx root PATH_LEN"
  have m: "?m x = root @ x" if "length x \<le> length g" for x
    using that room by (simp add: map_to_host_def b)
  from room have "length g + 256 < PATH_LEN" by simp
  from translate_shape [OF assms(3) disjI1 [OF assms(1)] refl res this] m [of g] stop
  obtain cs where cs: "g = path_of cs" "normal cs" "resolved ?m g host" "no_links ?m rl cs" by auto
  have "rl (root @ path_of (take k cs)) = None" if k: "0 < k" "k \<le> length cs" for k
    using cs(4) m [of "path_of (take k cs)"] k length_path_of_take [of k cs] by (auto simp: no_links_def cs(1))
  with cs m [of g] show ?thesis by (auto simp: resolved_def)
qed

theorem root_confines_witness:
  "emuroot_translate_path_ex zero_ctx demo_links ''/srv'' ''/../bin/sh'' True PATH_LEN PATH_LEN =
     (True, ''/srv/opt/sh'', ''/opt/sh'') \<and>
   (\<exists>cs. ''/opt/sh'' = path_of cs \<and> normal cs)"
proof -
  have res: "emuroot_translate_path_ex zero_ctx demo_links ''/srv'' ''/../bin/sh'' True PATH_LEN PATH_LEN =
     (True, ''/srv/opt/sh'', ''/opt/sh'')" by code_simp
  then show ?thesis
    using root_confines [OF _ _ _ res] by (auto simp: PATH_LEN_def zero_ctx_def demo_links_def)
qed

end
