(* ===== verification/Arch.thy ===== *)
theory Arch
  imports Emu_Prelude
begin

text \<open>
  \<^verbatim>\<open>arch.h\<close> and \<^verbatim>\<open>regs.c\<close>: the register layouts of the supported architectures and how registers are
  read and written. A register set is a function from the index of a register in the architecture's
  \<^verbatim>\<open>emuroot_regs_t\<close> to its value; an \<open>arch\<close> says which index plays which role. The handlers are
  modelled for the 64-bit architectures, whose \<^verbatim>\<open>unsigned long\<close> is a 64-bit word.
\<close>

type_synonym emuroot_regs_t = "nat \<Rightarrow> u64"

record arch =
  EMU_ARCH_NAME :: string
  EMU_AUDIT_ARCH :: u32
  r_sysno :: nat
  r_ret :: nat
  r_args :: "nat list"
  r_sp :: nat
  n_regs :: nat

definition arch_x86_64 :: arch where
  "arch_x86_64 = \<lparr>EMU_ARCH_NAME = ''x86_64'', EMU_AUDIT_ARCH = 0xC000003E,
     r_sysno = 15, r_ret = 10, r_args = [14, 13, 12, 7, 9, 8], r_sp = 19, n_regs = 20\<rparr>"

definition arch_i386 :: arch where
  "arch_i386 = \<lparr>EMU_ARCH_NAME = ''x86'', EMU_AUDIT_ARCH = 0x40000003,
     r_sysno = 11, r_ret = 6, r_args = [0, 1, 2, 3, 4, 5], r_sp = 15, n_regs = 17\<rparr>"

definition arch_aarch64 :: arch where
  "arch_aarch64 = \<lparr>EMU_ARCH_NAME = ''aarch64'', EMU_AUDIT_ARCH = 0xC00000B7,
     r_sysno = 8, r_ret = 0, r_args = [0, 1, 2, 3, 4, 5], r_sp = 31, n_regs = 34\<rparr>"

definition arch_arm :: arch where
  "arch_arm = \<lparr>EMU_ARCH_NAME = ''arm'', EMU_AUDIT_ARCH = 0x40000028,
     r_sysno = 7, r_ret = 0, r_args = [0, 1, 2, 3, 4, 5], r_sp = 13, n_regs = 18\<rparr>"

definition arch_riscv64 :: arch where
  "arch_riscv64 = \<lparr>EMU_ARCH_NAME = ''riscv64'', EMU_AUDIT_ARCH = 243 OR 0x80000000 OR 0x40000000,
     r_sysno = 17, r_ret = 10, r_args = [10, 11, 12, 13, 14, 15], r_sp = 2, n_regs = 18\<rparr>"

definition arch_loongarch64 :: arch where
  "arch_loongarch64 = \<lparr>EMU_ARCH_NAME = ''loongarch64'', EMU_AUDIT_ARCH = 258 OR 0x80000000 OR 0x40000000,
     r_sysno = 11, r_ret = 4, r_args = [4, 5, 6, 7, 8, 9], r_sp = 3, n_regs = 33\<rparr>"

definition arch_ppc64le :: arch where
  "arch_ppc64le = \<lparr>EMU_ARCH_NAME = ''ppc64le'', EMU_AUDIT_ARCH = 0xC0000015,
     r_sysno = 0, r_ret = 3, r_args = [3, 4, 5, 6, 7, 8], r_sp = 1, n_regs = 16\<rparr>"

definition arch_s390x :: arch where
  "arch_s390x = \<lparr>EMU_ARCH_NAME = ''s390x'', EMU_AUDIT_ARCH = 0x80000016,
     r_sysno = 3, r_ret = 4, r_args = [4, 5, 6, 7, 8, 9], r_sp = 17, n_regs = 18\<rparr>"

definition archs :: "arch list" where
  "archs = [arch_x86_64, arch_i386, arch_aarch64, arch_arm, arch_riscv64, arch_loongarch64,
     arch_ppc64le, arch_s390x]"

lemmas arch_defs = arch_x86_64_def arch_i386_def arch_aarch64_def arch_arm_def arch_riscv64_def
  arch_loongarch64_def arch_ppc64le_def arch_s390x_def

text \<open>The register that holds argument \<open>n\<close>; as in the source, anything but 1 to 5 is the sixth.\<close>

definition reg_arg :: "arch \<Rightarrow> nat \<Rightarrow> nat" where
  "reg_arg A n = (if 1 \<le> n \<and> n \<le> 5 then r_args A ! (n - 1) else r_args A ! 5)"

definition arg :: "arch \<Rightarrow> emuroot_regs_t \<Rightarrow> nat \<Rightarrow> u64" where
  "arg A r n = r (reg_arg A n)"

subsection \<open>Reading and writing the registers\<close>

datatype regs_mode = UNDECIDED | REGSET | GETREGS

definition mode_now :: "bool \<Rightarrow> regs_mode \<Rightarrow> regs_mode" where
  "mode_now forced mode = (if mode = UNDECIDED then if forced then GETREGS else REGSET else mode)"

text \<open>\<open>regset\<close> and \<open>getregs\<close> are what the two ptrace requests answer: the error number, or the
  registers. The whole-struct request fills a larger buffer of which the prefix is copied, so it
  yields the same registers.\<close>

definition regs_get :: "bool \<Rightarrow> (int + emuroot_regs_t) \<Rightarrow> (int + emuroot_regs_t) \<Rightarrow> regs_mode \<Rightarrow>
    emuroot_regs_t option \<times> regs_mode" where
  "regs_get forced regset getregs mode =
     (let old = (\<lambda>md. (case getregs of Inl _ \<Rightarrow> (None, md) | Inr r \<Rightarrow> (Some r, md)));
          md = mode_now forced mode
      in if md = REGSET then
           (case regset of
              Inr r \<Rightarrow> (Some r, md)
            | Inl e \<Rightarrow> if e \<noteq> EIO \<and> e \<noteq> EINVAL \<and> e \<noteq> ENOSYS then (None, md) else old GETREGS)
         else old md)"

text \<open>\<open>full\<close> is the whole register struct the kernel holds, of which the first \<open>n_regs\<close> entries are
  ours; \<open>ok1\<close>, \<open>ok2\<close> say whether the requests succeed. The result is the kernel's new struct.\<close>

definition regs_set :: "arch \<Rightarrow> bool \<Rightarrow> bool \<Rightarrow> bool \<Rightarrow> regs_mode \<Rightarrow> emuroot_regs_t \<Rightarrow> emuroot_regs_t \<Rightarrow>
    bool \<times> emuroot_regs_t \<times> regs_mode" where
  "regs_set A forced ok1 ok2 mode regs full =
     (let md = mode_now forced mode;
          put = (\<lambda>i. if i < n_regs A then regs i else full i)
      in if md = REGSET then (if ok1 then (True, put, md) else (False, full, md))
         else if \<not> ok2 then (False, full, md)
         else if ok1 then (True, put, md) else (False, full, md))"

definition arch_wf :: "arch \<Rightarrow> bool" where
  "arch_wf A \<longleftrightarrow> length (r_args A) = 6 \<and> distinct (r_args A) \<and> r_sp A \<notin> set (r_args A) \<and>
     r_sysno A \<notin> set (r_args A) \<and> r_ret A \<noteq> r_sp A \<and> r_ret A \<noteq> r_sysno A \<and>
     r_ret A \<notin> set (tl (r_args A)) \<and> r_sp A \<noteq> r_sysno A \<and>
     list_all (\<lambda>i. i < n_regs A) (r_sysno A # r_ret A # r_sp A # r_args A)"

lemma archs_wf: "A \<in> set archs \<Longrightarrow> arch_wf A"
  by (auto simp: archs_def arch_wf_def arch_defs)

lemma reg_arg_in: "arch_wf A \<Longrightarrow> reg_arg A n \<in> set (r_args A)"
  by (auto simp: arch_wf_def reg_arg_def)

lemma reg_arg_nth:
  assumes "1 \<le> k" "k \<le> 6" shows "reg_arg A k = r_args A ! (k - 1)"
  using assms by (cases "k = 6") (auto simp: reg_arg_def)

lemma reg_arg_inj:
  assumes "arch_wf A" and "1 \<le> i" "i \<le> 6" "1 \<le> j" "j \<le> 6"
  shows "reg_arg A i = reg_arg A j \<longleftrightarrow> i = j"
proof -
  show ?thesis
    using reg_arg_nth [of i A] reg_arg_nth [of j A] assms nth_eq_iff_index_eq [of "r_args A" "i - 1" "j - 1"] by (auto simp: arch_wf_def)
qed

lemma reg_arg_other:
  assumes "arch_wf A" shows "reg_arg A n \<noteq> r_sp A" "reg_arg A n \<noteq> r_sysno A"
  using reg_arg_in [OF assms, of n] assms by (auto simp: arch_wf_def)

lemma arg_upd [simp]:
  assumes "arch_wf A" and "1 \<le> i" "i \<le> 6" "1 \<le> j" "j \<le> 6"
  shows "arg A (r(reg_arg A i := v)) j = (if i = j then v else arg A r j)"
  using reg_arg_inj [OF assms(1)] assms by (auto simp: arg_def)

lemma reg_arg_ret:
  assumes "arch_wf A" and "1 \<le> k" "k \<le> 6" and "reg_arg A k = r_ret A" shows "k = 1"
proof (rule ccontr)
  assume "k \<noteq> 1"
  with assms(2,3) have "r_args A ! (k - 1) = tl (r_args A) ! (k - 2)" "k - 2 < length (tl (r_args A))"
    using assms(1) nth_tl [of "k - 2" "r_args A"] by (auto simp: arch_wf_def numeral_eq_Suc Suc_diff_Suc)
  with assms reg_arg_nth [OF assms(2,3), of A] show False by (auto simp: arch_wf_def)
qed

lemma first_arg_ret:
  assumes "A \<in> set archs"
  shows "reg_arg A 1 = r_ret A \<longleftrightarrow> EMU_ARCH_NAME A \<notin> {''x86_64'', ''x86''}"
proof -
  have "list_all (\<lambda>A. reg_arg A 1 = r_ret A \<longleftrightarrow> EMU_ARCH_NAME A \<notin> {''x86_64'', ''x86''}) archs"
    unfolding archs_def by (simp add: arch_defs reg_arg_def)
  with assms show ?thesis by (simp add: list_all_iff)
qed

text \<open>The register layouts are consistent, and where the result overwrites an argument. On
  every supported architecture the six arguments are six different registers, none of them the
  stack pointer or the syscall number, all inside the register struct, so writing one argument
  changes no other; the return value shares a register with the first argument, and only that one,
  on every architecture except the two x86 ones.\<close>

theorem register_roles:
  assumes "A \<in> set archs"
  shows "(\<forall>i j v r. i \<in> {1..6} \<and> j \<in> {1..6} \<longrightarrow>
      arg A (r(reg_arg A i := v)) j = (if i = j then v else arg A r j)) \<and>
    (\<forall>i. reg_arg A i < n_regs A \<and> reg_arg A i \<noteq> r_sp A \<and> reg_arg A i \<noteq> r_sysno A) \<and>
    (\<forall>i \<in> {1..6}. reg_arg A i = r_ret A \<longleftrightarrow> i = 1 \<and> EMU_ARCH_NAME A \<notin> {''x86_64'', ''x86''})"
proof -
  have wf: "arch_wf A" using assms by (rule archs_wf)
  have "reg_arg A i < n_regs A" for i
    using reg_arg_in [OF wf, of i] wf by (auto simp: arch_wf_def list_all_iff)
  moreover have "reg_arg A i = r_ret A \<longleftrightarrow> i = 1 \<and> EMU_ARCH_NAME A \<notin> {''x86_64'', ''x86''}"
    if "i \<in> {1..6}" for i
    using reg_arg_ret [OF wf, of i] first_arg_ret [OF assms] that by auto
  ultimately show ?thesis using reg_arg_other [OF wf] wf by auto
qed

theorem register_roles_witness:
  "reg_arg arch_aarch64 1 = r_ret arch_aarch64 \<and> reg_arg arch_x86_64 1 \<noteq> r_ret arch_x86_64"
proof -
  have "arch_aarch64 \<in> set archs" "arch_x86_64 \<in> set archs" by (simp_all add: archs_def)
  moreover have "EMU_ARCH_NAME arch_aarch64 = ''aarch64''" "EMU_ARCH_NAME arch_x86_64 = ''x86_64''"
    by (simp_all add: arch_defs)
  moreover note register_roles [of arch_aarch64] register_roles [of arch_x86_64]
  ultimately show ?thesis by simp
qed

end
