(* ===== verification/Syscalls.thy ===== *)
theory Syscalls
  imports Emu_Prelude
begin

text \<open>
  \<^verbatim>\<open>syscalls.h\<close> and \<^verbatim>\<open>syscalls.c\<close>: the tables of syscalls that carry paths and of syscalls whose results
  are patched, and the list of all handled numbers that \<^verbatim>\<open>ptrace.c\<close> gives to the seccomp filter.
  The syscall numbers come from the kernel headers of the target; \<open>nr\<close> gives the number of a name,
  \<open>None\<close> where the \<^verbatim>\<open>#ifdef\<close> fails and the entry is compiled out, and \<open>lp64\<close> is whether
  \<^verbatim>\<open>__LP64__\<close> is defined.
\<close>

type_synonym sysno_of = "string \<Rightarrow> int option"

datatype follow_mode = M_FOLLOW | M_NOFOLLOW | M_OPEN | M_OPENAT2 | M_AT | M_LINKAT

record path_syscall_t =
  ps_sysno :: int
  ps_slot1 :: nat
  ps_slot2 :: nat
  ps_mode :: follow_mode
  ps_flag_slot :: nat

datatype action =
    A_GETUID | A_GETEUID | A_GETGID | A_GETEGID | A_GETRESUID | A_GETRESGID | A_GETGROUPS
  | A_SETUID | A_SETGID | A_SETREUID | A_SETREGID | A_SETRESUID | A_SETRESGID | A_SETGROUPS
  | A_SETFSUID | A_SETFSGID | A_CHOWN | A_STAT_2 | A_STAT_3 | A_STATX | A_GETCWD
  | A_CHROOT | A_MOUNT | A_UMOUNT | A_READLINK | A_EXECVE | A_UNAME

definition path_rows :: "(string \<times> nat \<times> nat \<times> follow_mode \<times> nat) list" where
  "path_rows = [
    (''chroot'', 1, 0, M_FOLLOW, 0), (''open'', 1, 0, M_OPEN, 2), (''creat'', 1, 0, M_FOLLOW, 0),
    (''stat'', 1, 0, M_FOLLOW, 0), (''stat64'', 1, 0, M_FOLLOW, 0),
    (''lstat'', 1, 0, M_NOFOLLOW, 0), (''lstat64'', 1, 0, M_NOFOLLOW, 0),
    (''access'', 1, 0, M_FOLLOW, 0), (''readlink'', 1, 0, M_NOFOLLOW, 0),
    (''chdir'', 1, 0, M_FOLLOW, 0), (''rmdir'', 1, 0, M_NOFOLLOW, 0),
    (''unlink'', 1, 0, M_NOFOLLOW, 0), (''mkdir'', 1, 0, M_NOFOLLOW, 0),
    (''chmod'', 1, 0, M_FOLLOW, 0), (''chown'', 1, 0, M_FOLLOW, 0),
    (''chown32'', 1, 0, M_FOLLOW, 0), (''lchown'', 1, 0, M_NOFOLLOW, 0),
    (''lchown32'', 1, 0, M_NOFOLLOW, 0), (''truncate'', 1, 0, M_FOLLOW, 0),
    (''truncate64'', 1, 0, M_FOLLOW, 0), (''utime'', 1, 0, M_FOLLOW, 0),
    (''utimes'', 1, 0, M_FOLLOW, 0), (''mknod'', 1, 0, M_NOFOLLOW, 0),
    (''statfs'', 1, 0, M_FOLLOW, 0), (''statfs64'', 1, 0, M_FOLLOW, 0),
    (''getxattr'', 1, 0, M_FOLLOW, 0), (''lgetxattr'', 1, 0, M_NOFOLLOW, 0),
    (''setxattr'', 1, 0, M_FOLLOW, 0), (''lsetxattr'', 1, 0, M_NOFOLLOW, 0),
    (''listxattr'', 1, 0, M_FOLLOW, 0), (''llistxattr'', 1, 0, M_NOFOLLOW, 0),
    (''removexattr'', 1, 0, M_FOLLOW, 0), (''lremovexattr'', 1, 0, M_NOFOLLOW, 0),
    (''rename'', 1, 2, M_NOFOLLOW, 0), (''link'', 1, 2, M_NOFOLLOW, 0),
    (''symlink'', 2, 0, M_NOFOLLOW, 0)]"

text \<open>The calls relative to a directory descriptor, and the rest.\<close>

definition at_rows :: "(string \<times> nat \<times> nat \<times> follow_mode \<times> nat) list" where
  "at_rows = [
    (''openat'', 2, 0, M_OPEN, 3),
    (''openat2'', 2, 0, M_OPENAT2, 3), (''mkdirat'', 2, 0, M_NOFOLLOW, 0),
    (''unlinkat'', 2, 0, M_NOFOLLOW, 0), (''newfstatat'', 2, 0, M_AT, 4),
    (''fstatat64'', 2, 0, M_AT, 4), (''statx'', 2, 0, M_AT, 3),
    (''readlinkat'', 2, 0, M_NOFOLLOW, 0), (''fchmodat'', 2, 0, M_FOLLOW, 0),
    (''fchmodat2'', 2, 0, M_AT, 4), (''fchownat'', 2, 0, M_AT, 5), (''utimensat'', 2, 0, M_AT, 4),
    (''futimesat'', 2, 0, M_FOLLOW, 0), (''faccessat'', 2, 0, M_FOLLOW, 0),
    (''faccessat2'', 2, 0, M_AT, 4), (''mknodat'', 2, 0, M_NOFOLLOW, 0),
    (''renameat'', 2, 4, M_NOFOLLOW, 0), (''renameat2'', 2, 4, M_NOFOLLOW, 0),
    (''linkat'', 2, 4, M_LINKAT, 5), (''symlinkat'', 3, 0, M_NOFOLLOW, 0),
    (''inotify_add_watch'', 2, 0, M_FOLLOW, 0)]"

definition path_table :: "(string \<times> nat \<times> nat \<times> follow_mode \<times> nat) list" where
  "path_table = path_rows @ at_rows"

text \<open>The flag of an entry says that it is there on LP64 targets only.\<close>

definition id_rows :: "(string \<times> bool \<times> action) list" where
  "id_rows = [
    (''getuid'', False, A_GETUID), (''getuid32'', False, A_GETUID),
    (''geteuid'', False, A_GETEUID), (''geteuid32'', False, A_GETEUID),
    (''getgid'', False, A_GETGID), (''getgid32'', False, A_GETGID),
    (''getegid'', False, A_GETEGID), (''getegid32'', False, A_GETEGID),
    (''getresuid'', False, A_GETRESUID), (''getresuid32'', False, A_GETRESUID),
    (''getresgid'', False, A_GETRESGID), (''getresgid32'', False, A_GETRESGID),
    (''getgroups'', False, A_GETGROUPS), (''getgroups32'', False, A_GETGROUPS),
    (''setuid'', False, A_SETUID), (''setuid32'', False, A_SETUID), (''setgid'', False, A_SETGID),
    (''setgid32'', False, A_SETGID), (''setreuid'', False, A_SETREUID),
    (''setreuid32'', False, A_SETREUID), (''setregid'', False, A_SETREGID),
    (''setregid32'', False, A_SETREGID), (''setresuid'', False, A_SETRESUID),
    (''setresuid32'', False, A_SETRESUID), (''setresgid'', False, A_SETRESGID),
    (''setresgid32'', False, A_SETRESGID), (''setgroups'', False, A_SETGROUPS),
    (''setgroups32'', False, A_SETGROUPS), (''setfsuid'', False, A_SETFSUID),
    (''setfsuid32'', False, A_SETFSUID), (''setfsgid'', False, A_SETFSGID),
    (''setfsgid32'', False, A_SETFSGID)]"

definition file_rows :: "(string \<times> bool \<times> action) list" where
  "file_rows = [
    (''chown'', False, A_CHOWN), (''chown32'', False, A_CHOWN), (''lchown'', False, A_CHOWN), (''lchown32'', False, A_CHOWN),
    (''fchown'', False, A_CHOWN), (''fchown32'', False, A_CHOWN), (''fchownat'', False, A_CHOWN),
    (''stat'', True, A_STAT_2), (''lstat'', True, A_STAT_2), (''fstat'', True, A_STAT_2),
    (''newfstatat'', True, A_STAT_3), (''stat64'', False, A_STAT_2),
    (''lstat64'', False, A_STAT_2), (''fstat64'', False, A_STAT_2),
    (''fstatat64'', False, A_STAT_3), (''statx'', False, A_STATX), (''chroot'', False, A_CHROOT),
    (''mount'', False, A_MOUNT), (''umount'', False, A_UMOUNT), (''umount2'', False, A_UMOUNT),
    (''readlink'', False, A_READLINK), (''readlinkat'', False, A_READLINK),
    (''execve'', False, A_EXECVE), (''getcwd'', False, A_GETCWD), (''uname'', False, A_UNAME)]"

definition action_table :: "(string \<times> bool \<times> action) list" where
  "action_table = id_rows @ file_rows"

definition path_entry :: "sysno_of \<Rightarrow> string \<times> nat \<times> nat \<times> follow_mode \<times> nat \<Rightarrow> path_syscall_t option" where
  "path_entry nr e = (case e of (n, s1, s2, md, fl) \<Rightarrow>
     map_option (\<lambda>k. \<lparr>ps_sysno = k, ps_slot1 = s1, ps_slot2 = s2, ps_mode = md, ps_flag_slot = fl\<rparr>) (nr n))"

definition path_syscalls :: "sysno_of \<Rightarrow> path_syscall_t list" where
  "path_syscalls nr = List.map_filter (path_entry nr) path_table"

definition action_entry :: "sysno_of \<Rightarrow> bool \<Rightarrow> string \<times> bool \<times> action \<Rightarrow> (int \<times> action) option" where
  "action_entry nr lp64 e = (case e of (n, only64, a) \<Rightarrow>
     if only64 \<and> \<not> lp64 then None else map_option (\<lambda>k. (k, a)) (nr n))"

definition action_syscalls :: "sysno_of \<Rightarrow> bool \<Rightarrow> (int \<times> action) list" where
  "action_syscalls nr lp64 = List.map_filter (action_entry nr lp64) action_table"

text \<open>The first entry of the number; \<open>None\<close> is the value -1 of the source.\<close>

definition emuroot_action_of :: "sysno_of \<Rightarrow> bool \<Rightarrow> int \<Rightarrow> action option" where
  "emuroot_action_of nr lp64 sysno = map_of (action_syscalls nr lp64) sysno"

definition emuroot_find_path_syscall :: "sysno_of \<Rightarrow> int \<Rightarrow> path_syscall_t option" where
  "emuroot_find_path_syscall nr sysno = find (\<lambda>d. ps_sysno d = sysno) (path_syscalls nr)"

text \<open>A name's number equals \<open>sysno\<close>, the test under \<^verbatim>\<open>#ifdef\<close> the handlers make.\<close>

definition is_nr :: "sysno_of \<Rightarrow> string \<Rightarrow> int \<Rightarrow> bool" where
  "is_nr nr name sysno \<longleftrightarrow> nr name = Some sysno"

definition traced_syscalls :: "sysno_of \<Rightarrow> bool \<Rightarrow> int list" where
  "traced_syscalls nr lp64 =
     map ps_sysno (path_syscalls nr) @ map fst (action_syscalls nr lp64) @
     List.map_filter nr [''execve'', ''bind'', ''connect'', ''sendto'']"

subsection \<open>Facts about the tables\<close>

lemma map_filter_length: "length (List.map_filter f xs) \<le> length xs"
  by (induction xs) (auto simp: List.map_filter_simps split: option.split)

lemma set_map_filter: "set (List.map_filter f xs) = {y. \<exists>x \<in> set xs. f x = Some y}"
  by (induction xs) (auto simp: List.map_filter_simps split: option.split)

lemma traced_length: "length (traced_syscalls nr lp64) \<le> 118"
proof -
  have "length path_table = 57" "length action_table = 57"
    by (simp_all add: path_table_def path_rows_def at_rows_def action_table_def id_rows_def file_rows_def)
  then show ?thesis
    using map_filter_length [of "path_entry nr" path_table]
      map_filter_length [of "action_entry nr lp64" action_table]
      map_filter_length [of nr "[''execve'', ''bind'', ''connect'', ''sendto'']"]
    by (simp add: traced_syscalls_def path_syscalls_def action_syscalls_def)
qed

text \<open>Slots are argument positions, the path and flag slots of an entry differ, exactly the modes
  that look at flags have a flag slot, and the second path of a call is never followed.\<close>

definition row_ok :: "nat \<Rightarrow> nat \<Rightarrow> follow_mode \<Rightarrow> nat \<Rightarrow> bool" where
  "row_ok s1 s2 md fl \<longleftrightarrow> 1 \<le> s1 \<and> s1 \<le> 6 \<and> s2 \<le> 6 \<and> fl \<le> 6 \<and> s1 \<noteq> s2 \<and> fl \<noteq> s1 \<and>
     (fl = s2 \<longrightarrow> s2 = 0) \<and> (fl = 0 \<longleftrightarrow> md = M_FOLLOW \<or> md = M_NOFOLLOW) \<and>
     (s2 \<noteq> 0 \<longrightarrow> md = M_NOFOLLOW \<or> md = M_LINKAT)"

definition entry_ok :: "path_syscall_t \<Rightarrow> bool" where
  "entry_ok d \<longleftrightarrow> row_ok (ps_slot1 d) (ps_slot2 d) (ps_mode d) (ps_flag_slot d)"

lemma path_rows_ok: "list_all (\<lambda>(n, s1, s2, md, fl). row_ok s1 s2 md fl) path_table"
  by code_simp

lemma path_table_ok: "d \<in> set (path_syscalls nr) \<Longrightarrow> entry_ok d"
  using path_rows_ok
  by (fastforce simp: path_syscalls_def set_map_filter list_all_iff path_entry_def entry_ok_def)

lemma find_path_entry_ok:
  assumes "emuroot_find_path_syscall nr sysno = Some d" shows "entry_ok d \<and> ps_sysno d = sysno"
  using assms path_table_ok [of d nr]
  unfolding emuroot_find_path_syscall_def find_Some_iff by auto

lemma find_path_traced: "emuroot_find_path_syscall nr sysno \<noteq> None \<Longrightarrow> sysno \<in> set (traced_syscalls nr lp64)"
  by (auto simp: emuroot_find_path_syscall_def traced_syscalls_def find_Some_iff)

lemma action_traced: "emuroot_action_of nr lp64 sysno \<noteq> None \<Longrightarrow> sysno \<in> set (traced_syscalls nr lp64)"
  by (force simp: emuroot_action_of_def traced_syscalls_def dest: map_of_SomeD)

lemma set_extra:
  "set (List.map_filter nr [''execve'', ''bind'', ''connect'', ''sendto'']) =
    {k. \<exists>n \<in> {''execve'', ''bind'', ''connect'', ''sendto''}. nr n = Some k}"
  unfolding set_map_filter by simp

lemma extra_traced:
  "is_nr nr n sysno \<Longrightarrow> n \<in> {''execve'', ''bind'', ''connect'', ''sendto''} \<Longrightarrow>
   sysno \<in> set (traced_syscalls nr lp64)"
  unfolding traced_syscalls_def set_append set_extra is_nr_def by blast

text \<open>The names the tables mention.\<close>

definition traced_names :: "string list" where
  "traced_names = map fst path_table @ map fst action_table @ [''execve'', ''bind'', ''connect'', ''sendto'']"

lemma traced_named:
  assumes "k \<in> set (traced_syscalls nr lp64)" shows "\<exists>n \<in> set traced_names. nr n = Some k"
proof -
  have "(\<exists>e \<in> set path_table. nr (fst e) = Some k) \<or> (\<exists>e \<in> set action_table. nr (fst e) = Some k) \<or>
    (\<exists>n \<in> {''execve'', ''bind'', ''connect'', ''sendto''}. nr n = Some k)"
    using assms unfolding traced_syscalls_def set_append set_extra
    by (fastforce simp: path_syscalls_def action_syscalls_def set_map_filter path_entry_def action_entry_def
        split: if_splits)
  then show ?thesis by (force simp: traced_names_def)
qed

lemma execveat_not_named: "''execveat'' \<notin> set traced_names"
  by code_simp

text \<open>The numbers of x86-64, an instance for examples.\<close>

definition nr_x86_64 :: sysno_of where
  "nr_x86_64 = map_of [(''open'', 2), (''stat'', 4), (''fstat'', 5), (''lstat'', 6), (''access'', 21),
     (''connect'', 42), (''sendto'', 44), (''bind'', 49), (''execve'', 59), (''uname'', 63),
     (''getcwd'', 79), (''chdir'', 80), (''rename'', 82), (''mkdir'', 83), (''rmdir'', 84), (''creat'', 85),
     (''link'', 86), (''unlink'', 87), (''symlink'', 88), (''readlink'', 89), (''chmod'', 90), (''chown'', 92),
     (''fchown'', 93), (''lchown'', 94), (''getuid'', 102), (''getgid'', 104), (''setuid'', 105),
     (''setgid'', 106), (''geteuid'', 107), (''getegid'', 108), (''getgroups'', 115), (''setgroups'', 116),
     (''setresuid'', 117), (''getresuid'', 118), (''chroot'', 161), (''mount'', 165), (''umount2'', 166),
     (''openat'', 257), (''fchownat'', 260), (''newfstatat'', 262), (''linkat'', 265), (''symlinkat'', 266),
     (''readlinkat'', 267), (''execveat'', 322), (''statx'', 332), (''openat2'', 437)]"

end
