(* ===== verification/Seccomp.thy ===== *)
theory Seccomp
  imports Arch Syscalls
begin

text \<open>
  \<^verbatim>\<open>seccomp.c\<close>: the filter program and what it decides. \<open>bpf_run\<close> is the classic BPF machine for the
  three instructions the filter uses, on the syscall data the kernel gives it; jumps only go
  forward, so every program ends (\<open>None\<close>: it ran past its last instruction, which the kernel's
  checker refuses).
\<close>

datatype sock_filter = LD_ABS nat | JEQ u32 nat nat | RET u32

record seccomp_data =
  sd_nr :: u32
  sd_arch :: u32

definition off_nr :: nat where "off_nr = 0"
definition off_arch :: nat where "off_arch = 4"
definition SECCOMP_RET_ALLOW :: u32 where "SECCOMP_RET_ALLOW = 0x7fff0000"
definition SECCOMP_RET_TRACE :: u32 where "SECCOMP_RET_TRACE = 0x7ff00000"

definition sd_load :: "seccomp_data \<Rightarrow> nat \<Rightarrow> u32" where
  "sd_load d off = (if off = off_nr then sd_nr d else if off = off_arch then sd_arch d else 0)"

function bpf_run :: "sock_filter list \<Rightarrow> seccomp_data \<Rightarrow> u32 \<Rightarrow> u32 option" where
  "bpf_run [] d a = None"
| "bpf_run (LD_ABS off # p) d a = bpf_run p d (sd_load d off)"
| "bpf_run (JEQ k jt jf # p) d a = bpf_run (drop (if a = k then jt else jf) p) d a"
| "bpf_run (RET k # p) d a = Some k"
  by pat_completeness auto
termination
  by (relation "measure (\<lambda>(p, d, a). length p)") auto

definition MAX_FILTERED :: nat where "MAX_FILTERED = 250"

text \<open>The comparisons: entry \<open>i\<close> of \<open>n\<close> jumps \<open>n - i\<close> instructions ahead, an 8-bit field.\<close>

fun compares :: "int list \<Rightarrow> sock_filter list" where
  "compares [] = []"
| "compares (x # xs) = JEQ (word_of_int x) ((length xs + 1) mod 256) 0 # compares xs"

definition filter_prog :: "u32 \<Rightarrow> int list \<Rightarrow> sock_filter list" where
  "filter_prog audit nrs =
     [LD_ABS off_arch, JEQ audit 1 0, RET SECCOMP_RET_ALLOW, LD_ABS off_nr] @ compares nrs @
     [RET SECCOMP_RET_ALLOW, RET SECCOMP_RET_TRACE]"

text \<open>\<open>no_new_privs\<close> and \<open>install\<close> are whether the two \<^verbatim>\<open>prctl\<close> calls succeed; the result is the return
  code and the program the kernel then runs, if any.\<close>

definition emuroot_seccomp_trace :: "u32 \<Rightarrow> bool \<Rightarrow> bool \<Rightarrow> int list \<Rightarrow> int \<times> sock_filter list option" where
  "emuroot_seccomp_trace audit no_new_privs install nrs =
     (if length nrs = 0 \<or> length nrs > MAX_FILTERED then (- 1, None)
      else if \<not> no_new_privs then (- 1, None)
      else if install then (0, Some (filter_prog audit nrs)) else (- 1, None))"

text \<open>\<open>version\<close> is the kernel release parsed as \<^verbatim>\<open>%d.%d\<close>, \<open>None\<close> if \<^verbatim>\<open>uname\<close> or the parse fails.\<close>

definition emuroot_seccomp_supported :: "(int \<times> int) option \<Rightarrow> bool" where
  "emuroot_seccomp_supported version =
     (case version of None \<Rightarrow> False | Some (major, minor) \<Rightarrow> major > 4 \<or> major = 4 \<and> minor \<ge> 8)"

definition emuroot_seccomp_installable :: "bool \<Rightarrow> bool \<Rightarrow> bool" where
  "emuroot_seccomp_installable no_new_privs install = (no_new_privs \<and> install)"

subsection \<open>The filter traces exactly the listed numbers\<close>

lemma length_compares [simp]: "length (compares xs) = length xs"
  by (induction xs) auto

lemma bpf_compares:
  assumes "length xs < 256"
  shows "bpf_run (compares xs @ [RET allow, RET trace]) d a =
    Some (if a \<in> word_of_int ` set xs then trace else allow)"
  using assms by (induction xs) auto

lemma filter_prog_run:
  assumes "length nrs < 256"
  shows "bpf_run (filter_prog audit nrs) d a =
    Some (if sd_arch d = audit \<and> sd_nr d \<in> word_of_int ` set nrs then SECCOMP_RET_TRACE else SECCOMP_RET_ALLOW)"
  using bpf_compares [OF assms]
  by (cases "sd_arch d = audit") (simp_all add: filter_prog_def sd_load_def off_nr_def off_arch_def)

lemma length_filter_prog: "length (filter_prog audit nrs) = length nrs + 6"
  by (simp add: filter_prog_def)

text \<open>C18: the seccomp filter stops exactly the listed syscalls. For every list of 1 to 250 numbers the
  installed program ends on every syscall, tracing it if and only if it was made through the
  tracer's own ABI and its number is in the list, and allowing it otherwise; none of its 8-bit jump
  offsets wraps. Longer and empty lists are refused.\<close>

theorem seccomp_filter_exact:
  "(case emuroot_seccomp_trace audit True True nrs of
     (rc, None) \<Rightarrow> rc = - 1 \<and> length nrs \<notin> {1..250}
   | (rc, Some prog) \<Rightarrow> rc = 0 \<and> length nrs \<in> {1..250} \<and> length prog = length nrs + 6 \<and>
       bpf_run prog d a =
         Some (if sd_arch d = audit \<and> sd_nr d \<in> word_of_int ` set nrs
               then SECCOMP_RET_TRACE else SECCOMP_RET_ALLOW))"
  using filter_prog_run [of nrs audit d a]
  by (cases nrs) (auto simp: emuroot_seccomp_trace_def MAX_FILTERED_def length_filter_prog)

text \<open>Every handled syscall reaches the tracer in seccomp mode. For any target the list of
  \<^verbatim>\<open>traced_syscalls\<close> fits the filter, and a syscall that the path table or the action table knows,
  or that is \<^verbatim>\<open>execve\<close>, \<^verbatim>\<open>bind\<close>, \<^verbatim>\<open>connect\<close> or \<^verbatim>\<open>sendto\<close>, is traced.\<close>

theorem handled_syscalls_traced:
  assumes "nr ''execve'' \<noteq> None"
    and "emuroot_find_path_syscall nr sysno \<noteq> None \<or> emuroot_action_of nr lp64 sysno \<noteq> None \<or>
      (\<exists>n \<in> {''execve'', ''bind'', ''connect'', ''sendto''}. is_nr nr n sysno)"
  shows "\<exists>prog. emuroot_seccomp_trace audit True True (traced_syscalls nr lp64) = (0, Some prog) \<and>
    bpf_run prog \<lparr>sd_nr = word_of_int sysno, sd_arch = audit\<rparr> 0 = Some SECCOMP_RET_TRACE"
proof -
  have "sysno \<in> set (traced_syscalls nr lp64)"
    using assms(2) find_path_traced action_traced extra_traced by blast
  moreover have "length (traced_syscalls nr lp64) \<le> 118" by (rule traced_length)
  ultimately show ?thesis
    using filter_prog_run [of "traced_syscalls nr lp64" audit]
    by (auto simp: emuroot_seccomp_trace_def MAX_FILTERED_def)
qed

theorem handled_syscalls_traced_witness:
  "\<exists>prog. emuroot_seccomp_trace 0xC000003E True True (traced_syscalls nr_x86_64 True) = (0, Some prog) \<and>
    bpf_run prog \<lparr>sd_nr = 59, sd_arch = 0xC000003E\<rparr> 0 = Some SECCOMP_RET_TRACE"
  using handled_syscalls_traced [of nr_x86_64 59 True "0xC000003E"]
  by (simp add: nr_x86_64_def is_nr_def)

text \<open>\<^verbatim>\<open>execveat\<close> is handled at entry but never traced in seccomp mode. \<^verbatim>\<open>emuroot_on_entry\<close> rewrites
  its path, yet its number is in no table: on a target whose numbers are distinct 32-bit values the
  filter lets \<^verbatim>\<open>execveat\<close> run untouched.\<close>

theorem execveat_untraced:
  assumes "nr ''execveat'' = Some k" and "0 \<le> k" "k < 2 ^ 32"
    and "\<forall>n m i. nr n = Some i \<and> nr m = Some i \<longrightarrow> n = m" and "\<forall>n i. nr n = Some i \<longrightarrow> 0 \<le> i \<and> i < 2 ^ 32"
    and "emuroot_seccomp_trace audit True True (traced_syscalls nr lp64) = (0, Some prog)"
  shows "bpf_run prog \<lparr>sd_nr = word_of_int k, sd_arch = audit\<rparr> 0 = Some SECCOMP_RET_ALLOW"
proof -
  have "i \<noteq> k \<and> 0 \<le> i \<and> i < 2 ^ 32" if "i \<in> set (traced_syscalls nr lp64)" for i
  proof -
    obtain n where "n \<in> set traced_names" "nr n = Some i" using traced_named [OF \<open>i \<in> _\<close>] by blast
    with assms(1,4,5) execveat_not_named show ?thesis by blast
  qed
  then have "(word_of_int k :: u32) \<noteq> word_of_int i" if "i \<in> set (traced_syscalls nr lp64)" for i
    using that assms(2,3) by (fastforce simp add: word_of_int_eq_iff take_bit_int_eq_self)
  then have "(word_of_int k :: u32) \<notin> word_of_int ` set (traced_syscalls nr lp64)" by blast
  moreover have "prog = filter_prog audit (traced_syscalls nr lp64)"
    using assms(6) by (auto simp: emuroot_seccomp_trace_def split: if_splits)
  ultimately show ?thesis
    using filter_prog_run [of "traced_syscalls nr lp64" audit] traced_length [of nr lp64] by simp
qed

text \<open>A target with the two exec calls only.\<close>

definition nr_exec :: sysno_of where
  "nr_exec = map_of [(''execve'', 59), (''execveat'', 322)]"

theorem execveat_untraced_witness:
  "bpf_run (filter_prog 0xC000003E (traced_syscalls nr_exec True)) \<lparr>sd_nr = 322, sd_arch = 0xC000003E\<rparr> 0
     = Some SECCOMP_RET_ALLOW"
proof -
  have "traced_syscalls nr_exec True \<noteq> []" by code_simp
  then have i: "emuroot_seccomp_trace 0xC000003E True True (traced_syscalls nr_exec True) =
      (0, Some (filter_prog 0xC000003E (traced_syscalls nr_exec True)))"
    using traced_length [of nr_exec True] by (simp add: emuroot_seccomp_trace_def MAX_FILTERED_def)
  have inj: "\<forall>n m i. nr_exec n = Some i \<and> nr_exec m = Some i \<longrightarrow> n = m"
    and range: "\<forall>n i. nr_exec n = Some i \<longrightarrow> 0 \<le> i \<and> i < 2 ^ 32"
    by (auto simp: nr_exec_def split: if_splits)
  have "nr_exec ''execveat'' = Some 322" by code_simp
  from execveat_untraced [OF this _ _ inj range i] show ?thesis by simp
qed

end
