(* ===== verification/Guest.thy ===== *)
theory Guest
  imports Emu_Prelude
begin

text \<open>
  \<^verbatim>\<open>guest.c\<close>: access to the traced process's memory. A memory maps an address to the byte there,
  \<open>None\<close> where nothing is mapped. \<open>mread\<close> and \<open>mwrite\<close> say what an access does: it transfers the
  mapped prefix of the range. The three methods of the source are modelled over the kernel's
  primitives (\<open>kmem\<close>), the search for a permitted method is \<open>transfer_read\<close>/\<open>transfer_write\<close>, and
  the locale \<open>read_access\<close> is the contract every method gives, from which \<^verbatim>\<open>guest_read_str\<close> is
  proved to read exactly the C string at the address.
\<close>

type_synonym mem = "u64 \<Rightarrow> u8 option"

fun mread :: "mem \<Rightarrow> u64 \<Rightarrow> nat \<Rightarrow> u8 list" where
  "mread m a 0 = []"
| "mread m a (Suc n) = (case m a of None \<Rightarrow> [] | Some b \<Rightarrow> b # mread m (a + 1) n)"

fun mwrite :: "mem \<Rightarrow> u64 \<Rightarrow> u8 list \<Rightarrow> nat \<times> mem" where
  "mwrite m a [] = (0, m)"
| "mwrite m a (b # bs) =
     (case m a of None \<Rightarrow> (0, m)
      | Some _ \<Rightarrow> (case mwrite (m(a \<mapsto> b)) (a + 1) bs of (c, m') \<Rightarrow> (Suc c, m')))"

datatype guest_method = PROCESS_VM | PROC_MEM | PEEK_POKE

text \<open>The kernel's primitives: an error number, or what was transferred. \<open>peek\<close> and \<open>poke\<close> move the
  eight bytes of an aligned word.\<close>

record kmem =
  vm_read :: "mem \<Rightarrow> u64 \<Rightarrow> nat \<Rightarrow> int + u8 list"
  vm_write :: "mem \<Rightarrow> u64 \<Rightarrow> u8 list \<Rightarrow> int + nat \<times> mem"
  pm_read :: "mem \<Rightarrow> u64 \<Rightarrow> nat \<Rightarrow> int + u8 list"
  pm_write :: "mem \<Rightarrow> u64 \<Rightarrow> u8 list \<Rightarrow> int + nat \<times> mem"
  peek :: "mem \<Rightarrow> u64 \<Rightarrow> int + u8 list"
  poke :: "mem \<Rightarrow> u64 \<Rightarrow> u8 list \<Rightarrow> int + mem"

text \<open>\<open>want\<close> is EMUROOT_GUEST_MEM, \<open>no_vm\<close> whether EMUROOT_NO_PROCESS_VM is set.\<close>

definition current_method :: "string option \<Rightarrow> bool \<Rightarrow> guest_method option \<Rightarrow> guest_method" where
  "current_method want no_vm decided =
     (case decided of Some md \<Rightarrow> md
      | None \<Rightarrow> if want = Some ''peek'' then PEEK_POKE
               else if no_vm \<or> want = Some ''procmem'' then PROC_MEM else PROCESS_VM)"

definition denied :: "int \<Rightarrow> bool" where
  "denied err \<longleftrightarrow> err \<noteq> EFAULT \<and> err \<noteq> ESRCH \<and> err \<noteq> EIO \<and> err \<noteq> EINVAL"

text \<open>The loop of \<^verbatim>\<open>peek_poke\<close>, reading: \<open>a\<close> is \<^verbatim>\<open>addr + done\<close>, \<open>len\<close> what is left and \<open>acc\<close> the bytes
  read so far. An aligned word is eight bytes, and the chunk taken from it is never empty, so the
  loop ends.\<close>

definition word_off :: "u64 \<Rightarrow> nat" where
  "word_off a = unat (a - align_down 3 a)"

lemma word_off_mod: "word_off a = unat a mod 8"
  by (simp add: word_off_def unat_sub [OF align_down_le] unat_align_down)

lemma word_off_less [simp]: "word_off a < 8"
  by (simp add: word_off_mod)

function peek_read :: "kmem \<Rightarrow> mem \<Rightarrow> u64 \<Rightarrow> nat \<Rightarrow> u8 list \<Rightarrow> int + u8 list" where
  "peek_read k m a len acc =
     (if len = 0 then Inr acc
      else let at = align_down 3 a; off = word_off a; chunk = min (8 - off) len
           in (case peek k m at of
                 Inl e \<Rightarrow> if acc = [] then Inl e else Inr acc
               | Inr cell \<Rightarrow> peek_read k m (a + of_nat chunk) (len - chunk) (acc @ take chunk (drop off cell))))"
  by pat_completeness auto
termination
proof (relation "measure (\<lambda>(k, m, a, len, acc). len)", goal_cases)
  case (2 k m a len acc at off chunk cell)
  then show ?case using word_off_less [of a] by (auto simp: min_def)
qed simp

declare peek_read.simps [simp del]

function poke_write :: "kmem \<Rightarrow> mem \<Rightarrow> u64 \<Rightarrow> u8 list \<Rightarrow> nat \<Rightarrow> int + nat \<times> mem" where
  "poke_write k m a bs acc =
     (if bs = [] then Inr (acc, m)
      else let at = align_down 3 a; off = word_off a; chunk = min (8 - off) (length bs);
               stop = (\<lambda>e. if acc = 0 then Inl e else Inr (acc, m))
           in (case peek k m at of
                 Inl e \<Rightarrow> stop e
               | Inr cell \<Rightarrow>
                   (case poke k m at (take off cell @ take chunk bs @ drop (off + chunk) cell) of
                      Inl e \<Rightarrow> stop e
                    | Inr m' \<Rightarrow> poke_write k m' (a + of_nat chunk) (drop chunk bs) (acc + chunk))))"
  by pat_completeness auto
termination
proof (relation "measure (\<lambda>(k, m, a, bs, acc). length bs)", goal_cases)
  case (2 k m a bs acc at off chunk)
  then show ?case using word_off_less [of a] by (cases bs) (auto simp: min_def)
qed simp

declare poke_write.simps [simp del]

text \<open>\<^verbatim>\<open>transfer\<close>: a method that is not permitted is given up for the next one, for good. Returns the
  method in use afterwards.\<close>

fun transfer_read :: "kmem \<Rightarrow> mem \<Rightarrow> guest_method \<Rightarrow> u64 \<Rightarrow> nat \<Rightarrow> (int + u8 list) \<times> guest_method" where
  "transfer_read k m PEEK_POKE a n = (peek_read k m a n [], PEEK_POKE)"
| "transfer_read k m PROC_MEM a n =
     (case pm_read k m a n of
        Inr bs \<Rightarrow> (Inr bs, PROC_MEM)
      | Inl e \<Rightarrow> if denied e then (peek_read k m a n [], PEEK_POKE) else (Inl e, PROC_MEM))"
| "transfer_read k m PROCESS_VM a n =
     (case vm_read k m a n of
        Inr bs \<Rightarrow> (Inr bs, PROCESS_VM)
      | Inl e \<Rightarrow> if \<not> denied e then (Inl e, PROCESS_VM)
                else (case pm_read k m a n of
                        Inr bs \<Rightarrow> (Inr bs, PROC_MEM)
                      | Inl e \<Rightarrow> if denied e then (peek_read k m a n [], PEEK_POKE) else (Inl e, PROC_MEM)))"

fun transfer_write :: "kmem \<Rightarrow> mem \<Rightarrow> guest_method \<Rightarrow> u64 \<Rightarrow> u8 list \<Rightarrow> (int + nat \<times> mem) \<times> guest_method" where
  "transfer_write k m PEEK_POKE a bs = (poke_write k m a bs 0, PEEK_POKE)"
| "transfer_write k m PROC_MEM a bs =
     (case pm_write k m a bs of
        Inr r \<Rightarrow> (Inr r, PROC_MEM)
      | Inl e \<Rightarrow> if denied e then (poke_write k m a bs 0, PEEK_POKE) else (Inl e, PROC_MEM))"
| "transfer_write k m PROCESS_VM a bs =
     (case vm_write k m a bs of
        Inr r \<Rightarrow> (Inr r, PROCESS_VM)
      | Inl e \<Rightarrow> if \<not> denied e then (Inl e, PROCESS_VM)
                else (case pm_write k m a bs of
                        Inr r \<Rightarrow> (Inr r, PROC_MEM)
                      | Inl e \<Rightarrow> if denied e then (poke_write k m a bs 0, PEEK_POKE) else (Inl e, PROC_MEM)))"

text \<open>\<^verbatim>\<open>guest_write\<close>'s result: success is a complete transfer.\<close>

definition guest_write :: "kmem \<Rightarrow> mem \<Rightarrow> guest_method \<Rightarrow> u64 \<Rightarrow> u8 list \<Rightarrow> bool \<times> mem \<times> guest_method" where
  "guest_write k m md a bs =
     (case transfer_write k m md a bs of
        (Inl e, md') \<Rightarrow> (False, m, md')
      | (Inr (c, m'), md') \<Rightarrow> (c = length bs, m', md'))"

text \<open>\<^verbatim>\<open>guest_read_str\<close> over a reading function \<open>rd\<close>, the \<^verbatim>\<open>guest_read\<close> it calls: \<open>have\<close> bytes without a
  NUL are in \<open>buf\<close>. \<open>None\<close> is the result -1, \<open>Some s\<close> the C string left in the buffer.\<close>

function read_str :: "(u64 \<Rightarrow> nat \<Rightarrow> int + u8 list) \<Rightarrow> u64 \<Rightarrow> nat \<Rightarrow> u8 list \<Rightarrow> string option" where
  "read_str rd a sz buf =
     (let have = length buf;
          fin = (if have = 0 then None else Some (bytes_str buf))
      in if have + 1 < sz then
           let want = min (sz - 1 - have) 128
           in (case rd (a + of_nat have) want of
                 Inl e \<Rightarrow> fin
               | Inr bs \<Rightarrow>
                   if bs = [] then fin
                   else if 0 \<in> set bs then Some (bytes_str (buf @ takeWhile (\<lambda>b. b \<noteq> 0) bs))
                   else if length bs < want then Some (bytes_str (buf @ bs))
                   else read_str rd a sz (buf @ bs))
         else fin)"
  by pat_completeness auto
termination
  by (relation "measure (\<lambda>(rd, a, sz, buf). sz - length buf)") auto

declare read_str.simps [simp del]

definition guest_read_str :: "(u64 \<Rightarrow> nat \<Rightarrow> int + u8 list) \<Rightarrow> u64 \<Rightarrow> nat \<Rightarrow> string option" where
  "guest_read_str rd a sz = read_str rd a sz []"

subsection \<open>Reading and writing a memory\<close>

lemma length_mread: "length (mread m a n) \<le> n"
  by (induction m a n rule: mread.induct) (auto split: option.split)

lemma mread_append:
  "length (mread m a j) = j \<Longrightarrow> mread m a (j + k) = mread m a j @ mread m (a + of_nat j) k"
proof (induction j arbitrary: a)
  case (Suc j)
  then obtain b where "m a = Some b" by (cases "m a") auto
  with Suc show ?case by (simp add: ac_simps)
qed simp

lemma mread_short: "length (mread m a j) < j \<Longrightarrow> mread m a (j + k) = mread m a j"
  by (induction j arbitrary: a) (auto split: option.splits)

lemma mread_full_iff: "length (mread m a n) = n \<longleftrightarrow> (\<forall>i < n. m (a + of_nat i) \<noteq> None)"
proof (induction n arbitrary: a)
  case (Suc n)
  have "(\<forall>i < Suc n. m (a + of_nat i) \<noteq> None) \<longleftrightarrow> m a \<noteq> None \<and> (\<forall>i < n. m (a + 1 + of_nat i) \<noteq> None)"
    by (simp add: All_less_Suc2 ac_simps)
  then show ?case using Suc [of "a + 1"] by (cases "m a") auto
qed simp

lemma mread_map: "(\<forall>i < n. m (a + of_nat i) \<noteq> None) \<Longrightarrow>
  mread m a n = map (\<lambda>i. the (m (a + of_nat i))) [0..<n]"
proof (induction n arbitrary: a)
  case (Suc n)
  then obtain b where "m a = Some b" by fastforce
  moreover have "mread m (a + 1) n = map (\<lambda>i. the (m (a + 1 + of_nat i))) [0..<n]"
    using Suc.prems by (intro Suc.IH) (force simp: All_less_Suc2 ac_simps)
  moreover have "[0..<Suc n] = 0 # map Suc [0..<n]" by (simp add: map_Suc_upt upt_conv_Cons)
  ultimately show ?case by (simp add: ac_simps del: upt_Suc)
qed simp

lemma mread_prefix: "j \<le> n \<Longrightarrow> \<exists>t. mread m a n = mread m a j @ t"
proof -
  assume "j \<le> n"
  then obtain k where "n = j + k" by (auto simp: le_iff_add)
  then show ?thesis
    using mread_append [of m a j k] mread_short [of m a j k] length_mread [of m a j]
    by (cases "length (mread m a j) = j") (auto intro: exI [of _ "[]"])
qed

lemma mread_Nil_iff: "mread m a n = [] \<longleftrightarrow> n = 0 \<or> m a = None"
  by (cases n) (auto split: option.split)

text \<open>What a string read should give: the bytes before the first NUL of the mapped prefix.\<close>

definition str_at :: "mem \<Rightarrow> u64 \<Rightarrow> nat \<Rightarrow> string option" where
  "str_at m a sz =
     (let bs = mread m a (sz - 1)
      in if bs = [] then None else Some (bytes_str (takeWhile (\<lambda>b. b \<noteq> 0) bs)))"

text \<open>The contract of a reading method on the memories it can serve (\<open>ok\<close>): it returns the mapped
  prefix of the range, and fails only when that is empty.\<close>

locale read_access =
  fixes rd :: "mem \<Rightarrow> u64 \<Rightarrow> nat \<Rightarrow> int + u8 list"
    and ok :: "mem \<Rightarrow> bool"
  assumes rd_bytes: "ok m \<Longrightarrow> rd m a n = Inr bs \<Longrightarrow> bs = mread m a n"
    and rd_error: "ok m \<Longrightarrow> rd m a n = Inl e \<Longrightarrow> mread m a n = [] \<and> 0 < n"
begin

lemma read_str_step:
  assumes ok: "ok m" and sz: "length buf < sz" and buf: "mread m a (length buf) = buf" "0 \<notin> set buf"
    and rec: "\<And>r. length (buf @ r) < sz \<Longrightarrow> mread m a (length (buf @ r)) = buf @ r \<Longrightarrow>
      0 \<notin> set (buf @ r) \<Longrightarrow> r \<noteq> [] \<Longrightarrow> read_str (rd m) a sz (buf @ r) = str_at m a sz"
  shows "read_str (rd m) a sz buf = str_at m a sz"
proof -
  define h where "h = length buf"
  define rest where "rest = mread m (a + of_nat h) (sz - 1 - h)"
  have all: "mread m a (sz - 1) = buf @ rest"
    using mread_append [of m a h "sz - 1 - h"] buf sz by (simp add: h_def rest_def)
  have tw: "takeWhile (\<lambda>b. b \<noteq> 0) (buf @ xs) = buf @ takeWhile (\<lambda>b. b \<noteq> 0) xs" for xs
    using buf(2) by (induction buf) auto
  have strat: "str_at m a sz =
      (if buf @ rest = [] then None else Some (bytes_str (buf @ takeWhile (\<lambda>b. b \<noteq> 0) rest)))"
    by (simp only: str_at_def Let_def all tw)
  show ?thesis
  proof (cases "h + 1 < sz")
    case False
    then have "rest = []" using sz by (simp add: rest_def h_def)
    with False show ?thesis by (subst read_str.simps) (simp add: strat Let_def h_def)
  next
    case True
    define want where "want = min (sz - 1 - h) 128"
    have want: "0 < want" "want \<le> sz - 1 - h" using True by (auto simp: want_def)
    define r where "r = mread m (a + of_nat h) want"
    obtain t where t: "rest = r @ t" using mread_prefix [OF want(2)] by (auto simp: rest_def r_def)
    have emp: "rest = []" if "r = []"
      using that want by (auto simp: r_def rest_def mread_Nil_iff)
    have short: "rest = r" if "length r < want"
      using mread_short [of m "a + of_nat h" want "sz - 1 - h - want"] that want(2) by (simp add: r_def rest_def)
    have unf: "read_str (rd m) a sz buf =
      (if r = [] then if h = 0 then None else Some (bytes_str buf)
       else if 0 \<in> set r then Some (bytes_str (buf @ takeWhile (\<lambda>b. b \<noteq> 0) r))
       else if length r < want then Some (bytes_str (buf @ r)) else read_str (rd m) a sz (buf @ r))"
    proof -
      have rdv: "rd m (a + of_nat h) want = Inr r \<or> (\<exists>e. rd m (a + of_nat h) want = Inl e) \<and> r = []"
        using rd_bytes [OF ok] rd_error [OF ok] unfolding r_def
        by (cases "rd m (a + of_nat h) want") blast+
      have "read_str (rd m) a sz buf = (case rd m (a + of_nat h) want of
           Inl e \<Rightarrow> if h = 0 then None else Some (bytes_str buf)
         | Inr bs \<Rightarrow> if bs = [] then if h = 0 then None else Some (bytes_str buf)
             else if 0 \<in> set bs then Some (bytes_str (buf @ takeWhile (\<lambda>b. b \<noteq> 0) bs))
             else if length bs < want then Some (bytes_str (buf @ bs)) else read_str (rd m) a sz (buf @ bs))"
        using True unfolding read_str.simps [of "rd m" a sz buf] Let_def h_def [symmetric] want_def [symmetric]
        by (simp only: if_True)
      with rdv show ?thesis by (elim disjE conjE exE) simp_all
    qed
    have lr: "length r \<le> want" using length_mread by (simp add: r_def)
    have full: "mread m a (length (buf @ r)) = buf @ r" if "length r = want"
      using mread_append [of m a h want] buf(1) that by (simp add: h_def r_def)
    consider "r = []" | "r \<noteq> []" "0 \<in> set r" | "r \<noteq> []" "0 \<notin> set r" "length r < want"
      | "r \<noteq> []" "0 \<notin> set r" "length r = want" using lr by linarith
    then show ?thesis
    proof cases
      case 1
      then show ?thesis using emp by (simp add: unf strat h_def)
    next
      case 2
      then have "takeWhile (\<lambda>b. b \<noteq> 0) (r @ t) = takeWhile (\<lambda>b. b \<noteq> 0) r" by (auto intro: takeWhile_append1)
      with 2 show ?thesis by (simp add: unf strat t)
    next
      case 3
      then have "takeWhile (\<lambda>b. b \<noteq> 0) r = r" by (auto simp: takeWhile_eq_all_conv)
      with 3 show ?thesis by (simp add: unf strat short takeWhile_eq_all_conv [THEN iffD2])
    next
      case 4
      have "length (buf @ r) < sz" using 4 want True by (simp add: h_def)
      with 4 show ?thesis using rec [of r] full buf(2) by (simp add: unf)
    qed
  qed
qed

lemma read_str_spec:
  assumes "ok m" and "length buf < sz" and "mread m a (length buf) = buf" and "0 \<notin> set buf"
  shows "read_str (rd m) a sz buf = str_at m a sz"
  using assms
proof (induction "sz - length buf" arbitrary: buf rule: less_induct)
  case less
  show ?case
  proof (rule read_str_step [OF less.prems])
    fix r assume r: "length (buf @ r) < sz" "mread m a (length (buf @ r)) = buf @ r" "0 \<notin> set (buf @ r)" "r \<noteq> []"
    have "sz - length (buf @ r) < sz - length buf" using r(1,4) by (cases r) auto
    then show "read_str (rd m) a sz (buf @ r) = str_at m a sz"
      by (rule less.hyps [OF _ less.prems(1) r(1,2,3)])
  qed
qed

lemma guest_read_str_spec: "ok m \<Longrightarrow> 0 < sz \<Longrightarrow> guest_read_str (rd m) a sz = str_at m a sz"
  by (simp add: guest_read_str_def read_str_spec)

end

subsection \<open>The three methods meet the contract\<close>

text \<open>Memory comes in whole aligned words (pages, in fact), and PTRACE_PEEKDATA and PTRACE_POKEDATA
  move a mapped word and fail on an unmapped one.\<close>

definition set_word :: "mem \<Rightarrow> u64 \<Rightarrow> u8 list \<Rightarrow> mem" where
  "set_word m at cs = (\<lambda>x. if unat (x - at) < 8 then Some (cs ! unat (x - at)) else m x)"

definition words_mapped :: "mem \<Rightarrow> bool" where
  "words_mapped m \<longleftrightarrow> (\<forall>a. m a = None \<longleftrightarrow> m (align_down 3 a) = None)"

definition peek_ok :: "kmem \<Rightarrow> mem \<Rightarrow> bool" where
  "peek_ok k m \<longleftrightarrow> words_mapped m \<and>
     (\<forall>a. case peek k m (align_down 3 a) of
        Inl e \<Rightarrow> m (align_down 3 a) = None
      | Inr cell \<Rightarrow> m (align_down 3 a) \<noteq> None \<and> cell = mread m (align_down 3 a) 8)"

text \<open>The other two methods either refuse with an error that means \<open>not permitted\<close>, or transfer the
  mapped prefix, failing only when it is empty.\<close>

definition reads_ok :: "(mem \<Rightarrow> u64 \<Rightarrow> nat \<Rightarrow> int + u8 list) \<Rightarrow> mem \<Rightarrow> bool" where
  "reads_ok rd m \<longleftrightarrow> (\<forall>a n. case rd m a n of
     Inl e \<Rightarrow> denied e \<or> mread m a n = [] \<and> 0 < n | Inr bs \<Rightarrow> bs = mread m a n)"

definition kmem_ok :: "kmem \<Rightarrow> mem \<Rightarrow> bool" where
  "kmem_ok k m \<longleftrightarrow> peek_ok k m \<and> reads_ok (vm_read k) m \<and> reads_ok (pm_read k) m"

lemma align_down_off: "align_down 3 a + of_nat (word_off a) = a"
  by (simp add: word_off_def)

lemma align_in_word:
  assumes "i < 8" shows "align_down 3 (align_down 3 a + of_nat i) = align_down 3 a"
proof -
  let ?at = "align_down 3 a"
  have at: "unat ?at = unat a div 8 * 8"
    using minus_mod_eq_div_mult [of "unat a" 8] by (simp add: unat_align_down)
  have "unat a < 2 ^ 64" using unsigned_less [of a, where 'a = nat] by simp
  then have "unat a div 8 < 2 ^ 61" by simp
  then have "unat a div 8 * 8 + i < 2 ^ 64" using assms by simp
  then have u: "unat (?at + of_nat i) = unat a div 8 * 8 + i"
    using assms at by (simp add: unat_word_ariths unsigned_of_nat take_bit_nat_eq_self)
  then have "unat (align_down 3 (?at + of_nat i)) = unat ?at"
    unfolding unat_align_down [of 3 "?at + of_nat i"] u at using assms by simp
  then show ?thesis by (simp add: unsigned_word_eqI)
qed

lemma word_mapped:
  assumes "words_mapped m" and "m (align_down 3 a) \<noteq> None"
  shows "length (mread m (align_down 3 a) 8) = 8"
  using assms align_in_word [of _ a] unfolding mread_full_iff words_mapped_def by metis

lemma word_chunk:
  assumes ok: "words_mapped m" "m (align_down 3 a) \<noteq> None" and n: "n \<le> 8 - word_off a"
  shows "take n (drop (word_off a) (mread m (align_down 3 a) 8)) = mread m a n" "length (mread m a n) = n"
proof -
  let ?at = "align_down 3 a" and ?off = "word_off a"
  have off: "?off < 8" by simp
  have full: "length (mread m ?at 8) = 8" by (rule word_mapped [OF ok])
  have pre: "length (mread m ?at ?off) = ?off"
    using off full unfolding mread_full_iff by (metis less_trans)
  have "mread m ?at (?off + (8 - ?off)) = mread m ?at ?off @ mread m a (8 - ?off)"
    using mread_append [OF pre] align_down_off by metis
  then have d: "drop ?off (mread m ?at 8) = mread m a (8 - ?off)" using pre off by simp
  have l: "length (mread m a (8 - ?off)) = 8 - ?off"
    using d full by (metis length_drop)
  then show ln: "length (mread m a n) = n" using n unfolding mread_full_iff by simp
  obtain t where "mread m a (8 - ?off) = mread m a n @ t" using mread_prefix [OF n] by blast
  then show "take n (drop ?off (mread m ?at 8)) = mread m a n" using d ln by simp
qed

lemma peek_read_spec:
  assumes "peek_ok k m"
  shows "case peek_read k m a len acc of
      Inr bs \<Rightarrow> bs = acc @ mread m a len
    | Inl e \<Rightarrow> acc = [] \<and> mread m a len = [] \<and> 0 < len"
proof (induction len arbitrary: a acc rule: less_induct)
  case (less len)
  let ?at = "align_down 3 a" and ?off = "word_off a"
  define chunk where "chunk = min (8 - ?off) len"
  have wm: "words_mapped m" using assms by (simp add: peek_ok_def)
  show ?case
  proof (cases "len = 0")
    case True
    then show ?thesis by (simp add: peek_read.simps)
  next
    case False
    show ?thesis
    proof (cases "peek k m ?at")
      case (Inl e)
      then have "m a = None" using assms wm unfolding peek_ok_def words_mapped_def
        by (metis (mono_tags, lifting) sum.case(1))
      then have "mread m a len = []" by (simp add: mread_Nil_iff)
      with Inl False show ?thesis by (subst peek_read.simps) (simp add: Let_def)
    next
      case (Inr cell)
      then have c: "m ?at \<noteq> None" "cell = mread m ?at 8"
        using assms unfolding peek_ok_def by (metis (mono_tags, lifting) sum.case(2))+
      have ch: "0 < chunk" "chunk \<le> len" "chunk \<le> 8 - ?off"
        using False word_off_less [of a] by (auto simp: chunk_def)
      note wc = word_chunk [OF wm c(1) ch(3)]
      have "mread m a len = mread m a chunk @ mread m (a + of_nat chunk) (len - chunk)"
        using mread_append [OF wc(2), of "len - chunk"] ch by simp
      moreover have "peek_read k m a len acc = peek_read k m (a + of_nat chunk) (len - chunk) (acc @ mread m a chunk)"
        using False Inr wc by (subst peek_read.simps) (simp add: Let_def chunk_def [symmetric] c(2))
      moreover have "mread m a chunk \<noteq> []" using wc(2) ch(1) by auto
      ultimately show ?thesis
        using less.IH [where y = "len - chunk" and a = "a + of_nat chunk" and acc = "acc @ mread m a chunk"] ch
        by (auto split: sum.splits)
    qed
  qed
qed

interpretation peek: read_access "\<lambda>m a n. peek_read k m a n []" "peek_ok k" for k
proof
  show "peek_ok k m \<Longrightarrow> peek_read k m a n [] = Inr bs \<Longrightarrow> bs = mread m a n" for m a n bs
    using peek_read_spec [where k = k and m = m and a = a and len = n and acc = "[]"] by simp
  show "peek_ok k m \<Longrightarrow> peek_read k m a n [] = Inl e \<Longrightarrow> mread m a n = [] \<and> 0 < n" for m a n e
    using peek_read_spec [where k = k and m = m and a = a and len = n and acc = "[]"] by simp
qed

lemma transfer_read_spec:
  assumes "kmem_ok k m"
  shows "case fst (transfer_read k m md a n) of
      Inr bs \<Rightarrow> bs = mread m a n | Inl e \<Rightarrow> mread m a n = [] \<and> 0 < n"
proof -
  have p: "case peek_read k m a n [] of Inr bs \<Rightarrow> bs = mread m a n | Inl e \<Rightarrow> mread m a n = [] \<and> 0 < n"
    using peek_read_spec [where k = k and m = m and a = a and len = n and acc = "[]"] assms by (auto simp: kmem_ok_def split: sum.splits)
  have q: "case pm_read k m a n of Inl e \<Rightarrow> denied e \<or> mread m a n = [] \<and> 0 < n | Inr bs \<Rightarrow> bs = mread m a n"
    and v: "case vm_read k m a n of Inl e \<Rightarrow> denied e \<or> mread m a n = [] \<and> 0 < n | Inr bs \<Rightarrow> bs = mread m a n"
    using assms by (simp_all add: kmem_ok_def reads_ok_def)
  show ?thesis using p q v by (cases md) (auto split: sum.splits)
qed

text \<open>The method may differ from one chunk to the next (\<open>md\<close>).\<close>

interpretation tr: read_access "\<lambda>m a n. fst (transfer_read k m (md a n) a n)" "kmem_ok k" for k md
proof
  show "kmem_ok k m \<Longrightarrow> fst (transfer_read k m (md a n) a n) = Inr bs \<Longrightarrow> bs = mread m a n" for m a n bs
    using transfer_read_spec [where k = k and m = m and md = "md a n" and a = a and n = n] by simp
  show "kmem_ok k m \<Longrightarrow> fst (transfer_read k m (md a n) a n) = Inl e \<Longrightarrow> mread m a n = [] \<and> 0 < n" for m a n e
    using transfer_read_spec [where k = k and m = m and md = "md a n" and a = a and n = n] by simp
qed

text \<open>The access the handlers use: one that succeeds whenever anything is mapped. By
  \<open>transfer_read_spec\<close> it is what \<^verbatim>\<open>guest_read\<close> transfers, whichever method ended up in use.\<close>

definition gread :: "mem \<Rightarrow> u64 \<Rightarrow> nat \<Rightarrow> int + u8 list" where
  "gread m a n = (if 0 < n \<and> mread m a n = [] then Inl EFAULT else Inr (mread m a n))"

interpretation gr: read_access gread "\<lambda>m. True"
  by standard (auto simp: gread_def split: if_splits)

lemmas read_str_at = gr.guest_read_str_spec [OF TrueI]

subsection \<open>Writing\<close>

lemma mwrite_frame:
  "mwrite m a bs = (c, m') \<Longrightarrow> (\<forall>i < length bs. x \<noteq> a + of_nat i) \<Longrightarrow> m' x = m x"
proof (induction m a bs arbitrary: c m' rule: mwrite.induct)
  case (2 m a b bs)
  show ?case
  proof (cases "m a")
    case None
    then show ?thesis using 2 by simp
  next
    case (Some y)
    obtain d m'' where r: "mwrite (m(a \<mapsto> b)) (a + 1) bs = (d, m'')" by fastforce
    have x: "x \<noteq> a" "\<forall>i < length bs. x \<noteq> a + 1 + of_nat i"
      using 2(3) by (auto simp: All_less_Suc2 ac_simps)
    then show ?thesis using 2(1) [OF Some r] 2(2) Some r by simp
  qed
qed simp

lemma mwrite_mapped: "mwrite m a bs = (c, m') \<Longrightarrow> m' x = None \<longleftrightarrow> m x = None"
proof (induction m a bs arbitrary: c m' rule: mwrite.induct)
  case (2 m a b bs)
  show ?case
  proof (cases "m a")
    case None
    then show ?thesis using 2 by simp
  next
    case (Some y)
    obtain d m'' where r: "mwrite (m(a \<mapsto> b)) (a + 1) bs = (d, m'')" by fastforce
    then show ?thesis using 2(1) [OF Some r] 2(2) Some r by auto
  qed
qed simp

lemma of_nat_less_neq: "i < 2 ^ 64 \<Longrightarrow> 0 < i \<Longrightarrow> (a :: u64) + of_nat i \<noteq> a"
proof
  assume i: "i < 2 ^ 64" "0 < i" "a + of_nat i = a"
  then have "(of_nat i :: u64) = 0" by simp
  moreover have "unat (of_nat i :: u64) = i" using i(1) by (simp add: unsigned_of_nat take_bit_nat_eq_self)
  ultimately show False using i(2) by simp
qed

lemma mwrite_ok:
  "(\<forall>i < length bs. m (a + of_nat i) \<noteq> None) \<Longrightarrow> length bs \<le> 2 ^ 64 \<Longrightarrow>
   \<exists>m'. mwrite m a bs = (length bs, m') \<and> mread m' a (length bs) = bs"
proof (induction bs arbitrary: m a)
  case (Cons b bs)
  have mapped: "m a \<noteq> None" "\<forall>i < length bs. m (a + 1 + of_nat i) \<noteq> None"
    using Cons.prems(1) by (auto simp: All_less_Suc2 ac_simps)
  then have "\<forall>i < length bs. (m(a \<mapsto> b)) (a + 1 + of_nat i) \<noteq> None" by simp
  then obtain m' where m': "mwrite (m(a \<mapsto> b)) (a + 1) bs = (length bs, m')" "mread m' (a + 1) (length bs) = bs"
    using Cons.IH [of "m(a \<mapsto> b)" "a + 1"] Cons.prems(2) by (auto simp del: fun_upd_apply)
  have "\<forall>i < length bs. a \<noteq> a + 1 + of_nat i"
  proof (intro allI impI)
    fix i assume "i < length bs"
    then show "a \<noteq> a + 1 + of_nat i"
      using of_nat_less_neq [of "Suc i" a] Cons.prems(2) by (auto simp: ac_simps)
  qed
  then have "m' a = Some b" using mwrite_frame [OF m'(1)] by simp
  then show ?case using m' mapped(1) by auto
qed simp

text \<open>\<open>apart a j b k\<close>: the ranges of \<open>j\<close> bytes at \<open>a\<close> and \<open>k\<close> bytes at \<open>b\<close> share no address.\<close>

definition apart :: "u64 \<Rightarrow> nat \<Rightarrow> u64 \<Rightarrow> nat \<Rightarrow> bool" where
  "apart a j b k \<longleftrightarrow> (\<forall>x < j. \<forall>y < k. a + of_nat x \<noteq> b + of_nat y)"

lemma mread_cong: "(\<forall>i < n. m (a + of_nat i) = m' (a + of_nat i)) \<Longrightarrow> mread m a n = mread m' a n"
proof (induction n arbitrary: a)
  case (Suc n)
  then have "m a = m' a" "mread m (a + 1) n = mread m' (a + 1) n"
    by (auto simp: All_less_Suc2 ac_simps intro!: Suc.IH)
  then show ?case by (simp split: option.split)
qed simp

lemma mread_mwrite_apart:
  "mwrite m a bs = (c, m') \<Longrightarrow> apart b n a (length bs) \<Longrightarrow> mread m' b n = mread m b n"
  by (rule mread_cong) (auto simp: apart_def intro: mwrite_frame)

text \<open>A written C string reads back.\<close>

lemma of_char_nonzero: "c \<noteq> NUL \<Longrightarrow> (of_char c :: u8) \<noteq> 0"
proof
  assume c: "c \<noteq> NUL" "(of_char c :: u8) = 0"
  then have "of_char c = (of_char NUL :: nat)" using unat_of_char [of c] by simp
  then show False using c(1) by (simp only: of_char_eq_iff)
qed

lemma takeWhile_str_bytes:
  "NUL \<notin> set s \<Longrightarrow> takeWhile (\<lambda>b. b \<noteq> 0) (str_bytes s @ 0 # t) = str_bytes s"
  by (induction s) (auto simp: str_bytes_def of_char_nonzero)

lemma length_str_bytes [simp]: "length (str_bytes s) = length s"
  by (simp add: str_bytes_def)

lemma takeWhile_str_bytes_all: "NUL \<notin> set s \<Longrightarrow> takeWhile (\<lambda>b. b \<noteq> 0) (str_bytes s) = str_bytes s"
  by (induction s) (auto simp: str_bytes_def of_char_nonzero)

lemma str_at_written:
  assumes w: "mread m a (length s + 1) = str_bytes s @ [0]" and "NUL \<notin> set s" and "length s < sz" "1 < sz"
  shows "str_at m a sz = Some s"
proof (cases "length s + 1 < sz")
  case True
  then have "length s + 1 \<le> sz - 1" by simp
  from mread_prefix [OF this, of m a] obtain t where t: "mread m a (sz - 1) = str_bytes s @ 0 # t"
    unfolding assms(1) by auto
  show ?thesis unfolding str_at_def Let_def t using takeWhile_str_bytes [OF assms(2)] by simp
next
  case False
  with assms(3,4) have sz: "sz - 1 = length s" and s: "s \<noteq> []" by auto
  obtain t where "str_bytes s @ [0] = mread m a (length s) @ t"
    using mread_prefix [of "length s" "length s + 1" m a] w by auto
  moreover have "length (mread m a (length s + 1)) = length s + 1" by (simp only: w) simp
  then have "length (mread m a (length s)) = length s" unfolding mread_full_iff by simp
  ultimately have "str_bytes s = mread m a (length s)" by simp
  then have r: "mread m a (sz - 1) = str_bytes s" unfolding sz by simp
  have "str_bytes s \<noteq> []" using s by (simp add: str_bytes_def)
  then show ?thesis unfolding str_at_def Let_def r takeWhile_str_bytes_all [OF assms(2)] by simp
qed

lemma mwrite_fun:
  assumes mapped: "\<forall>i < length bs. m (a + of_nat i) \<noteq> None" and len: "length bs \<le> 2 ^ 64"
  shows "mwrite m a bs = (length bs, \<lambda>x. if unat (x - a) < length bs then Some (bs ! unat (x - a)) else m x)"
proof -
  obtain m' where m': "mwrite m a bs = (length bs, m')" "mread m' a (length bs) = bs"
    using mwrite_ok [OF assms] by blast
  have all: "\<forall>i < length bs. m' (a + of_nat i) \<noteq> None" using m'(2) unfolding mread_full_iff [symmetric] by simp
  have bs_map: "bs = map (\<lambda>i. the (m' (a + of_nat i))) [0..<length bs]"
    using m'(2) mread_map [OF all] by simp
  have "m' x = (if unat (x - a) < length bs then Some (bs ! unat (x - a)) else m x)" for x
  proof (cases "unat (x - a) < length bs")
    case True
    have x: "a + of_nat (unat (x - a)) = x" by simp
    have "bs ! unat (x - a) = the (m' (a + of_nat (unat (x - a))))"
      using True arg_cong [OF bs_map, of "\<lambda>l. l ! unat (x - a)"] by simp
    then show ?thesis using True all x by (metis option.collapse)
  next
    case False
    have "\<forall>i < length bs. x \<noteq> a + of_nat i"
    proof (intro allI impI notI)
      fix i assume i: "i < length bs" "x = a + of_nat i"
      then have "unat (x - a) = i" using len by (simp add: unsigned_of_nat take_bit_nat_eq_self)
      with i False show False by simp
    qed
    then show ?thesis using mwrite_frame [OF m'(1)] False by simp
  qed
  then show ?thesis using m'(1) by auto
qed

lemma unat_minus_small:
  fixes d :: u64
  assumes "off < 8"
  shows "off \<le> unat d \<Longrightarrow> unat (d - of_nat off) = unat d - off"
    and "unat d < off \<Longrightarrow> 8 \<le> unat (d - of_nat off)"
proof -
  have o: "unat (of_nat off :: u64) = off" using assms by (simp add: unsigned_of_nat take_bit_nat_eq_self)
  show "off \<le> unat d \<Longrightarrow> unat (d - of_nat off) = unat d - off"
    using unat_sub [of "of_nat off" d] by (simp add: word_le_nat_alt o)
  assume d: "unat d < off"
  then have "unat (d - of_nat off) = unat d + 2 ^ 64 - off"
    by (simp add: unat_sub_if_size word_size word_le_nat_alt o)
  then show "8 \<le> unat (d - of_nat off)" using assms by simp
qed

lemma mwrite_word:
  assumes ok: "words_mapped m" "m (align_down 3 a) \<noteq> None" and n: "length bs \<le> 8 - word_off a"
    and cell: "cell = mread m (align_down 3 a) 8"
  shows "mwrite m a bs =
    (length bs, set_word m (align_down 3 a) (take (word_off a) cell @ bs @ drop (word_off a + length bs) cell))"
proof -
  let ?at = "align_down 3 a" and ?off = "word_off a" and ?n = "length bs"
  have full: "length cell = 8" using word_mapped [OF ok] cell by simp
  have map: "\<forall>i < ?n. m (a + of_nat i) \<noteq> None" 
    using word_chunk(2) [OF ok n] unfolding mread_full_iff .
  have at: "\<forall>i < 8. m (?at + of_nat i) \<noteq> None" using word_mapped [OF ok] unfolding mread_full_iff .
  have celln: "Some (cell ! i) = m (?at + of_nat i)" if "i < 8" for i
    using that mread_map [OF at] at cell by auto
  have "(if unat (x - a) < ?n then Some (bs ! unat (x - a)) else m x) =
    set_word m ?at (take ?off cell @ bs @ drop (?off + ?n) cell) x" for x
  proof -
    define d where "d = x - ?at"
    have xa: "x - a = d - of_nat ?off" using align_down_off [of a] by (simp add: d_def algebra_simps)
    have x: "x = ?at + of_nat (unat d)" by (simp add: d_def)
    note um = unat_minus_small [OF word_off_less [of a], of d]
    consider "unat d < ?off" | "?off \<le> unat d" "unat d < ?off + ?n" | "?off + ?n \<le> unat d" "unat d < 8"
      | "8 \<le> unat d" by linarith
    then show ?thesis
    proof cases
      case 1
      have u: "?n \<le> unat (x - a)" using um(2) [OF 1] n unfolding xa by linarith
      moreover have "unat d < 8" using 1 word_off_less [of a] by linarith
      ultimately show ?thesis using 1 celln [of "unat d"] x full
        by (simp add: set_word_def d_def [symmetric] nth_append)
    next
      case 2
      then have "unat (x - a) = unat d - ?off" using um(1) xa by simp
      moreover have "unat d < 8" "unat d - ?off < ?n" using 2 n by linarith+
      ultimately show ?thesis using 2 full by (simp add: set_word_def d_def [symmetric] nth_append)
    next
      case 3
      then have "unat (x - a) = unat d - ?off" using um(1) xa by simp
      moreover have "\<not> unat d - ?off < ?n" using 3 by linarith
      ultimately show ?thesis using 3 full celln [of "unat d"] x
        by (simp add: set_word_def d_def [symmetric] nth_append)
    next
      case 4
      then have "unat (x - a) = unat d - ?off" using um(1) xa word_off_less [of a] by simp
      moreover have "\<not> unat d - ?off < ?n" using 4 n by linarith
      ultimately show ?thesis using 4 n by (simp add: set_word_def d_def [symmetric])
    qed
  qed
  then show ?thesis using mwrite_fun [OF map] n by auto
qed

lemma mwrite_append:
  "mwrite m a xs = (length xs, m') \<Longrightarrow>
   mwrite m a (xs @ ys) = (length xs + fst (mwrite m' (a + of_nat (length xs)) ys), snd (mwrite m' (a + of_nat (length xs)) ys))"
proof (induction xs arbitrary: m a)
  case (Cons x xs)
  then obtain y where y: "m a = Some y" by (cases "m a") auto
  have "mwrite (m(a \<mapsto> x)) (a + 1) xs = (length xs, m')"
    using Cons.prems y by (auto split: prod.splits)
  from Cons.IH [OF this] y show ?case
    by (simp add: ac_simps del: fun_upd_apply split: prod.split)
qed simp

lemma words_mapped_set_word:
  assumes "words_mapped m" and "m (align_down 3 a) \<noteq> None"
  shows "words_mapped (set_word m (align_down 3 a) cs)"
proof -
  have "set_word m (align_down 3 a) cs x = None \<longleftrightarrow> m x = None" for x
  proof -
    have "m x \<noteq> None" if "unat (x - align_down 3 a) < 8"
    proof -
      have "x = align_down 3 a + of_nat (unat (x - align_down 3 a))" by simp
      then show ?thesis using word_mapped [OF assms] that unfolding mread_full_iff by metis
    qed
    then show ?thesis by (auto simp: set_word_def)
  qed
  then show ?thesis using assms(1) by (simp add: words_mapped_def)
qed

text \<open>The kernel serves every such memory, and what it pokes is there.\<close>

definition kmem_laws :: "kmem \<Rightarrow> bool" where
  "kmem_laws k \<longleftrightarrow> (\<forall>m. words_mapped m \<longrightarrow> kmem_ok k m \<and>
     (\<forall>a cs. length cs = 8 \<and> m (align_down 3 a) \<noteq> None \<longrightarrow>
        poke k m (align_down 3 a) cs = Inr (set_word m (align_down 3 a) cs)) \<and>
     (\<forall>wr \<in> {vm_write k, pm_write k}. \<forall>a bs. case wr m a bs of
        Inl e \<Rightarrow> denied e \<or> mwrite m a bs = (0, m) \<and> bs \<noteq> [] | Inr r \<Rightarrow> r = mwrite m a bs))"

lemma poke_write_spec:
  assumes k: "kmem_laws k" and "words_mapped m"
  shows "case poke_write k m a bs acc of
      Inr (c, m') \<Rightarrow> (c - acc, m') = mwrite m a bs \<and> acc \<le> c
    | Inl e \<Rightarrow> acc = 0 \<and> mwrite m a bs = (0, m) \<and> bs \<noteq> []"
  using assms(2)
proof (induction "length bs" arbitrary: m a bs acc rule: less_induct)
  case less
  let ?at = "align_down 3 a" and ?off = "word_off a"
  define chunk where "chunk = min (8 - ?off) (length bs)"
  have wm: "words_mapped m" by (rule less.prems)
  then have po: "peek_ok k m" using k by (simp add: kmem_laws_def kmem_ok_def)
  show ?case
  proof (cases "bs = []")
    case True
    then show ?thesis by (simp add: poke_write.simps)
  next
    case False
    show ?thesis
    proof (cases "peek k m ?at")
      case (Inl e)
      then have "m a = None" using po wm unfolding peek_ok_def words_mapped_def
        by (metis (mono_tags, lifting) sum.case(1))
      then have "mwrite m a bs = (0, m)" using False by (cases bs) auto
      with Inl False show ?thesis by (subst poke_write.simps) (simp add: Let_def)
    next
      case (Inr cell)
      then have c: "m ?at \<noteq> None" "cell = mread m ?at 8"
        using po unfolding peek_ok_def by (metis (mono_tags, lifting) sum.case(2))+
      have lc: "length cell = 8" using word_mapped [OF wm c(1)] c(2) by simp
      have ch: "0 < chunk" "chunk \<le> length bs" "chunk \<le> 8 - ?off"
        using False word_off_less [of a] by (auto simp: chunk_def)
      have lt: "length (take chunk bs) = chunk" using ch(2) by simp
      define cs where "cs = take ?off cell @ take chunk bs @ drop (?off + chunk) cell"
      define m1 where "m1 = set_word m ?at cs"
      have "length cs = 8" using lc lt ch by (simp add: cs_def)
      then have pk: "poke k m ?at cs = Inr m1"
        using k wm c(1) by (simp add: kmem_laws_def m1_def)
      have w: "mwrite m a (take chunk bs) = (chunk, m1)"
        using mwrite_word [OF wm c(1) _ c(2), of "take chunk bs"] lt ch(3) by (simp add: m1_def cs_def)
      have split: "mwrite m a bs = (chunk + fst (mwrite m1 (a + of_nat chunk) (drop chunk bs)),
          snd (mwrite m1 (a + of_nat chunk) (drop chunk bs)))"
        using mwrite_append [of m a "take chunk bs" m1 "drop chunk bs"] w lt by simp
      have rec: "poke_write k m a bs acc = poke_write k m1 (a + of_nat chunk) (drop chunk bs) (acc + chunk)"
        using False Inr pk
        by (subst poke_write.simps) (simp add: Let_def chunk_def [symmetric] cs_def [symmetric])
      have IH: "case poke_write k m1 (a + of_nat chunk) (drop chunk bs) (acc + chunk) of
          Inr (c, m') \<Rightarrow> (c - (acc + chunk), m') = mwrite m1 (a + of_nat chunk) (drop chunk bs) \<and> acc + chunk \<le> c
        | Inl e \<Rightarrow> acc + chunk = 0 \<and> mwrite m1 (a + of_nat chunk) (drop chunk bs) = (0, m1) \<and> drop chunk bs \<noteq> []"
        by (rule less.hyps) (use ch words_mapped_set_word [OF wm c(1)] in \<open>simp_all add: m1_def\<close>)
      show ?thesis
      proof (cases "poke_write k m1 (a + of_nat chunk) (drop chunk bs) (acc + chunk)")
        case (Inl e)
        with IH ch(1) show ?thesis by simp
      next
        case r: (Inr r)
        obtain d m2 where dm: "r = (d, m2)" by (cases r)
        with IH r have "(d - (acc + chunk), m2) = mwrite m1 (a + of_nat chunk) (drop chunk bs)" "acc + chunk \<le> d"
          by simp_all
        then have "mwrite m1 (a + of_nat chunk) (drop chunk bs) = (d - (acc + chunk), m2)" "acc + chunk \<le> d"
          by simp_all
        then show ?thesis unfolding rec r dm split by simp
      qed
    qed
  qed
qed

lemma transfer_write_spec:
  assumes k: "kmem_laws k" and wm: "words_mapped m"
  shows "case fst (transfer_write k m md a bs) of
      Inr r \<Rightarrow> r = mwrite m a bs | Inl e \<Rightarrow> mwrite m a bs = (0, m) \<and> bs \<noteq> []"
proof -
  have p: "case poke_write k m a bs 0 of Inr r \<Rightarrow> r = mwrite m a bs | Inl e \<Rightarrow> mwrite m a bs = (0, m) \<and> bs \<noteq> []"
    using poke_write_spec [OF assms, where a = a and bs = bs and acc = 0] by (auto split: sum.splits prod.splits)
  have laws: "\<forall>wr \<in> {vm_write k, pm_write k}. case wr m a bs of
      Inl e \<Rightarrow> denied e \<or> mwrite m a bs = (0, m) \<and> bs \<noteq> [] | Inr r \<Rightarrow> r = mwrite m a bs"
    using k wm by (simp add: kmem_laws_def)
  then have q: "case pm_write k m a bs of Inl e \<Rightarrow> denied e \<or> mwrite m a bs = (0, m) \<and> bs \<noteq> [] | Inr r \<Rightarrow> r = mwrite m a bs"
    and v: "case vm_write k m a bs of Inl e \<Rightarrow> denied e \<or> mwrite m a bs = (0, m) \<and> bs \<noteq> [] | Inr r \<Rightarrow> r = mwrite m a bs"
    by simp_all
  show ?thesis using p q v by (cases md) (auto split: sum.splits)
qed

text \<open>What a write leaves, as the handlers use it: whether everything was written, and the memory.\<close>

definition gwrite :: "mem \<Rightarrow> u64 \<Rightarrow> u8 list \<Rightarrow> bool \<times> mem" where
  "gwrite m a bs = (case mwrite m a bs of (c, m') \<Rightarrow> (c = length bs, m'))"

lemma guest_write_spec:
  assumes "kmem_laws k" and "words_mapped m"
  shows "(case guest_write k m md a bs of (ok, m', md') \<Rightarrow> (ok, m')) = gwrite m a bs"
  using transfer_write_spec [OF assms, where md = md and a = a and bs = bs]
  by (auto simp: guest_write_def gwrite_def split: sum.splits prod.splits)

lemma gwrite_fail_or_full: "gwrite m a bs = (True, m') \<Longrightarrow> mwrite m a bs = (length bs, m')"
  by (auto simp: gwrite_def split: prod.splits)

lemma mwrite_reads_back:
  assumes "mwrite m a bs = (length bs, m')" and "length bs \<le> 2 ^ 64"
  shows "mread m' a (length bs) = bs"
proof -
  have "\<forall>i < length bs. m (a + of_nat i) \<noteq> None"
    using assms(1)
  proof (induction bs arbitrary: m a)
    case (Cons b bs)
    obtain y where y: "m a = Some y" using Cons.prems by (cases "m a") auto
    then have w: "mwrite (m(a \<mapsto> b)) (a + 1) bs = (length bs, m')" using Cons.prems by (auto split: prod.splits)
    have "m (a + 1 + of_nat i) \<noteq> None" if "i < length bs" for i
    proof (cases "a + 1 + of_nat i = a")
      case True
      show ?thesis unfolding True y by simp
    next
      case False
      then show ?thesis using Cons.IH [OF w] that unfolding fun_upd_apply by metis
    qed
    then show ?case using y by (auto simp: All_less_Suc2 ac_simps)
  qed simp
  from mwrite_ok [OF this assms(2)] assms(1) show ?thesis by auto
qed

lemma gwrite_str:
  assumes "gwrite m a (str_bytes s @ [0]) = (True, m')" and "NUL \<notin> set s" and "length s < sz" "1 < sz"
    and "length s < 2 ^ 64"
  shows "str_at m' a sz = Some s"
  using mwrite_reads_back [OF gwrite_fail_or_full [OF assms(1)]] assms(2-5)
  by (intro str_at_written) simp_all

subsection \<open>Properties\<close>

text \<open>C19: every access method reads the same string. Whichever of the three methods the tracer is using
  at each step, permitted or refused and given up for the next, \<^verbatim>\<open>guest_read_str\<close> returns exactly
  the bytes of the mapped memory at the address up to the first NUL (or up to the buffer's end or
  the end of the mapping), and fails only when not even the first byte can be read.\<close>

theorem guest_read_str_exact:
  assumes "kmem_laws k" and "words_mapped m" and "0 < sz"
  shows "guest_read_str (\<lambda>a n. fst (transfer_read k m (md a n) a n)) a sz = str_at m a sz"
  using tr.guest_read_str_spec [of k m sz md a] assms by (simp add: kmem_laws_def)

text \<open>What the tracer writes into the guest reads back. For every method, writing a C string that
  fits the mapping succeeds, and reading a string at that address afterwards, by any method, gives
  exactly the string written.\<close>

theorem guest_write_read_roundtrip:
  assumes "kmem_laws k" and "words_mapped m" and "\<forall>i \<le> length s. m (a + of_nat i) \<noteq> None"
    and "NUL \<notin> set s" and "length s < sz" "1 < sz" and "length s < 2 ^ 64"
  shows "case guest_write k m md a (str_bytes s @ [0]) of (ok, m', md') \<Rightarrow>
    ok \<and> guest_read_str (\<lambda>a n. fst (transfer_read k m' (rdm a n) a n)) a sz = Some s"
proof -
  obtain m' where w: "mwrite m a (str_bytes s @ [0]) = (length (str_bytes s @ [0]), m')"
    using mwrite_ok [of "str_bytes s @ [0]" m a] assms(3,7) by auto
  then have g: "gwrite m a (str_bytes s @ [0]) = (True, m')" by (simp add: gwrite_def)
  have "words_mapped m'" using assms(2) mwrite_mapped [OF w] by (simp add: words_mapped_def)
  then have ok: "kmem_ok k m'" using assms(1) by (simp add: kmem_laws_def)
  obtain o' m2 md' where e: "guest_write k m md a (str_bytes s @ [0]) = (o', m2, md')" by (rule prod_cases3)
  then have "o' = True" "m2 = m'" using guest_write_spec [OF assms(1,2), of md a "str_bytes s @ [0]"] g by auto
  moreover have "guest_read_str (\<lambda>a n. fst (transfer_read k m' (rdm a n) a n)) a sz = Some s"
    using tr.guest_read_str_spec [OF ok, of sz rdm a] gwrite_str [OF g assms(4,5,6,7)] assms(5) by simp
  ultimately show ?thesis using e by simp
qed

text \<open>A kernel that forbids \<^verbatim>\<open>process_vm_readv\<close> and \<^verbatim>\<open>/proc/PID/mem\<close> (error EPERM) and serves only the
  word-at-a-time requests.\<close>

definition strict_kernel :: kmem where
  "strict_kernel = \<lparr>vm_read = \<lambda>m a n. Inl EPERM, vm_write = \<lambda>m a bs. Inl EPERM,
     pm_read = \<lambda>m a n. Inl EPERM, pm_write = \<lambda>m a bs. Inl EPERM,
     peek = \<lambda>m a. if m a = None then Inl EIO else Inr (mread m a 8),
     poke = \<lambda>m a cs. if m a = None then Inl EIO else Inr (set_word m a cs)\<rparr>"

lemma strict_kernel_laws: "kmem_laws strict_kernel"
  by (auto simp: kmem_laws_def kmem_ok_def peek_ok_def reads_ok_def strict_kernel_def denied_def errno_defs)

theorem guest_read_str_exact_witness:
  "guest_read_str (\<lambda>a n. fst (transfer_read strict_kernel (\<lambda>a. Some 0) PROCESS_VM a n)) 4096 4096 = Some []"
proof -
  have "words_mapped (\<lambda>a. Some 0)" by (simp add: words_mapped_def)
  moreover have "mread (\<lambda>a. Some 0) 4096 4095 = replicate 4095 0"
    by (subst mread_map) (auto simp: map_replicate_const)
  ultimately show ?thesis
    using guest_read_str_exact [OF strict_kernel_laws, of "\<lambda>a. Some 0" 4096 "\<lambda>_ _. PROCESS_VM" 4096]
    by (auto simp: str_at_def bytes_str_def replicate_eq_replicate intro: takeWhile_eq_Nil_iff [THEN iffD2])
qed

theorem guest_write_read_roundtrip_witness:
  "case guest_write strict_kernel (\<lambda>a. Some 0) PROCESS_VM 8190 (str_bytes ''/etc'' @ [0]) of (ok, m', md') \<Rightarrow>
    ok \<and> guest_read_str (\<lambda>a n. fst (transfer_read strict_kernel m' PEEK_POKE a n)) 8190 4096 = Some ''/etc''"
  by (rule guest_write_read_roundtrip [OF strict_kernel_laws, where rdm = "\<lambda>_ _. PEEK_POKE"])
     (simp_all add: words_mapped_def)

end
