(* ===== verification/Tracee.thy ===== *)
theory Tracee
  imports Arch Syscalls Guest Path Creds
begin

text \<open>
  \<^verbatim>\<open>tracee.h\<close> and what the handlers act on. \<open>tracee_t\<close> is the state kept per traced process. \<open>sys\<close>
  bundles what a handler can read and change: the session context, the tracee, the handler's copy of
  the registers (\<open>s_regs\<close>, the C variable \<^verbatim>\<open>regs\<close>), the registers the kernel holds for the process
  (\<open>s_kregs\<close>, changed by \<open>regs_set\<close>), the guest's memory, the host system and
  the static cache of \<^verbatim>\<open>exec.c\<close>. The host is its file
  system calls as functions, and the target's constants are in \<open>cfg\<close>. Byte order is little endian and
  a register is 64 bits wide, as on every 64-bit architecture of \<^verbatim>\<open>arch.h\<close> except s390x.
\<close>

record stat_t =
  st_dev :: u64
  st_ino :: u64
  st_uid :: u32
  st_gid :: u32
  st_mode :: u32

text \<open>\<open>h_read\<close> is the contents of a file that can be opened, \<open>h_calloc\<close> whether memory is granted,
  \<open>h_errno\<close> the error left by a failed read of guest memory.\<close>

record host_t =
  h_readlink :: "string \<Rightarrow> string option"
  h_stat :: "string \<Rightarrow> stat_t option"
  h_lstat :: "string \<Rightarrow> stat_t option"
  h_realpath :: "string \<Rightarrow> string option"
  h_read :: "string \<Rightarrow> u8 list option"
  h_geteuid :: u32
  h_getegid :: u32
  h_calloc :: "nat \<Rightarrow> bool"
  h_errno :: "u64 \<Rightarrow> int"

record stat_layout =
  l_uid :: nat
  l_gid :: nat
  l_dev :: nat
  l_ino :: nat
  l_statx :: bool

record cfg =
  c_arch :: arch
  c_nr :: sysno_of
  c_lp64 :: bool
  c_O_NOFOLLOW :: u64
  c_stat_layout :: stat_layout

record tracee_t =
  t_pid :: int
  t_root :: string
  in_syscall :: bool
  awaiting_exit :: bool
  fresh :: bool
  logged :: bool
  t_sysno :: int
  last_entry :: int
  t_args :: "u64 list"
  t_creds :: creds_t
  scratch_top :: u64
  t_exe :: string
  pending_exe :: string
  chown_valid :: bool
  chown_dev :: u64
  chown_ino :: u64
  chown_cur_uid :: u32
  chown_cur_gid :: u32
  chown_uid :: u32
  chown_gid :: u32
  t_created :: string
  pending_root :: string
  mount_handled :: bool
  proc_link :: bool
  proc_link_exe :: bool

record sys =
  s_ctx :: emuroot_ctx
  s_tr :: tracee_t
  s_regs :: emuroot_regs_t
  s_kregs :: emuroot_regs_t
  s_mem :: mem
  s_host :: host_t
  s_cache :: "(string \<times> bool) list"

subsection \<open>Registers and guest memory of the stopped process\<close>

definition get_arg :: "cfg \<Rightarrow> sys \<Rightarrow> nat \<Rightarrow> u64" where
  "get_arg C s n = arg (c_arch C) (s_regs s) n"

definition set_arg :: "cfg \<Rightarrow> nat \<Rightarrow> u64 \<Rightarrow> sys \<Rightarrow> sys" where
  "set_arg C n v s = s\<lparr>s_regs := (s_regs s)(reg_arg (c_arch C) n := v)\<rparr>"

definition set_ret :: "cfg \<Rightarrow> u64 \<Rightarrow> sys \<Rightarrow> sys" where
  "set_ret C v s = s\<lparr>s_regs := (s_regs s)(r_ret (c_arch C) := v)\<rparr>"

text \<open>\<^verbatim>\<open>regs_set(t->pid, regs)\<close>. The handlers ignore its failure, which means the process is gone.\<close>

definition put_regs :: "cfg \<Rightarrow> sys \<Rightarrow> sys" where
  "put_regs C s = s\<lparr>s_kregs := (\<lambda>i. if i < n_regs (c_arch C) then s_regs s i else s_kregs s i)\<rparr>"

definition read_str_at :: "sys \<Rightarrow> u64 \<Rightarrow> nat \<Rightarrow> string option" where
  "read_str_at s a sz = guest_read_str (gread (s_mem s)) a sz"

lemma read_str_at_eq: "0 < sz \<Longrightarrow> read_str_at s a sz = str_at (s_mem s) a sz"
  by (simp add: read_str_at_def read_str_at)

definition write_at :: "u64 \<Rightarrow> u8 list \<Rightarrow> sys \<Rightarrow> bool \<times> sys" where
  "write_at a bs s = (case gwrite (s_mem s) a bs of (ok, m) \<Rightarrow> (ok, s\<lparr>s_mem := m\<rparr>))"

text \<open>Reading into a zeroed object: the little-endian value of the bytes that arrived.\<close>

fun le_word :: "u8 list \<Rightarrow> u64" where
  "le_word [] = 0"
| "le_word (b # bs) = ucast b OR push_bit 8 (le_word bs)"

definition le_bytes :: "nat \<Rightarrow> u64 \<Rightarrow> u8 list" where
  "le_bytes n w = map (\<lambda>i. ucast (drop_bit (8 * i) w)) [0..<n]"

definition upd_tr :: "(tracee_t \<Rightarrow> tracee_t) \<Rightarrow> sys \<Rightarrow> sys" where
  "upd_tr f s = s\<lparr>s_tr := f (s_tr s)\<rparr>"

text \<open>An int printed with \<^verbatim>\<open>%d\<close>.\<close>

definition dec_int :: "int \<Rightarrow> string" where
  "dec_int i = (if i < 0 then ''-'' @ dec (nat (- i)) else dec (nat i))"

definition is_sys :: "cfg \<Rightarrow> string \<Rightarrow> int \<Rightarrow> bool" where
  "is_sys C name sysno = is_nr (c_nr C) name sysno"

definition translate :: "sys \<Rightarrow> string \<Rightarrow> bool \<Rightarrow> nat \<Rightarrow> bool \<times> string" where
  "translate s guest follow outsz =
     emuroot_translate_path (s_ctx s) (h_readlink (s_host s)) (t_root (s_tr s)) guest follow outsz"

text \<open>A symbolic link read into a buffer of \<^verbatim>\<open>PATH_LEN\<close> bytes, \<open>None\<close> when \<^verbatim>\<open>readlink\<close> fails or the
  target is empty.\<close>

definition readlink_buf :: "sys \<Rightarrow> string \<Rightarrow> string option" where
  "readlink_buf s path =
     (case h_readlink (s_host s) path of
        None \<Rightarrow> None
      | Some l \<Rightarrow> if l = [] then None else Some (take (PATH_LEN - 1) l))"

subsection \<open>Scratch memory below the guest's stack\<close>

definition SCRATCH_MARGIN :: u64 where
  "SCRATCH_MARGIN = 512"

definition emuroot_scratch :: "tracee_t \<Rightarrow> u64 \<Rightarrow> u64 \<times> tracee_t" where
  "emuroot_scratch t len =
     (let addr = align_down 4 (scratch_top t - len)
      in if addr > scratch_top t then (0, t) else (addr, t\<lparr>scratch_top := addr\<rparr>))"

definition scratch :: "nat \<Rightarrow> sys \<Rightarrow> u64 \<times> sys" where
  "scratch len s = (case emuroot_scratch (s_tr s) (of_nat len) of (a, t) \<Rightarrow> (a, s\<lparr>s_tr := t\<rparr>))"

subsection \<open>Facts\<close>

lemma le_word_code [code]:
  "le_word [] = 0"
  "le_word (b # bs) = ucast b + 256 * le_word bs"
proof -
  have "ucast b AND push_bit 8 (le_word bs) = 0"
    by (rule bit_eqI) (auto simp: bit_simps dest: bit_imp_le_length)
  then have "ucast b + push_bit 8 (le_word bs) = ucast b OR push_bit 8 (le_word bs)"
    by (rule disjunctive_add_eq_or)
  then show "le_word (b # bs) = ucast b + 256 * le_word bs" by (simp add: push_bit_eq_mult mult.commute)
qed simp

lemma put_regs_simps [simp]:
  "s_ctx (put_regs C s) = s_ctx s" "s_tr (put_regs C s) = s_tr s" "s_regs (put_regs C s) = s_regs s"
  "s_mem (put_regs C s) = s_mem s" "s_host (put_regs C s) = s_host s"
  by (simp_all add: put_regs_def)

lemma set_arg_simps [simp]:
  "s_ctx (set_arg C n v s) = s_ctx s" "s_tr (set_arg C n v s) = s_tr s" "s_kregs (set_arg C n v s) = s_kregs s"
  "s_mem (set_arg C n v s) = s_mem s" "s_host (set_arg C n v s) = s_host s"
  by (simp_all add: set_arg_def)

lemma upd_tr_simps [simp]:
  "s_ctx (upd_tr f s) = s_ctx s" "s_tr (upd_tr f s) = f (s_tr s)" "s_regs (upd_tr f s) = s_regs s"
  "s_kregs (upd_tr f s) = s_kregs s" "s_mem (upd_tr f s) = s_mem s" "s_host (upd_tr f s) = s_host s"
  by (simp_all add: upd_tr_def)

lemma get_arg_set [simp]:
  "arch_wf (c_arch C) \<Longrightarrow> i \<in> {1..6} \<Longrightarrow> j \<in> {1..6} \<Longrightarrow>
   get_arg C (set_arg C i v s) j = (if i = j then v else get_arg C s j)"
  by (simp add: get_arg_def set_arg_def)

lemma get_arg_other [simp]: "get_arg C (upd_tr f s) n = get_arg C s n" "get_arg C (put_regs C s) n = get_arg C s n"
  by (simp_all add: get_arg_def)

lemma kregs_put_arg:
  assumes "arch_wf (c_arch C)"
  shows "s_kregs (put_regs C s) (reg_arg (c_arch C) n) = get_arg C s n"
  using reg_arg_in [OF assms, of n] assms
  by (auto simp: put_regs_def get_arg_def arg_def arch_wf_def list_all_iff)

text \<open>The bounds of a scratch buffer.\<close>

lemma scratch_bounds:
  assumes "emuroot_scratch t len = (a, t')" and "a \<noteq> 0" and "unat len < 2 ^ 63"
  shows "unat a + unat len \<le> unat (scratch_top t)" "unat a mod 16 = 0" "scratch_top t' = a"
    "t' = t\<lparr>scratch_top := a\<rparr>"
proof -
  let ?top = "scratch_top t"
  have a: "a = align_down 4 (?top - len)" "a \<le> ?top" and t': "t' = t\<lparr>scratch_top := a\<rparr>"
    using assms(1,2) by (auto simp: emuroot_scratch_def Let_def split: if_splits)
  then show "scratch_top t' = a" "t' = t\<lparr>scratch_top := a\<rparr>" by simp_all
  have ua: "unat a = unat (?top - len) - unat (?top - len) mod 16" using a(1) by (simp add: unat_align_down)
  then show "unat a mod 16 = 0" by (simp add: minus_mod_eq_mult_div)
  show "unat a + unat len \<le> unat ?top"
  proof (cases "len \<le> ?top")
    case True
    then have "unat (?top - len) = unat ?top - unat len" by (rule unat_sub)
    then show ?thesis using ua True by (simp add: word_le_nat_alt)
  next
    case False
    then have "unat (?top - len) = unat ?top + 2 ^ 64 - unat len"
      by (simp add: unat_sub_if_size word_size word_le_nat_alt)
    then have "unat ?top < unat a" using ua False assms(3) by (simp add: word_le_nat_alt)
    then show ?thesis using a(2) by (simp add: word_le_nat_alt)
  qed
qed

subsection \<open>A fresh tracee, and an example\<close>

definition zero_tracee :: tracee_t where
  "zero_tracee = \<lparr>t_pid = 0, t_root = [], in_syscall = False, awaiting_exit = False, fresh = False,
     logged = False, t_sysno = 0, last_entry = 0, t_args = replicate 6 0, t_creds = creds_init 0 0,
     scratch_top = 0, t_exe = [], pending_exe = [], chown_valid = False, chown_dev = 0, chown_ino = 0,
     chown_cur_uid = 0, chown_cur_gid = 0, chown_uid = 0, chown_gid = 0, t_created = [],
     pending_root = [], mount_handled = False, proc_link = False, proc_link_exe = False\<rparr>"

definition demo_cfg :: cfg where
  "demo_cfg = \<lparr>c_arch = arch_x86_64, c_nr = nr_x86_64, c_lp64 = True, c_O_NOFOLLOW = 0x20000,
     c_stat_layout = \<lparr>l_uid = 28, l_gid = 32, l_dev = 0, l_ino = 8, l_statx = False\<rparr>\<rparr>"

definition demo_host :: host_t where
  "demo_host =
    (let dir = \<lparr>st_dev = 8, st_ino = 42, st_uid = 1000, st_gid = 1000, st_mode = 0x416D\<rparr>;
         st = (\<lambda>p. if p = ''/srv/usr'' then Some dir else None)
     in \<lparr>h_readlink = (\<lambda>p. if p = ''/proc/7/cwd'' then Some ''/srv/home'' else None),
       h_stat = st, h_lstat = st, h_realpath = Some, h_read = (\<lambda>_. None), h_geteuid = 1000,
       h_getegid = 1000, h_calloc = (\<lambda>_. True), h_errno = (\<lambda>_. EFAULT)\<rparr>)"

text \<open>Process 7, root \<^verbatim>\<open>/srv\<close>, about to \<^verbatim>\<open>mkdir("/usr/x")\<close>: the string is at 8192, the stack
  pointer at 65536.\<close>

definition demo_mem :: mem where
  "demo_mem a = (if a \<ge> 131072 then None
     else if a = 8192 then Some 0x2F else if a = 8193 then Some 0x75 else if a = 8194 then Some 0x73
     else if a = 8195 then Some 0x72 else if a = 8196 then Some 0x2F else if a = 8197 then Some 0x78
     else Some 0)"

definition demo_sys :: sys where
  "demo_sys =
    (let r = ((\<lambda>_. 0)(15 := 83, 14 := 8192, 19 := 65536)) :: emuroot_regs_t
     in \<lparr>s_ctx = zero_ctx\<lparr>ctx_root := ''/srv'', has_fake_ids := True\<rparr>,
       s_tr = zero_tracee\<lparr>t_pid := 7, t_root := ''/srv'', scratch_top := 65024\<rparr>,
       s_regs = r, s_kregs = r, s_mem = demo_mem, s_host = demo_host, s_cache = []\<rparr>)"

end
