(* ===== verification/Dac.thy ===== *)
theory Dac
  imports Tracee
begin

text \<open>
  \<^verbatim>\<open>dac.c\<close>: the permission bits a real root would not have needed. \<open>dac_for\<close> says which access a
  syscall needs, and \<open>ensure_dac\<close> changes the mode of one host file through \<open>chmod\<close>, the only
  effect of this component. A change of mode shows in every path that names the same inode.
\<close>

definition O_ACCMODE :: u64 where "O_ACCMODE = 3"
definition O_RDONLY :: u64 where "O_RDONLY = 0"
definition O_CREAT :: u64 where "O_CREAT = 0x40"
definition O_EXCL :: u64 where "O_EXCL = 0x80"
definition O_TRUNC :: u64 where "O_TRUNC = 0x200"

lemmas open_flags = O_ACCMODE_def O_RDONLY_def O_CREAT_def O_EXCL_def O_TRUNC_def

definition S_ISDIR :: "u32 \<Rightarrow> bool" where
  "S_ISDIR md \<longleftrightarrow> md AND 0xF000 = 0x4000"

datatype dac = DAC_NONE | DAC_PARENT_W | DAC_READ | DAC_RW

definition open_like :: "u64 \<Rightarrow> dac" where
  "open_like flags =
     (if flags AND O_CREAT \<noteq> 0 then DAC_PARENT_W
      else if flags AND O_ACCMODE \<noteq> O_RDONLY \<or> flags AND O_TRUNC \<noteq> 0 then DAC_RW else DAC_READ)"

definition parent_write_calls :: "string list" where
  "parent_write_calls = [''creat'', ''mkdir'', ''mkdirat'', ''mknod'', ''mknodat'', ''symlink'',
     ''symlinkat'', ''unlink'', ''unlinkat'', ''rmdir'', ''rename'', ''renameat'', ''renameat2'']"

definition dac_for :: "cfg \<Rightarrow> int \<Rightarrow> sys \<Rightarrow> nat \<Rightarrow> dac" where
  "dac_for C sysno s which =
     (if which = 0 then
        if is_sys C ''open'' sysno then open_like (get_arg C s 2)
        else if is_sys C ''openat'' sysno then open_like (get_arg C s 3)
        else if is_sys C ''openat2'' sysno then DAC_READ
        else if is_sys C ''truncate'' sysno \<or> is_sys C ''truncate64'' sysno then DAC_RW
        else if list_ex (\<lambda>n. is_sys C n sysno) parent_write_calls then DAC_PARENT_W
        else DAC_NONE
      else if list_ex (\<lambda>n. is_sys C n sysno) [''rename'', ''renameat'', ''renameat2'', ''link'', ''linkat'']
      then DAC_PARENT_W else DAC_NONE)"

text \<open>\<^verbatim>\<open>chmod\<close> of a file the caller owns.\<close>

definition same_file :: "stat_t \<Rightarrow> stat_t \<Rightarrow> bool" where
  "same_file a b \<longleftrightarrow> st_dev a = st_dev b \<and> st_ino a = st_ino b"

definition chmod :: "string \<Rightarrow> u32 \<Rightarrow> host_t \<Rightarrow> host_t" where
  "chmod path md h =
     (case h_stat h path of
        None \<Rightarrow> h
      | Some st \<Rightarrow>
          let set = map_option (\<lambda>x. if same_file x st then x\<lparr>st_mode := md\<rparr> else x)
          in h\<lparr>h_stat := (\<lambda>p. set (h_stat h p)), h_lstat := (\<lambda>p. set (h_lstat h p))\<rparr>)"

definition grant_owner :: "string \<Rightarrow> u32 \<Rightarrow> host_t \<Rightarrow> host_t" where
  "grant_owner path bits h =
     (case h_stat h path of
        None \<Rightarrow> h
      | Some st \<Rightarrow>
          if st_uid st \<noteq> h_geteuid h then h
          else if st_mode st AND bits \<noteq> bits then chmod path (st_mode st OR bits) h else h)"

definition parent_dir :: "string \<Rightarrow> string option" where
  "parent_dir host =
     (let dir = snprintf PATH_LEN host
      in map_option (\<lambda>i. if i = 0 then take 1 dir else take i dir) (strrchr dir SLASH))"

definition ensure_dac :: "string \<Rightarrow> dac \<Rightarrow> host_t \<Rightarrow> host_t" where
  "ensure_dac host need h =
     (if need = DAC_NONE \<or> h_geteuid h = 0 then h
      else if need = DAC_PARENT_W then
        (case parent_dir host of None \<Rightarrow> h | Some dir \<Rightarrow> grant_owner dir 0xC0 h)
      else
        let bits = (if need = DAC_RW then 0x180 else 0x100);
            isdir = (case h_stat h host of None \<Rightarrow> False | Some st \<Rightarrow> S_ISDIR (st_mode st))
        in grant_owner host (if isdir then bits OR 0x40 else bits) h)"

definition emuroot_grant_access :: "cfg \<Rightarrow> int \<Rightarrow> nat \<Rightarrow> string \<Rightarrow> sys \<Rightarrow> sys" where
  "emuroot_grant_access C sysno which host s =
     s\<lparr>s_host := ensure_dac host (dac_for C sysno s which) (s_host s)\<rparr>"

subsection \<open>Only mode bits are added, and only on the user's own files\<close>

text \<open>\<open>grants h h'\<close>: the host differs only in modes, a file keeps every bit it had and gains at most
  the owner's read, write and execute bits, and only files of the tracer's own user change.\<close>

definition stat_grants :: "u32 \<Rightarrow> stat_t option \<Rightarrow> stat_t option \<Rightarrow> bool" where
  "stat_grants me a b \<longleftrightarrow>
     (case (a, b) of
        (None, None) \<Rightarrow> True
      | (Some x, Some y) \<Rightarrow> y = x\<lparr>st_mode := st_mode y\<rparr> \<and> st_mode x AND st_mode y = st_mode x \<and>
          st_mode y AND NOT 0x1C0 = st_mode x AND NOT 0x1C0 \<and> (st_mode y \<noteq> st_mode x \<longrightarrow> st_uid x = me)
      | _ \<Rightarrow> False)"

definition grants :: "host_t \<Rightarrow> host_t \<Rightarrow> bool" where
  "grants h h' \<longleftrightarrow> h' = h\<lparr>h_stat := h_stat h', h_lstat := h_lstat h'\<rparr> \<and>
     (\<forall>p. stat_grants (h_geteuid h) (h_stat h p) (h_stat h' p)) \<and>
     (\<forall>p. stat_grants (h_geteuid h) (h_lstat h p) (h_lstat h' p))"

text \<open>Two paths that name one inode agree on its owner and mode.\<close>

definition inodes_agree :: "host_t \<Rightarrow> bool" where
  "inodes_agree h \<longleftrightarrow> (\<forall>x y. x \<in> range (h_stat h) \<union> range (h_lstat h) \<and>
     y \<in> range (h_stat h) \<union> range (h_lstat h) \<longrightarrow>
     (case (x, y) of (Some a, Some b) \<Rightarrow> same_file a b \<longrightarrow> a = b | _ \<Rightarrow> True))"

lemma stat_grants_refl [simp]: "stat_grants me x x"
  by (cases x) (simp_all add: stat_grants_def)

lemma grants_refl [simp]: "grants h h"
  by (simp add: grants_def)

lemma or_bits:
  fixes md bits :: u32
  assumes "bits AND NOT 0x1C0 = 0"
  shows "md AND (md OR bits) = md" "(md OR bits) AND NOT 0x1C0 = md AND NOT 0x1C0"
proof -
  show "md AND (md OR bits) = md" by (rule bit_eqI) (auto simp: bit_simps)
  have "(md OR bits) AND NOT 0x1C0 = (md AND NOT 0x1C0) OR (bits AND NOT 0x1C0)"
    by (rule bit_eqI) (auto simp: bit_simps)
  then show "(md OR bits) AND NOT 0x1C0 = md AND NOT 0x1C0" using assms by simp
qed

lemma grant_owner_grants:
  assumes ag: "inodes_agree h" and bits: "bits AND NOT 0x1C0 = 0"
  shows "grants h (grant_owner path bits h)"
proof (cases "h_stat h path")
  case None
  then show ?thesis by (simp add: grant_owner_def)
next
  case (Some st)
  have "stat_grants (h_geteuid h) x (map_option (\<lambda>x. if same_file x st then x\<lparr>st_mode := st_mode st OR bits\<rparr> else x) x)"
    if "st_uid st = h_geteuid h" "x \<in> range (h_stat h) \<union> range (h_lstat h)" for x
  proof (cases x)
    case y: (Some y)
    have "Some st \<in> range (h_stat h) \<union> range (h_lstat h)" using Some by (metis UnI1 rangeI)
    then have "case (x, Some st) of (Some a, Some b) \<Rightarrow> same_file a b \<longrightarrow> a = b | _ \<Rightarrow> True"
      using ag that(2) unfolding inodes_agree_def by blast
    then have "same_file y st \<Longrightarrow> y = st" by (simp add: y)
    then show ?thesis using y that(1) or_bits [OF bits] by (auto simp: stat_grants_def)
  qed (simp add: stat_grants_def)
  then show ?thesis
    using Some by (auto simp: grant_owner_def chmod_def grants_def Let_def)
qed

lemma ensure_dac_grants: "inodes_agree h \<Longrightarrow> grants h (ensure_dac host need h)"
  by (auto simp: ensure_dac_def Let_def intro!: grant_owner_grants split: option.split)

lemma grant_access_simps [simp]:
  "s_ctx (emuroot_grant_access C n w p s) = s_ctx s" "s_tr (emuroot_grant_access C n w p s) = s_tr s"
  "s_regs (emuroot_grant_access C n w p s) = s_regs s" "s_kregs (emuroot_grant_access C n w p s) = s_kregs s"
  "s_mem (emuroot_grant_access C n w p s) = s_mem s"
  by (simp_all add: emuroot_grant_access_def)

lemma grant_owner_target:
  assumes "h_stat h target = Some st" "st_uid st = h_geteuid h"
  shows "\<exists>st'. h_stat (grant_owner target bits h) target = Some st' \<and> st_mode st' AND bits = bits"
proof (cases "st_mode st AND bits = bits")
  case False
  have "(st_mode st OR bits) AND bits = bits" by (rule bit_eqI) (auto simp: bit_simps)
  then show ?thesis using assms False by (simp add: grant_owner_def chmod_def same_file_def Let_def)
qed (use assms in \<open>simp add: grant_owner_def\<close>)

lemma and_or_le:
  fixes x b c :: u32
  assumes "x AND (b OR c) = b OR c" shows "x AND b = b"
proof (rule bit_eqI)
  fix n assume "possible_bit TYPE(u32) n"
  have "bit (x AND (b OR c)) n = bit (b OR c) n" using assms by simp
  then show "bit (x AND b) n = bit b n" by (auto simp: bit_simps)
qed

text \<open>Granting access is bounded. Whatever the syscall and the path, giving the fake root the
  permission bits it needs changes nothing on the host but file modes: a file keeps every bit it
  had, gains at most the owner's read, write and execute bits, and is touched only if the tracer's
  own user owns it; a tracer that really is root changes nothing.\<close>

theorem grant_access_bounded:
  assumes "inodes_agree (s_host s)"
  shows "grants (s_host s) (s_host (emuroot_grant_access C sysno which host s)) \<and>
    (h_geteuid (s_host s) = 0 \<longrightarrow> s_host (emuroot_grant_access C sysno which host s) = s_host s)"
  using ensure_dac_grants [OF assms] by (simp add: emuroot_grant_access_def ensure_dac_def)

text \<open>The needed bits are there afterwards. When the user (not really root) owns the file, or, for
  a call that changes a directory, its parent directory, then after \<open>ensure_dac\<close> its mode has the
  owner bits the access needs: write and search on the parent, read, or read and write on the
  file.\<close>

theorem ensure_dac_sufficient:
  assumes "h_geteuid h \<noteq> 0" and "need \<noteq> DAC_NONE"
    and target: "(if need = DAC_PARENT_W then parent_dir host else Some host) = Some target"
    and own: "h_stat h target = Some st" "st_uid st = h_geteuid h"
    and bits: "bits = (case need of DAC_PARENT_W \<Rightarrow> 0xC0 | DAC_RW \<Rightarrow> 0x180 | _ \<Rightarrow> 0x100)"
  shows "\<exists>st'. h_stat (ensure_dac host need h) target = Some st' \<and> st_mode st' AND bits = bits"
proof -
  obtain b where b: "ensure_dac host need h = grant_owner target b h" "b = bits \<or> b = bits OR 0x40"
    using target assms(1,2) bits
    by (cases need) (auto simp: ensure_dac_def Let_def split: option.splits if_splits)
  obtain st' where "h_stat (grant_owner target b h) target = Some st'" "st_mode st' AND b = b"
    using grant_owner_target [OF own] by blast
  with b and_or_le show ?thesis by metis
qed

theorem ensure_dac_sufficient_witness:
  "\<exists>st'. h_stat (ensure_dac ''/srv/usr/bin'' DAC_PARENT_W demo_host) ''/srv/usr'' = Some st' \<and>
     st_mode st' AND 0xC0 = 0xC0"
proof -
  have "parent_dir ''/srv/usr/bin'' = Some ''/srv/usr''" by code_simp
  then show ?thesis
    using ensure_dac_sufficient [of demo_host DAC_PARENT_W "''/srv/usr/bin''" "''/srv/usr''"]
    by (simp add: demo_host_def Let_def)
qed

theorem grant_access_bounded_witness:
  "grants demo_host (s_host (emuroot_grant_access demo_cfg 83 0 ''/srv/usr/x'' demo_sys))"
proof -
  have "inodes_agree (s_host demo_sys)" by (auto simp: inodes_agree_def demo_sys_def demo_host_def Let_def)
  from grant_access_bounded [OF this, of demo_cfg 83 0 "''/srv/usr/x''"] show ?thesis
    by (simp add: demo_sys_def Let_def)
qed

end
