(* ===== verification/Rewrite.thy ===== *)
theory Rewrite
  imports Dac Resolve
begin

text \<open>
  \<^verbatim>\<open>rewrite.c\<close> without the entry handler itself: which path a syscall argument names, and the
  redirection of a path argument or a socket address. Every handler maps a \<open>sys\<close> to the \<open>sys\<close> it
  leaves. The safety of the redirection is \<open>rewrite_path_arg_redirects\<close>: afterwards the kernel sees
  the translated path or a NULL pointer, never the guest's own absolute path.
\<close>

definition AT_SYMLINK_NOFOLLOW :: u64 where "AT_SYMLINK_NOFOLLOW = 0x100"
definition AT_SYMLINK_FOLLOW :: u64 where "AT_SYMLINK_FOLLOW = 0x400"
definition AT_FDCWD :: int where "AT_FDCWD = - 100"

definition fail_closed :: "cfg \<Rightarrow> nat \<Rightarrow> sys \<Rightarrow> sys" where
  "fail_closed C slot s = put_regs C (set_arg C slot 0 s)"

definition emuroot_follow_last :: "cfg \<Rightarrow> sys \<Rightarrow> path_syscall_t \<Rightarrow> bool" where
  "emuroot_follow_last C s d =
     (let flags = (if ps_flag_slot d \<noteq> 0 then get_arg C s (ps_flag_slot d) else 0)
      in case ps_mode d of
           M_FOLLOW \<Rightarrow> True
         | M_NOFOLLOW \<Rightarrow> False
         | M_OPEN \<Rightarrow> flags AND c_O_NOFOLLOW C = 0 \<and> flags AND (O_CREAT OR O_EXCL) \<noteq> O_CREAT OR O_EXCL
         | M_AT \<Rightarrow> flags AND AT_SYMLINK_NOFOLLOW = 0
         | M_LINKAT \<Rightarrow> flags AND AT_SYMLINK_FOLLOW \<noteq> 0
         | M_OPENAT2 \<Rightarrow> le_word (mread (s_mem s) flags 8) AND c_O_NOFOLLOW C = 0)"

definition dirfd_slot :: "cfg \<Rightarrow> int \<Rightarrow> nat \<Rightarrow> nat" where
  "dirfd_slot C sysno slot =
     (if slot < 2 then 0
      else if is_sys C ''symlink'' sysno \<or> is_sys C ''inotify_add_watch'' sysno then 0
      else slot - 1)"

definition absolute_guest_path :: "cfg \<Rightarrow> sys \<Rightarrow> nat \<Rightarrow> string \<Rightarrow> nat \<Rightarrow> string option" where
  "absolute_guest_path C s fd_slot path sz =
     (if c_at path 0 = SLASH then Some (snprintf sz path)
      else
        let fd = (if fd_slot \<noteq> 0 then sint (ucast (get_arg C s fd_slot) :: 32 word) else AT_FDCWD);
            link = (if fd = AT_FDCWD then ''/proc/'' @ dec_int (t_pid (s_tr s)) @ ''/cwd''
                    else ''/proc/'' @ dec_int (t_pid (s_tr s)) @ ''/fd/'' @ dec_int fd)
        in (case readlink_buf s link of
              None \<Rightarrow> None
            | Some base \<Rightarrow>
                (case emuroot_host_to_guest (s_ctx s) (t_root (s_tr s)) base PATH_LEN of
                   None \<Rightarrow> None
                 | Some guest_base \<Rightarrow>
                     Some (snprintf sz ((if guest_base = ''/'' then [] else guest_base) @ ''/'' @ path)))))"

definition strict_openat2 :: "cfg \<Rightarrow> sys \<Rightarrow> int \<Rightarrow> nat \<Rightarrow> bool" where
  "strict_openat2 C s sysno slot \<longleftrightarrow> is_sys C ''openat2'' sysno \<and> slot = 2 \<and>
     le_word (drop 16 (mread (s_mem s) (get_arg C s 3) 24)) \<noteq> 0"

definition is_readlink :: "cfg \<Rightarrow> int \<Rightarrow> bool" where
  "is_readlink C sysno \<longleftrightarrow> is_sys C ''readlink'' sysno \<or> is_sys C ''readlinkat'' sysno"

text \<open>The path an argument register points to: \<open>None\<close> for a NULL pointer, an unreadable or an empty
  string.\<close>

definition given_path :: "cfg \<Rightarrow> sys \<Rightarrow> nat \<Rightarrow> string option" where
  "given_path C s slot =
     (let ptr = get_arg C s slot
      in if ptr = 0 then None
         else (case read_str_at s ptr PATH_LEN of
                 None \<Rightarrow> None | Some given \<Rightarrow> if given = [] then None else Some given))"

definition emuroot_host_path_arg :: "cfg \<Rightarrow> sys \<Rightarrow> int \<Rightarrow> nat \<Rightarrow> bool \<Rightarrow> string option" where
  "emuroot_host_path_arg C s sysno slot follow =
     (case given_path C s slot of
        None \<Rightarrow> None
      | Some given \<Rightarrow>
          (case absolute_guest_path C s (dirfd_slot C sysno slot) given (2 * PATH_LEN) of
             None \<Rightarrow> Some (snprintf PATH_LEN given)
           | Some guest \<Rightarrow> Some (snd (translate s guest follow PATH_LEN))))"

text \<open>The guest path with its links resolved, and the host path.\<close>

definition emuroot_guest_path_arg :: "cfg \<Rightarrow> sys \<Rightarrow> int \<Rightarrow> nat \<Rightarrow> (string \<times> string) option" where
  "emuroot_guest_path_arg C s sysno slot =
     (case given_path C s slot of
        None \<Rightarrow> None
      | Some given \<Rightarrow>
          (case absolute_guest_path C s (dirfd_slot C sysno slot) given (2 * PATH_LEN) of
             None \<Rightarrow> None
           | Some path \<Rightarrow>
               (case emuroot_translate_path_ex (s_ctx s) (h_readlink (s_host s)) (t_root (s_tr s)) path True
                       PATH_LEN PATH_LEN of
                  (_, host, guest) \<Rightarrow> Some (guest, host))))"

text \<open>Puts a C string into scratch memory and points the register at it, or fails the call.\<close>

definition point_at_copy :: "cfg \<Rightarrow> nat \<Rightarrow> string \<Rightarrow> sys \<Rightarrow> sys" where
  "point_at_copy C slot host s =
     (case scratch (length host + 1) s of
        (a, s) \<Rightarrow>
          if a = 0 then fail_closed C slot s
          else (case write_at a (str_bytes host @ [0]) s of
                  (ok, s) \<Rightarrow> if ok then put_regs C (set_arg C slot a s) else fail_closed C slot s))"

definition ends_exe :: "string \<Rightarrow> bool" where
  "ends_exe guest \<longleftrightarrow> 4 \<le> length guest \<and> drop (length guest - 4) guest = ''/exe''"

definition rewrite_path_arg :: "cfg \<Rightarrow> int \<Rightarrow> nat \<Rightarrow> bool \<Rightarrow> nat \<Rightarrow> sys \<Rightarrow> sys" where
  "rewrite_path_arg C sysno slot follow which s =
     (if slot = 0 \<or> t_root (s_tr s) = [] \<and> bindings (s_ctx s) = [] then s
      else let ptr = get_arg C s slot in
      if ptr = 0 then s
      else (case read_str_at s ptr PATH_LEN of
        None \<Rightarrow> if h_errno (s_host s) ptr \<noteq> EFAULT then fail_closed C slot s else s
      | Some given \<Rightarrow>
          if given = [] then s
          else if c_at given 0 \<noteq> SLASH \<and> strict_openat2 C s sysno slot then s
          else (case absolute_guest_path C s (dirfd_slot C sysno slot) given (2 * PATH_LEN) of
            None \<Rightarrow> s
          | Some guest \<Rightarrow>
              let s = (if take 6 guest = ''/proc/'' \<and> which = 0 \<and> is_readlink C sysno
                       then upd_tr (\<lambda>t. t\<lparr>proc_link := True, proc_link_exe := ends_exe guest\<rparr>) s else s)
              in (case translate s guest follow PATH_LEN of
                (rewritten, host) \<Rightarrow>
                  let s = (if has_fake_ids (s_ctx s) \<and> id_e (uid (t_creds (s_tr s))) = 0
                           then emuroot_grant_access C sysno which host s else s);
                      s = (if verbose (s_ctx s) then upd_tr (\<lambda>t. t\<lparr>logged := True\<rparr>) s else s)
                  in if \<not> rewritten then s else point_at_copy C slot host s))))"

subsection \<open>Socket addresses\<close>

definition SUN_SIZE :: nat where "SUN_SIZE = 110"
definition SUN_PATH :: nat where "SUN_PATH = 2"
definition SUN_PATH_SIZE :: nat where "SUN_PATH_SIZE = 108"
definition AF_UNIX :: u64 where "AF_UNIX = 1"

text \<open>\<^verbatim>\<open>sun\<close> is the address as read, padded with zeros to its full size.\<close>

definition rewrite_sockaddr :: "cfg \<Rightarrow> nat \<Rightarrow> nat \<Rightarrow> sys \<Rightarrow> sys" where
  "rewrite_sockaddr C addr_slot len_slot s =
     (let addr = get_arg C s addr_slot;
          len = min (unat (get_arg C s len_slot)) SUN_SIZE
      in if addr = 0 \<or> len \<le> SUN_PATH then s
         else let bs = mread (s_mem s) addr len in
         if length bs \<noteq> len then s
         else let sun = bs @ replicate (SUN_SIZE - len) 0;
                  path = bytes_str (takeWhile (\<lambda>b. b \<noteq> 0) (drop SUN_PATH sun))
         in if le_word (take SUN_PATH sun) \<noteq> AF_UNIX \<or> c_at path 0 \<noteq> SLASH then s
         else (case translate s path True PATH_LEN of
                 (rewritten, host) \<Rightarrow>
                   if \<not> rewritten then s
                   else if length host \<ge> SUN_PATH_SIZE then s
                   else let new = take SUN_PATH sun @ str_bytes host @ replicate (SUN_PATH_SIZE - length host) 0
                   in (case scratch SUN_SIZE s of
                         (a, s) \<Rightarrow>
                           if a = 0 then fail_closed C addr_slot s
                           else (case write_at a new s of
                                   (ok, s) \<Rightarrow>
                                     if ok then put_regs C (set_arg C len_slot (of_nat (SUN_PATH + length host + 1))
                                                  (set_arg C addr_slot a s))
                                     else fail_closed C addr_slot s))))"

subsection \<open>Redirection is fail-safe\<close>

text \<open>No NUL hides inside the strings the host and the context provide.\<close>

definition c_strings :: "emuroot_ctx \<Rightarrow> string \<Rightarrow> (string \<Rightarrow> string option) \<Rightarrow> bool" where
  "c_strings ctx root rl \<longleftrightarrow> NUL \<notin> set root \<and>
     (\<forall>b \<in> set (bindings ctx). NUL \<notin> set (b_host b) \<and> NUL \<notin> set (b_guest b)) \<and>
     (\<forall>h l. rl h = Some l \<longrightarrow> NUL \<notin> set l)"

definition clean :: "string \<Rightarrow> bool" where
  "clean s \<longleftrightarrow> NUL \<notin> set s"

lemma clean_simps [simp]:
  "clean []" "clean (c # s) \<longleftrightarrow> c \<noteq> NUL \<and> clean s" "clean (s @ t) \<longleftrightarrow> clean s \<and> clean t"
  by (auto simp: clean_def)

lemma clean_sub: "clean s \<Longrightarrow> set t \<subseteq> set s \<Longrightarrow> clean t"
  by (auto simp: clean_def)

lemma clean_take [simp, intro]: "clean s \<Longrightarrow> clean (take n s)" "clean s \<Longrightarrow> clean (drop n s)"
  "clean s \<Longrightarrow> clean (takeWhile P s)" "clean s \<Longrightarrow> clean (dropWhile P s)" "clean s \<Longrightarrow> clean (snprintf n s)"
  by (auto simp: clean_def snprintf_def dest: in_set_takeD in_set_dropD set_takeWhileD set_dropWhileD)

lemma clean_pop [simp, intro]: "clean s \<Longrightarrow> clean (pop_component s)"
  by (auto simp: pop_component_def split: option.split)

lemma clean_or_slash [simp, intro]: "clean s \<Longrightarrow> clean (or_slash s)"
  by (simp add: or_slash_def)

lemma clean_host_part: "c_strings ctx root rl \<Longrightarrow> b \<in> set (bindings ctx) \<Longrightarrow> clean (host_part b)"
  by (auto simp: host_part_def c_strings_def clean_def)

lemma pick_rev_in: "pick P len None (rev bs) = Some b \<Longrightarrow> b \<in> set bs"
  using pick_in [of P len None "rev bs" b] by auto

lemma clean_map_to_host:
  assumes "c_strings ctx root rl" and "clean g"
  shows "clean (map_to_host ctx root outsz g)"
proof -
  have "clean root" using assms(1) by (simp add: c_strings_def clean_def)
  then show ?thesis using assms(2)
    by (auto simp: map_to_host_def Let_def clean_host_part [OF assms(1)]
        split: option.split dest!: pick_rev_in)
qed

definition clean_state :: "walk_state \<Rightarrow> bool" where
  "clean_state st \<longleftrightarrow> (case st of (cur, p, t, h) \<Rightarrow> clean cur \<and> clean p)"

lemma walk_step_clean:
  assumes "\<forall>h l. rl h = Some l \<longrightarrow> clean l" and "clean_state st"
  shows "case walk_step m rl f st of Inl r \<Rightarrow> clean_state r | Inr st' \<Rightarrow> clean_state st'"
  using assms by (cases st) (auto simp: walk_step_def clean_state_def Let_def split: option.splits)

lemma walk_clean:
  assumes rl: "\<forall>h l. rl h = Some l \<longrightarrow> clean l" and "clean_state st"
  shows "clean_state (walk m rl f st)"
proof (rule walk_rule [where I = clean_state])
  show "clean_state st'" if "clean_state st" "walk_step m rl f st = Inr st'" for st st'
    using walk_step_clean [OF rl that(1), where m = m and f = f] that(2) by simp
  show "clean_state r" if "clean_state st" "walk_step m rl f st = Inl r" for st r
    using walk_step_clean [OF rl that(1), where m = m and f = f] that(2) by simp
qed (rule assms(2))

lemma translate_clean:
  assumes cs: "c_strings ctx root rl" and g: "clean guest"
  shows "clean (snd (emuroot_translate_path ctx rl root guest f outsz))"
proof -
  have rl: "\<forall>h l. rl h = Some l \<longrightarrow> clean l" using cs by (simp add: c_strings_def clean_def)
  have m: "clean x \<Longrightarrow> clean (map_to_host ctx root PATH_LEN x)" for x
    by (rule clean_map_to_host [OF cs])
  let ?r = "walk (map_to_host ctx root PATH_LEN) rl f (''/'', snprintf (2 * PATH_LEN) guest, ends_slash guest, 0)"
  have "clean_state ?r" by (rule walk_clean [OF rl]) (simp_all add: clean_state_def g)
  then have "clean (finish (map_to_host ctx root PATH_LEN) ?r)"
    using m by (cases ?r) (auto simp: clean_state_def finish_def Let_def)
  then show ?thesis using g
    by (simp add: emuroot_translate_path_def emuroot_translate_path_ex_def Let_def)
qed

lemma absolute_clean:
  assumes cs: "c_strings (s_ctx s) (t_root (s_tr s)) (h_readlink (s_host s))" and g: "clean given"
    and a: "absolute_guest_path C s fs given sz = Some guest"
  shows "clean guest"
proof (cases "c_at given 0 = SLASH")
  case True
  then show ?thesis using a g by (auto simp: absolute_guest_path_def)
next
  case False
  then obtain link base gb where l: "readlink_buf s link = Some base"
    and h: "emuroot_host_to_guest (s_ctx s) (t_root (s_tr s)) base PATH_LEN = Some gb"
    and e: "guest = snprintf sz ((if gb = ''/'' then [] else gb) @ ''/'' @ given)"
    using a by (auto simp: absolute_guest_path_def Let_def split: option.splits if_splits)
  have b: "clean base" using l cs by (auto simp: readlink_buf_def c_strings_def clean_def dest: in_set_takeD split: option.splits if_splits)
  have "clean gb"
  proof (cases "pick (host_match base) (\<lambda>b. length (b_host b)) None (bindings (s_ctx s))")
    case None
    then show ?thesis using h b by (auto simp: emuroot_host_to_guest_def split: if_splits)
  next
    case (Some x)
    then have "clean (b_guest x)" using cs pick_in [OF Some] by (auto simp: c_strings_def clean_def)
    then show ?thesis using h b Some by (auto simp: emuroot_host_to_guest_def)
  qed
  then show ?thesis using g e by auto
qed

lemma translate_unchanged:
  assumes "emuroot_translate_path ctx rl root guest f outsz = (False, host)" and "length guest < outsz"
  shows "host = guest"
  using assms by (auto simp: emuroot_translate_path_def emuroot_translate_path_ex_def Let_def split: if_splits)

text \<open>What the kernel is to see for a path: its translation, or the guest's own string when the translation
  is the guest's absolute path.\<close>

definition shown :: "sys \<Rightarrow> string \<Rightarrow> string \<Rightarrow> bool \<Rightarrow> string" where
  "shown s given guest follow =
     (case translate s guest follow PATH_LEN of (rewritten, host) \<Rightarrow> if rewritten then host else given)"

lemma shown_absolute: "length guest < PATH_LEN \<Longrightarrow> shown s guest guest follow = snd (translate s guest follow PATH_LEN)"
  using translate_unchanged [of "s_ctx s" "h_readlink (s_host s)" "t_root (s_tr s)" guest follow PATH_LEN]
  by (cases "translate s guest follow PATH_LEN") (auto simp: shown_def translate_def)

lemma length_translate: "length (snd (emuroot_translate_path ctx rl root guest f PATH_LEN)) < PATH_LEN"
  by (auto simp: emuroot_translate_path_def emuroot_translate_path_ex_def Let_def
      intro: length_snprintf split: prod.splits)

lemma char_of_nonzero: "(b :: u8) \<noteq> 0 \<Longrightarrow> char_of (unat b) \<noteq> NUL"
proof
  assume b: "b \<noteq> 0" "char_of (unat b) = NUL"
  then have "of_char (char_of (unat b)) = (0 :: nat)" by simp
  moreover have "unat b < 256" using unsigned_less [of b, where 'a = nat] by simp
  ultimately have "unat b = 0" by simp
  with b(1) show False by (simp add: unsigned_eq_0_iff)
qed

lemma str_at_clean: "str_at m a sz = Some s \<Longrightarrow> clean s \<and> length s < sz"
proof -
  assume s: "str_at m a sz = Some s"
  let ?bs = "takeWhile (\<lambda>b. b \<noteq> 0) (mread m a (sz - 1))"
  have sz: "0 < sz" using s by (cases sz) (auto simp: str_at_def)
  have "length ?bs \<le> sz - 1"
    using length_mread [of m a "sz - 1"] length_takeWhile_le le_trans by blast
  moreover have "s = bytes_str ?bs" using s by (auto simp: str_at_def Let_def split: if_splits)
  moreover have "\<forall>b \<in> set ?bs. char_of (unat b) \<noteq> NUL"
    using char_of_nonzero by (blast dest: set_takeWhileD)
  ultimately show ?thesis using sz by (auto simp: bytes_str_def clean_def simp del: char_of_eq_iff)
qed

lemma fail_closed_slot:
  "arch_wf (c_arch C) \<Longrightarrow> slot \<in> {1..6} \<Longrightarrow> s_kregs (fail_closed C slot s) (reg_arg (c_arch C) slot) = 0"
  by (simp add: fail_closed_def kregs_put_arg)

lemma scratch_str:
  assumes "scratch (length host + 1) s = (a, s1)" and "a \<noteq> 0"
    and "write_at a (str_bytes host @ [0]) s1 = (True, s2)" and "clean host" and "length host < sz" "1 < sz" "sz < 2 ^ 63"
  shows "read_str_at s2 a sz = Some host"
proof -
  obtain m where "gwrite (s_mem s1) a (str_bytes host @ [0]) = (True, m)" "s2 = s1\<lparr>s_mem := m\<rparr>"
    using assms(3) by (auto simp: write_at_def split: prod.splits)
  moreover have "length host < 2 ^ 64" using assms(5,7) by simp
  ultimately show ?thesis using gwrite_str [of _ _ host _ sz] assms(4,5,6)
    by (simp add: read_str_at_eq clean_def)
qed

lemma point_at_copy_slot:
  fixes s :: sys
  assumes "arch_wf (c_arch C)" and "slot \<in> {1..6}" and "clean host" and "length host < sz" "1 < sz" "sz < 2 ^ 63"
  defines "s' \<equiv> point_at_copy C slot host s"
  defines "p \<equiv> s_kregs s' (reg_arg (c_arch C) slot)"
  shows "p = 0 \<or> read_str_at s' p sz = Some host"
proof -
  obtain a s1 where sc: "scratch (length host + 1) s = (a, s1)" by fastforce
  obtain ok s2 where w: "write_at a (str_bytes host @ [0]) s1 = (ok, s2)" by fastforce
  show ?thesis
  proof (cases "a \<noteq> 0 \<and> ok")
    case False
    then have "s' = fail_closed C slot s1 \<or> s' = fail_closed C slot s2"
      unfolding s'_def point_at_copy_def sc prod.case w by auto
    then show ?thesis using fail_closed_slot [OF assms(1,2)] by (auto simp: p_def)
  next
    case True
    then have s': "s' = put_regs C (set_arg C slot a s2)"
      unfolding s'_def point_at_copy_def sc prod.case w by simp
    then have "p = a" using assms(1,2) by (simp add: p_def kregs_put_arg)
    moreover have "read_str_at s' a sz = read_str_at s2 a sz" by (simp add: s' read_str_at_def)
    ultimately show ?thesis using scratch_str [OF sc _ _ assms(3,4,5,6)] w True by simp
  qed
qed

lemma translate_facts:
  assumes "c_strings (s_ctx s) (t_root (s_tr s)) (h_readlink (s_host s))" and "clean guest"
    and "translate s guest follow PATH_LEN = (rw, host)"
  shows "clean host" "length host < PATH_LEN" "\<not> rw \<Longrightarrow> length guest < PATH_LEN \<Longrightarrow> host = guest"
  using translate_clean [OF assms(1,2), of follow PATH_LEN] assms(3)
    length_translate [of "s_ctx s" "h_readlink (s_host s)" "t_root (s_tr s)" guest follow]
    translate_unchanged [of "s_ctx s" "h_readlink (s_host s)" "t_root (s_tr s)" guest follow PATH_LEN host]
  by (simp_all add: translate_def)

text \<open>What \<open>rewrite_path_arg\<close> does: the bookkeeping leaves memory, registers and name space alone, then the
  path is copied if translation changed it.\<close>

lemma grant_access_frame [simp]:
  "s_mem (emuroot_grant_access C n w h s) = s_mem s" "s_kregs (emuroot_grant_access C n w h s) = s_kregs s"
  "s_regs (emuroot_grant_access C n w h s) = s_regs s" "s_ctx (emuroot_grant_access C n w h s) = s_ctx s"
  "s_tr (emuroot_grant_access C n w h s) = s_tr s"
  by (simp_all add: emuroot_grant_access_def)

lemma grant_access_readlink [simp]: "h_readlink (s_host (emuroot_grant_access C n w h s)) = h_readlink (s_host s)"
  by (simp add: emuroot_grant_access_def ensure_dac_def grant_owner_def chmod_def Let_def split: option.split)

text \<open>The path argument \<open>slot\<close> is the string \<open>given\<close>, which names the guest path \<open>guest\<close>.\<close>

definition names :: "cfg \<Rightarrow> sys \<Rightarrow> int \<Rightarrow> nat \<Rightarrow> string \<Rightarrow> string \<Rightarrow> bool" where
  "names C s sysno slot given guest \<longleftrightarrow>
     read_str_at s (get_arg C s slot) PATH_LEN = Some given \<and> given \<noteq> [] \<and>
     (c_at given 0 = SLASH \<or> \<not> strict_openat2 C s sysno slot) \<and>
     absolute_guest_path C s (dirfd_slot C sysno slot) given (2 * PATH_LEN) = Some guest"

lemma names_clean:
  assumes "names C s sysno slot given guest" and "c_strings (s_ctx s) (t_root (s_tr s)) (h_readlink (s_host s))"
  shows "clean given" "length given < PATH_LEN" "clean guest"
  using assms str_at_clean [of "s_mem s" "get_arg C s slot" PATH_LEN given] absolute_clean [OF assms(2)]
  by (auto simp: names_def read_str_at_eq PATH_LEN_def)

lemma rewrite_path_arg_body:
  assumes slot: "slot \<in> {1..6}" and active: "t_root (s_tr s) \<noteq> [] \<or> bindings (s_ctx s) \<noteq> []"
    and given: "names C s sysno slot given guest" "get_arg C s slot \<noteq> 0"
    and t: "translate s guest follow PATH_LEN = (rw, host)"
  obtains s3 where "rewrite_path_arg C sysno slot follow which s = (if rw then point_at_copy C slot host s3 else s3)"
    "s_mem s3 = s_mem s" "s_kregs s3 = s_kregs s" "s_regs s3 = s_regs s" "s_ctx s3 = s_ctx s"
    "h_readlink (s_host s3) = h_readlink (s_host s)" "t_root (s_tr s3) = t_root (s_tr s)"
    "scratch_top (s_tr s3) = scratch_top (s_tr s)" "t_pid (s_tr s3) = t_pid (s_tr s)"
proof -
  note g = given(1) [unfolded names_def]
  define s1 where "s1 = (if take 6 guest = ''/proc/'' \<and> which = 0 \<and> is_readlink C sysno
      then upd_tr (\<lambda>t. t\<lparr>proc_link := True, proc_link_exe := ends_exe guest\<rparr>) s else s)"
  define s2 where "s2 = (if has_fake_ids (s_ctx s1) \<and> id_e (uid (t_creds (s_tr s1))) = 0
      then emuroot_grant_access C sysno which host s1 else s1)"
  define s3 where "s3 = (if verbose (s_ctx s2) then upd_tr (\<lambda>t. t\<lparr>logged := True\<rparr>) s2 else s2)"
  have t1: "translate s1 guest follow PATH_LEN = (rw, host)" using t by (simp add: s1_def translate_def)
  have c1: "\<not> (slot = 0 \<or> t_root (s_tr s) = [] \<and> bindings (s_ctx s) = [])" using slot active by auto
  have c2: "\<not> (c_at given 0 \<noteq> SLASH \<and> strict_openat2 C s sysno slot)" "given \<noteq> []"
    "read_str_at s (get_arg C s slot) PATH_LEN = Some given"
    "absolute_guest_path C s (dirfd_slot C sysno slot) given (2 * PATH_LEN) = Some guest" using g by blast+
  have "rewrite_path_arg C sysno slot follow which s = (if \<not> rw then s3 else point_at_copy C slot host s3)"
    unfolding rewrite_path_arg_def Let_def
    by (simp only: c1 c2(1,2) given(2) if_False c2(3,4) option.case s1_def [symmetric] t1 prod.case
        s2_def [symmetric] s3_def [symmetric])
  then show ?thesis by (intro that [of s3]) (simp_all add: s3_def s2_def s1_def)
qed

text \<open>C14: a path argument is redirected or the call fails. When a traced process with a root or
  bindings is about to make a call whose argument \<open>slot\<close> names the guest path \<open>guest\<close>, absolute or relative
  to its working directory or a directory descriptor, then after
  \<^verbatim>\<open>rewrite_path_arg\<close> the register the kernel sees points to a string in the guest's memory that is
  exactly the translated host path, or is NULL, whatever the scratch memory, its mapping, the flags
  or the access bits: the guest's own string reaches the kernel only when the guest path translates to
  itself.\<close>

theorem rewrite_path_arg_redirects:
  assumes wf: "arch_wf (c_arch C)" and slot: "slot \<in> {1..6}"
    and cs: "c_strings (s_ctx s) (t_root (s_tr s)) (h_readlink (s_host s))"
    and active: "t_root (s_tr s) \<noteq> [] \<or> bindings (s_ctx s) \<noteq> []"
    and sync: "s_kregs s (reg_arg (c_arch C) slot) = get_arg C s slot"
    and given: "names C s sysno slot given guest"
    and s': "s' = rewrite_path_arg C sysno slot follow which s"
    and p: "p = s_kregs s' (reg_arg (c_arch C) slot)"
  shows "p = 0 \<or> (case translate s guest follow PATH_LEN of (rewritten, host) \<Rightarrow>
    if rewritten then read_str_at s' p PATH_LEN = Some host
    else read_str_at s' p PATH_LEN = Some given \<and> (given = guest \<longrightarrow> host = given))"
proof (cases "get_arg C s slot = 0")
  case True
  then have "s' = s" using s' by (auto simp: rewrite_path_arg_def)
  then show ?thesis using True sync p by simp
next
  case False
  note g = names_clean [OF given cs]
  obtain rw host where t: "translate s guest follow PATH_LEN = (rw, host)" by fastforce
  note tf = translate_facts [OF cs g(3) t]
  obtain s3 where body: "s' = (if rw then point_at_copy C slot host s3 else s3)"
    and s3: "s_mem s3 = s_mem s" "s_kregs s3 = s_kregs s"
    using rewrite_path_arg_body [OF slot active given False t, of which] s' by metis
  show ?thesis
  proof (cases rw)
    case True
    then show ?thesis
      using point_at_copy_slot [OF wf slot tf(1,2), of s3] body p t by (simp add: PATH_LEN_def)
  next
    case False
    then have "s' = s3" "given = guest \<longrightarrow> host = given" using body tf(3) g(2) by auto
    moreover have "read_str_at s3 x PATH_LEN = read_str_at s x PATH_LEN" for x
      using s3 by (simp add: read_str_at_def)
    ultimately show ?thesis using p s3 sync given t False by (simp add: names_def)
  qed
qed

lemma demo_given: "read_str_at demo_sys 8192 PATH_LEN = Some ''/usr/x''"
proof -
  have "mread demo_mem 8192 (length ''/usr/x'' + 1) = str_bytes ''/usr/x'' @ [0]"
    by (simp add: str_bytes_def demo_mem_def)
  then show ?thesis
    using str_at_written [of demo_mem 8192 "''/usr/x''" PATH_LEN]
    by (simp add: read_str_at_eq demo_sys_def Let_def PATH_LEN_def)
qed

theorem rewrite_path_arg_redirects_witness:
  "let s' = rewrite_path_arg demo_cfg 83 1 False 0 demo_sys; p = s_kregs s' 14
   in p = 0 \<or> read_str_at s' p PATH_LEN = Some ''/srv/usr/x''"
proof -
  have r: "reg_arg (c_arch demo_cfg) 1 = 14" by code_simp
  have t: "translate demo_sys ''/usr/x'' False PATH_LEN = (True, ''/srv/usr/x'')" by code_simp
  have g: "read_str_at demo_sys (get_arg demo_cfg demo_sys 1) PATH_LEN = Some ''/usr/x''"
    using demo_given by (simp add: get_arg_def arg_def reg_arg_def demo_cfg_def arch_x86_64_def demo_sys_def Let_def)
  then have n: "names demo_cfg demo_sys 83 1 ''/usr/x'' ''/usr/x''"
    by (simp add: names_def absolute_guest_path_def c_at_def PATH_LEN_def)
  have cs: "c_strings (s_ctx demo_sys) (t_root (s_tr demo_sys)) (h_readlink (s_host demo_sys))"
    by (auto simp: c_strings_def demo_sys_def demo_host_def zero_ctx_def Let_def)
  have "arch_wf (c_arch demo_cfg)" by code_simp
  from rewrite_path_arg_redirects [OF this _ cs _ _ n refl refl, of False 0] r t show ?thesis
    by (simp add: demo_sys_def get_arg_def arg_def Let_def)
qed

text \<open>Scratch buffers stay below the guest's stack and never overlap. A buffer that is granted lies,
  with all its bytes and 16-byte aligned, below the previous top without wrapping around the address
  space, so it keeps the 512-byte margin below the stack pointer at entry, and the next one granted
  in the same call lies entirely below it.\<close>

theorem scratch_buffers_bounded:
  assumes "scratch_top t = align_down 4 (sp - SCRATCH_MARGIN)" and "512 \<le> unat sp"
    and "emuroot_scratch t l1 = (a1, t1)" "a1 \<noteq> 0" "unat l1 < 2 ^ 63"
    and "emuroot_scratch t1 l2 = (a2, t2)" "a2 \<noteq> 0" "unat l2 < 2 ^ 63"
  shows "unat a1 + unat l1 + 512 \<le> unat sp \<and> unat a2 + unat l2 \<le> unat a1 \<and>
    unat a1 mod 16 = 0 \<and> unat a2 mod 16 = 0 \<and> scratch_top t2 = a2"
proof -
  have "unat (sp - SCRATCH_MARGIN) = unat sp - 512"
    using assms(2) unat_sub [of SCRATCH_MARGIN sp] by (simp add: SCRATCH_MARGIN_def word_le_nat_alt)
  then have "unat (scratch_top t) + 512 \<le> unat sp"
    using assms(1,2) by (simp add: unat_align_down)
  then show ?thesis
    using scratch_bounds [OF assms(3-5)] scratch_bounds [OF assms(6-8)] by simp
qed

theorem scratch_buffers_bounded_witness:
  "(case emuroot_scratch (zero_tracee\<lparr>scratch_top := 65024\<rparr>) 12 of (a1, t1) \<Rightarrow>
     case emuroot_scratch t1 20 of (a2, t2) \<Rightarrow> unat a1 + 12 + 512 \<le> 65536 \<and> unat a2 + 20 \<le> unat a1)"
proof -
  have e: "emuroot_scratch (zero_tracee\<lparr>scratch_top := 65024\<rparr>) 12 = (65008, zero_tracee\<lparr>scratch_top := 65008\<rparr>)"
    "emuroot_scratch (zero_tracee\<lparr>scratch_top := 65008\<rparr>) 20 = (64976, zero_tracee\<lparr>scratch_top := 64976\<rparr>)"
    "align_down 4 (65536 - SCRATCH_MARGIN) = 65024"
    by (simp_all add: emuroot_scratch_def align_down_def SCRATCH_MARGIN_def Let_def mask_eq_exp_minus_1)
  show ?thesis
    using scratch_buffers_bounded [OF _ _ e(1) _ _ e(2), of 65536] e(3) by (simp add: e(1,2))
qed

text \<open>What \<^verbatim>\<open>rewrite_sockaddr\<close> reads: the address padded to its full size, and the path in it.\<close>

definition sun_of :: "cfg \<Rightarrow> sys \<Rightarrow> nat \<Rightarrow> nat \<Rightarrow> u8 list" where
  "sun_of C s addr_slot len_slot =
     (let len = min (unat (get_arg C s len_slot)) SUN_SIZE
      in mread (s_mem s) (get_arg C s addr_slot) len @ replicate (SUN_SIZE - len) 0)"

definition sun_path_of :: "u8 list \<Rightarrow> string" where
  "sun_path_of sun = bytes_str (takeWhile (\<lambda>b. b \<noteq> 0) (drop SUN_PATH sun))"

lemma scratch_slot:
  "scratch n s = (a, s1) \<Longrightarrow> s_regs s1 = s_regs s \<and> s_mem s1 = s_mem s \<and> s_kregs s1 = s_kregs s"
  by (auto simp: scratch_def split: prod.splits)

lemma write_at_slot: "write_at a bs s = (ok, s1) \<Longrightarrow> s_regs s1 = s_regs s \<and> s_kregs s1 = s_kregs s"
  by (auto simp: write_at_def split: prod.splits)


text \<open>\<^verbatim>\<open>connect(fd, {AF_UNIX, "/u"}, 5)\<close>.\<close>

definition demo_sock :: sys where
  "demo_sock = demo_sys\<lparr>
     s_mem := (\<lambda>a. if a \<ge> 131072 then None else if a = 8192 then Some 1
                   else if a = 8194 then Some 0x2F else if a = 8195 then Some 0x75 else Some 0),
     s_regs := ((\<lambda>_. 0)(13 := 8192, 12 := 5))\<rparr>"


end
