(* ===== verification/Identity.thy ===== *)
theory Identity
  imports Rewrite
begin

text \<open>
  \<^verbatim>\<open>identity.c\<close>: what happens at a syscall's entry on the identity side. Credential changes are
  turned into real no-ops (\<^verbatim>\<open>creds.c\<close> emulates them at exit); the file a \<^verbatim>\<open>chown\<close> is about, its
  owner as the guest sees it and the requested owner are noted, and so is the path of a file the
  call is about to create under another identity.
\<close>

definition NO_ID :: u64 where "NO_ID = 0xFFFFFFFF"

definition neutralize_id_change :: "cfg \<Rightarrow> action option \<Rightarrow> sys \<Rightarrow> sys" where
  "neutralize_id_change C a s =
     (case a of
        Some A_SETUID \<Rightarrow> put_regs C (set_arg C 1 (ucast (h_geteuid (s_host s))) s)
      | Some A_SETGID \<Rightarrow> put_regs C (set_arg C 1 (ucast (h_getegid (s_host s))) s)
      | Some A_SETREUID \<Rightarrow> put_regs C (set_arg C 1 NO_ID (set_arg C 2 NO_ID s))
      | Some A_SETREGID \<Rightarrow> put_regs C (set_arg C 1 NO_ID (set_arg C 2 NO_ID s))
      | Some A_SETRESUID \<Rightarrow> put_regs C (set_arg C 1 NO_ID (set_arg C 2 NO_ID (set_arg C 3 NO_ID s)))
      | Some A_SETRESGID \<Rightarrow> put_regs C (set_arg C 1 NO_ID (set_arg C 2 NO_ID (set_arg C 3 NO_ID s)))
      | Some A_SETFSUID \<Rightarrow> put_regs C (set_arg C 1 NO_ID s)
      | Some A_SETFSGID \<Rightarrow> put_regs C (set_arg C 1 NO_ID s)
      | _ \<Rightarrow> s)"

definition fd_link :: "sys \<Rightarrow> u64 \<Rightarrow> string" where
  "fd_link s fd = ''/proc/'' @ dec_int (t_pid (s_tr s)) @ ''/fd/'' @ dec_int (sint (ucast fd :: 32 word))"

text \<open>The file a \<^verbatim>\<open>chown\<close> names: its path argument, or its descriptor when there is none to read.\<close>

definition chown_stat :: "cfg \<Rightarrow> int \<Rightarrow> path_syscall_t option \<Rightarrow> sys \<Rightarrow> stat_t option" where
  "chown_stat C sysno d s =
     (let by_fd = h_stat (s_host s) (fd_link s (get_arg C s 1))
      in case d of
           None \<Rightarrow> by_fd
         | Some d \<Rightarrow>
             let follow = emuroot_follow_last C s d
             in (case emuroot_host_path_arg C s sysno (ps_slot1 d) follow of
                   None \<Rightarrow> by_fd
                 | Some host \<Rightarrow> if follow then h_stat (s_host s) host else h_lstat (s_host s) host))"

definition note_chown :: "cfg \<Rightarrow> int \<Rightarrow> path_syscall_t option \<Rightarrow> sys \<Rightarrow> sys" where
  "note_chown C sysno d s =
     (case chown_stat C sysno d s of
        None \<Rightarrow> s
      | Some st \<Rightarrow>
          let uid_arg = (if is_sys C ''fchownat'' sysno then 3 else 2);
              ctx = s_ctx s;
              seen = (if st_uid st = h_geteuid (s_host s) then fake_uid ctx else st_uid st,
                      if st_gid st = h_getegid (s_host s) then fake_gid ctx else st_gid st);
              cur = (case emuroot_owner_lookup (owners ctx) (st_dev st) (st_ino st) of
                       Some o' \<Rightarrow> o' | None \<Rightarrow> seen)
          in upd_tr (\<lambda>t. t\<lparr>chown_valid := True, chown_dev := st_dev st, chown_ino := st_ino st,
                chown_cur_uid := fst cur, chown_cur_gid := snd cur,
                chown_uid := ucast (get_arg C s uid_arg), chown_gid := ucast (get_arg C s (uid_arg + 1))\<rparr>) s)"

definition creates_file :: "cfg \<Rightarrow> int \<Rightarrow> sys \<Rightarrow> bool" where
  "creates_file C sysno s \<longleftrightarrow>
     (if is_sys C ''open'' sysno then get_arg C s 2 AND O_CREAT \<noteq> 0
      else if is_sys C ''openat'' sysno then get_arg C s 3 AND O_CREAT \<noteq> 0
      else list_ex (\<lambda>n. is_sys C n sysno)
        [''creat'', ''mkdir'', ''mkdirat'', ''mknod'', ''mknodat'', ''symlink'', ''symlinkat''])"

definition emuroot_note_creation :: "cfg \<Rightarrow> int \<Rightarrow> path_syscall_t \<Rightarrow> sys \<Rightarrow> sys" where
  "emuroot_note_creation C sysno d s =
     (let ctx = s_ctx s; cr = t_creds (s_tr s)
      in if \<not> has_fake_ids ctx \<or> fsuid cr = fake_uid ctx \<and> fsgid cr = fake_gid ctx then s
         else if \<not> creates_file C sysno s then s
         else upd_tr (\<lambda>t. t\<lparr>t_created :=
                (case emuroot_host_path_arg C s sysno (ps_slot1 d) False of
                   Some host \<Rightarrow> if h_lstat (s_host s) host = None then host else []
                 | None \<Rightarrow> [])\<rparr>) s)"

definition emuroot_identity_entry :: "cfg \<Rightarrow> int \<Rightarrow> action option \<Rightarrow> sys \<Rightarrow> sys" where
  "emuroot_identity_entry C sysno action s =
     (let s = neutralize_id_change C action s
      in if action = Some A_CHOWN then note_chown C sysno (emuroot_find_path_syscall (c_nr C) sysno) s else s)"

end
