(* ===== verification/Mounts.thy ===== *)
theory Mounts
  imports Identity
begin

text \<open>
  \<^verbatim>\<open>mounts.c\<close>: \<^verbatim>\<open>chroot\<close>, \<^verbatim>\<open>mount\<close> and \<^verbatim>\<open>umount\<close> of a fake root, emulated at entry. The context's
  bindings change at once; a new root waits in \<^verbatim>\<open>pending_root\<close> for the exit handler.
\<close>

definition MS_BIND :: u64 where "MS_BIND = 4096"
definition MS_REMOUNT :: u64 where "MS_REMOUNT = 32"
definition MS_MOVE :: u64 where "MS_MOVE = 8192"

definition neutralize :: "cfg \<Rightarrow> nat \<Rightarrow> bool \<Rightarrow> sys \<Rightarrow> sys" where
  "neutralize C slot to_root s =
     (if \<not> to_root then put_regs C (set_arg C slot 0 s)
      else (case scratch 2 s of
              (slash, s) \<Rightarrow>
                if slash = 0 then put_regs C (set_arg C slot 0 s)
                else (case write_at slash (str_bytes ''/'' @ [0]) s of
                        (ok, s) \<Rightarrow> put_regs C (set_arg C slot (if ok then slash else 0) s))))"

definition guest_dir_exists :: "host_t \<Rightarrow> string \<Rightarrow> bool" where
  "guest_dir_exists h host = (case h_stat h host of None \<Rightarrow> False | Some st \<Rightarrow> S_ISDIR (st_mode st))"

definition canonical :: "host_t \<Rightarrow> string \<Rightarrow> string" where
  "canonical h host = (case h_realpath h host of Some c \<Rightarrow> c | None \<Rightarrow> host)"

definition emulate_chroot :: "cfg \<Rightarrow> int \<Rightarrow> path_syscall_t \<Rightarrow> sys \<Rightarrow> sys" where
  "emulate_chroot C sysno d s =
     (case emuroot_host_path_arg C s sysno (ps_slot1 d) True of
        None \<Rightarrow> s
      | Some host \<Rightarrow>
          if \<not> guest_dir_exists (s_host s) host then s
          else neutralize C (ps_slot1 d) True
                 (upd_tr (\<lambda>t. t\<lparr>pending_root := snprintf PATH_LEN (canonical (s_host s) host)\<rparr>) s))"

text \<open>What the mount makes visible, if anything.\<close>

definition mount_source :: "cfg \<Rightarrow> int \<Rightarrow> sys \<Rightarrow> string option" where
  "mount_source C sysno s =
     (let flags = get_arg C s 4
      in if flags AND (MS_REMOUNT OR MS_MOVE) \<noteq> 0 then None
         else if flags AND MS_BIND \<noteq> 0 then emuroot_host_path_arg C s sysno 1 True
         else if get_arg C s 3 = 0 then None
         else (case read_str_at s (get_arg C s 3) 64 of
                 None \<Rightarrow> None
               | Some fstype \<Rightarrow>
                   if fstype = ''proc'' then Some ''/proc''
                   else if fstype = ''sysfs'' then Some ''/sys''
                   else if fstype = ''devtmpfs'' then Some ''/dev''
                   else if fstype = ''devpts'' then Some ''/dev/pts'' else None))"

text \<open>The last binding's mount point is where the target lies on the host.\<close>

definition set_mount :: "string \<Rightarrow> emuroot_ctx \<Rightarrow> emuroot_ctx" where
  "set_mount host_target c =
     (let mt = snprintf PATH_LEN host_target
      in c\<lparr>bindings := butlast (bindings c) @
            [(last (bindings c))\<lparr>b_mount := mt, b_mount_len := length mt\<rparr>]\<rparr>)"

definition add_mount :: "host_t \<Rightarrow> string \<Rightarrow> string \<Rightarrow> string \<Rightarrow> emuroot_ctx \<Rightarrow> emuroot_ctx" where
  "add_mount h host guest_target host_target c =
     (case emuroot_bind (Some c) (Some (canonical h host)) (Some guest_target) of
        (rc, Some c') \<Rightarrow> if rc = EMUROOT_OK then set_mount host_target c' else c'
      | (rc, None) \<Rightarrow> c)"

definition emulate_mount :: "cfg \<Rightarrow> int \<Rightarrow> sys \<Rightarrow> sys" where
  "emulate_mount C sysno s =
     (case emuroot_guest_path_arg C s sysno 2 of
        None \<Rightarrow> s
      | Some (guest_target, host_target) \<Rightarrow>
          let s = (case mount_source C sysno s of
                     None \<Rightarrow> s
                   | Some host \<Rightarrow> s\<lparr>s_ctx := add_mount (s_host s) host guest_target host_target (s_ctx s)\<rparr>)
          in neutralize C 2 False (upd_tr (\<lambda>t. t\<lparr>mount_handled := True\<rparr>) s))"

definition emulate_umount :: "cfg \<Rightarrow> int \<Rightarrow> sys \<Rightarrow> sys" where
  "emulate_umount C sysno s =
     (case emuroot_guest_path_arg C s sysno 1 of
        None \<Rightarrow> s
      | Some (guest_target, host_target) \<Rightarrow>
          neutralize C 1 False (upd_tr (\<lambda>t. t\<lparr>mount_handled := True\<rparr>)
            (s\<lparr>s_ctx := snd (emuroot_unbind (s_ctx s) guest_target)\<rparr>)))"

text \<open>Returns whether the call was emulated.\<close>

definition emuroot_emulate_mounts :: "cfg \<Rightarrow> int \<Rightarrow> action option \<Rightarrow> sys \<Rightarrow> bool \<times> sys" where
  "emuroot_emulate_mounts C sysno action s =
     (if id_e (uid (t_creds (s_tr s))) \<noteq> 0 then (False, s)
      else case action of
        Some A_CHROOT \<Rightarrow>
          (case emuroot_find_path_syscall (c_nr C) sysno of
             None \<Rightarrow> (False, s)
           | Some d \<Rightarrow> let s = emulate_chroot C sysno d s in (pending_root (s_tr s) \<noteq> [], s))
      | Some A_MOUNT \<Rightarrow> (True, emulate_mount C sysno s)
      | Some A_UMOUNT \<Rightarrow> (True, emulate_umount C sysno s)
      | _ \<Rightarrow> (False, s))"

subsection \<open>Properties\<close>

lemma snprintf_len: "length s < n \<Longrightarrow> snprintf n s = s"
  by simp

lemma neutralize_slot:
  assumes "arch_wf (c_arch C)" and "slot \<in> {1..6}"
  shows "(let s' = neutralize C slot r s; p = s_kregs s' (reg_arg (c_arch C) slot) in
     s_ctx s' = s_ctx s \<and> (p = 0 \<or> r \<and> read_str_at s' p PATH_LEN = Some ''/''))"
proof (cases r)
  case False
  then show ?thesis using assms by (simp add: neutralize_def kregs_put_arg)
next
  case True
  obtain a s1 where sc: "scratch (length ''/'' + 1) s = (a, s1)" by fastforce
  obtain ok s2 where w: "write_at a (str_bytes ''/'' @ [0]) s1 = (ok, s2)" by fastforce
  have ctx: "s_ctx s1 = s_ctx s" "s_ctx s2 = s_ctx s1"
    using sc w by (auto simp: scratch_def write_at_def split: prod.splits)
  have n: "neutralize C slot True s = (if a = 0 then put_regs C (set_arg C slot 0 s1)
      else put_regs C (set_arg C slot (if ok then a else 0) s2))"
    using sc w by (simp add: neutralize_def numeral_2_eq_2)
  show ?thesis
  proof (cases "a \<noteq> 0 \<and> ok")
    case True
    have rd: "read_str_at s2 a PATH_LEN = Some ''/''"
      using scratch_str [OF sc _ _, of s2 PATH_LEN] w True by (simp add: PATH_LEN_def clean_def)
    then have "read_str_at (put_regs C (set_arg C slot a s2)) a PATH_LEN = Some ''/''"
      by (simp add: read_str_at_def)
    then show ?thesis using True n \<open>r\<close> ctx assms by (simp add: kregs_put_arg)
  next
    case False
    then show ?thesis using n \<open>r\<close> ctx assms by (auto simp: kregs_put_arg)
  qed
qed

lemma find_slot1: "emuroot_find_path_syscall nr sysno = Some d \<Longrightarrow> ps_slot1 d \<in> {1..6}"
  using find_path_entry_ok [of nr sysno d] by (simp add: entry_ok_def row_ok_def)

text \<open>C25: an emulated call is harmless. When a fake root's \<^verbatim>\<open>chroot\<close>, \<^verbatim>\<open>mount\<close> or \<^verbatim>\<open>umount\<close> is emulated,
  the path the kernel is left with is NULL, or \<^verbatim>\<open>"/"\<close> for \<^verbatim>\<open>chroot\<close>. The one exception is a mount or
  umount whose target cannot be named in the guest (an unreadable or empty string, or a relative path
  from a directory outside the emulated tree): it is reported as emulated although nothing was
  changed, so the kernel gets the guest's own arguments. A process that is not the fake root is
  never emulated.\<close>

theorem emulated_mounts_harmless:
  assumes wf: "arch_wf (c_arch C)" and start: "pending_root (s_tr s) = []"
    and emu: "emuroot_emulate_mounts C sysno a s = (True, s')"
  shows "id_e (uid (t_creds (s_tr s))) = 0 \<and>
    (a = Some A_CHROOT \<longrightarrow> (\<exists>d. emuroot_find_path_syscall (c_nr C) sysno = Some d \<and>
       (let p = s_kregs s' (reg_arg (c_arch C) (ps_slot1 d))
        in p = 0 \<or> read_str_at s' p PATH_LEN = Some ''/''))) \<and>
    (a = Some A_MOUNT \<longrightarrow> (if emuroot_guest_path_arg C s sysno 2 = None then s' = s
       else s_kregs s' (reg_arg (c_arch C) 2) = 0 \<and> mount_handled (s_tr s'))) \<and>
    (a = Some A_UMOUNT \<longrightarrow> (if emuroot_guest_path_arg C s sysno 1 = None then s' = s
       else s_kregs s' (reg_arg (c_arch C) 1) = 0 \<and> mount_handled (s_tr s'))) \<and>
    a \<in> {Some A_CHROOT, Some A_MOUNT, Some A_UMOUNT}"
proof -
  have root: "id_e (uid (t_creds (s_tr s))) = 0"
    using emu by (auto simp: emuroot_emulate_mounts_def split: if_splits)
  then have act: "a \<in> {Some A_CHROOT, Some A_MOUNT, Some A_UMOUNT}"
    using emu by (auto simp: emuroot_emulate_mounts_def split: option.splits action.splits)
  consider (ch) "a = Some A_CHROOT" | (mt) "a = Some A_MOUNT" | (um) "a = Some A_UMOUNT" using act by auto
  then show ?thesis
  proof cases
    case ch
    then obtain d where d: "emuroot_find_path_syscall (c_nr C) sysno = Some d"
        "s' = emulate_chroot C sysno d s" "pending_root (s_tr s') \<noteq> []"
      using emu root by (auto simp: emuroot_emulate_mounts_def Let_def split: option.splits)
    then obtain s0 where "s' = neutralize C (ps_slot1 d) True s0"
      using start by (auto simp: emulate_chroot_def split: option.splits if_splits)
    then show ?thesis
      using neutralize_slot [OF wf find_slot1 [OF d(1)], of True s0] d(1) ch root by (auto simp: Let_def)
  next
    case mt
    then have "s' = emulate_mount C sysno s" using emu root by (simp add: emuroot_emulate_mounts_def)
    then show ?thesis using mt root wf
      by (auto simp: emulate_mount_def neutralize_def kregs_put_arg Let_def split: option.splits)
  next
    case um
    then have "s' = emulate_umount C sysno s" using emu root by (simp add: emuroot_emulate_mounts_def)
    then show ?thesis using um root wf
      by (auto simp: emulate_umount_def neutralize_def kregs_put_arg Let_def split: option.splits)
  qed
qed

theorem emulated_mounts_harmless_witness:
  "case emuroot_emulate_mounts demo_cfg 165 (Some A_MOUNT) demo_sys of (True, s') \<Rightarrow> s' = demo_sys | _ \<Rightarrow> False"
proof -
  have wf: "arch_wf (c_arch demo_cfg)" by code_simp
  have r: "id_e (uid (t_creds (s_tr demo_sys))) = 0" "pending_root (s_tr demo_sys) = []"
    by (simp_all add: demo_sys_def zero_tracee_def creds_init_def Let_def)
  have g: "emuroot_guest_path_arg demo_cfg demo_sys 165 2 = None"
    by (simp add: emuroot_guest_path_arg_def given_path_def get_arg_def arg_def reg_arg_def demo_cfg_def
        arch_x86_64_def demo_sys_def Let_def)
  have e: "emuroot_emulate_mounts demo_cfg 165 (Some A_MOUNT) demo_sys = (True, emulate_mount demo_cfg 165 demo_sys)"
    using r by (simp add: emuroot_emulate_mounts_def)
  from emulated_mounts_harmless [OF wf r(2) e] g show ?thesis by (simp add: e)
qed

lemma emulate_mount_ctx:
  assumes "emuroot_guest_path_arg C s sysno 2 = Some (gt, ht)" and "mount_source C sysno s = Some host"
  shows "s_ctx (emulate_mount C sysno s) = add_mount (s_host s) host gt ht (s_ctx s)"
  using assms by (simp add: emulate_mount_def neutralize_def)

lemma add_mount_bindings:
  assumes "length (bindings c) < MAX_BINDINGS" "length (canonical h host) < PATH_LEN" "length gt < PATH_LEN"
    "length ht < PATH_LEN"
  shows "add_mount h host gt ht c = c\<lparr>bindings := bindings c @
    [\<lparr>b_host = canonical h host, b_guest = gt, b_guest_len = length gt, b_mount = ht, b_mount_len = length ht\<rparr>]\<rparr>"
  using assms by (simp add: add_mount_def emuroot_bind_def copy_path_def status_defs set_mount_def Let_def)

lemma guest_match_le: "guest_match g b \<Longrightarrow> binding_wf b \<Longrightarrow> g \<noteq> [] \<Longrightarrow> b_guest_len b \<le> length g"
proof -
  assume m: "guest_match g b" "binding_wf b" "g \<noteq> []"
  show "b_guest_len b \<le> length g"
  proof (cases "b_guest b = ''/''")
    case True
    then show ?thesis using m by (cases g) (auto simp: binding_wf_def)
  next
    case False
    then have "take (b_guest_len b) g = take (b_guest_len b) (b_guest b)"
      using m(1) by (simp add: guest_match_def has_prefix_def)
    then have "length (take (b_guest_len b) g) = b_guest_len b" using m(2) by (simp add: binding_wf_def)
    then show ?thesis by simp
  qed
qed

text \<open>C26: a mount takes effect and an unmount takes it back. When a fake root's \<^verbatim>\<open>mount\<close> has something
  to show and the table has room, the mount point's guest path then maps to the canonical source,
  whatever was bound or mounted there before; unmounting the same guest path later restores exactly
  the context there was.\<close>

theorem mount_umount_roundtrip:
  assumes wf: "ctx_wf (s_ctx s)"
    and gp: "emuroot_guest_path_arg C s sysno 2 = Some (gt, ht)" and src: "mount_source C sysno s = Some host"
    and room: "length (bindings (s_ctx s)) < MAX_BINDINGS" "length (canonical (s_host s) host) < PATH_LEN"
      "length gt < PATH_LEN" "length ht < PATH_LEN"
    and gt: "c_at gt 0 = SLASH" "gt \<noteq> ''/''" and hp: "canonical (s_host s) host \<noteq> ''/''" "canonical (s_host s) host \<noteq> []"
    and later: "s_ctx s2 = s_ctx (emulate_mount C sysno s)" "emuroot_guest_path_arg C s2 sysno2 1 = Some (gt, ht2)"
  shows "map_to_host (s_ctx s2) root PATH_LEN gt = canonical (s_host s) host \<and>
    s_ctx (emulate_umount C sysno2 s2) = s_ctx s"
proof -
  let ?h = "canonical (s_host s) host"
  let ?b = "\<lparr>b_host = ?h, b_guest = gt, b_guest_len = length gt, b_mount = ht, b_mount_len = length ht\<rparr>"
  have ctx: "s_ctx s2 = (s_ctx s)\<lparr>bindings := bindings (s_ctx s) @ [?b]\<rparr>"
    using later(1) emulate_mount_ctx [OF gp src] add_mount_bindings [OF room] by simp
  have ne: "gt \<noteq> []" using gt(1) by auto
  have m: "guest_match gt ?b" using gt by (simp add: guest_match_def has_prefix_def c_at_def)
  have "\<forall>y \<in> set (rev (bindings (s_ctx s))). guest_match gt y \<longrightarrow> b_guest_len y \<le> b_guest_len ?b"
    using wf guest_match_le [OF _ _ ne] by (auto simp: ctx_wf_def)
  then have "pick (guest_match gt) b_guest_len None (rev (bindings (s_ctx s2))) = Some ?b"
    using m pick_first [of "guest_match gt" ?b "[]" b_guest_len "rev (bindings (s_ctx s))" None] by (simp add: ctx)
  then have "map_to_host (s_ctx s2) root PATH_LEN gt = ?h"
    using gt(2) hp room(2) by (simp add: map_to_host_def host_part_def or_slash_def)
  moreover have "s_ctx (emulate_umount C sysno2 s2) = s_ctx s"
    using later(2) by (simp add: emulate_umount_def neutralize_def ctx emuroot_unbind_def)
  ultimately show ?thesis by simp
qed

definition demo_mount :: sys where
  "demo_mount = demo_sys\<lparr>s_regs := (s_regs demo_sys)(13 := 8192, 12 := 12288),
     s_mem := (\<lambda>a. if a = 12288 then Some 0x70 else if a = 12289 then Some 0x72 else if a = 12290 then Some 0x6F
        else if a = 12291 then Some 0x63 else demo_mem a)\<rparr>"

lemma demo_mount_args:
  "get_arg demo_cfg demo_mount (Suc 0) = 8192" "get_arg demo_cfg demo_mount 2 = 8192" 
  "get_arg demo_cfg demo_mount 3 = 12288" "get_arg demo_cfg demo_mount 4 = 0"
  by (simp_all add: get_arg_def arg_def reg_arg_def demo_cfg_def arch_x86_64_def demo_mount_def demo_sys_def Let_def)

lemma demo_mount_strings:
  "read_str_at demo_mount 8192 PATH_LEN = Some ''/usr/x''" "read_str_at demo_mount 12288 64 = Some ''proc''"
proof -
  let ?m = "s_mem demo_mount"
  have "mread ?m 8192 (length ''/usr/x'' + 1) = str_bytes ''/usr/x'' @ [0]"
    by (simp add: str_bytes_def demo_mem_def demo_mount_def)
  then show "read_str_at demo_mount 8192 PATH_LEN = Some ''/usr/x''"
    using str_at_written [of ?m 8192 "''/usr/x''" PATH_LEN] by (simp add: read_str_at_eq PATH_LEN_def)
  have "mread ?m 12288 (length ''proc'' + 1) = str_bytes ''proc'' @ [0]"
    by (simp add: str_bytes_def demo_mem_def demo_mount_def)
  then show "read_str_at demo_mount 12288 64 = Some ''proc''"
    using str_at_written [of ?m 12288 "''proc''" 64] by (simp add: read_str_at_eq)
qed

theorem mount_umount_roundtrip_witness:
  "let s = emulate_mount demo_cfg 165 demo_mount
   in map_to_host (s_ctx s) ''/srv'' PATH_LEN ''/usr/x'' = ''/proc'' \<and>
      s_ctx (emulate_umount demo_cfg 166 s) = s_ctx demo_mount"
proof -
  let ?s2 = "emulate_mount demo_cfg 165 demo_mount"
  have g: "given_path demo_cfg demo_mount 2 = Some ''/usr/x''" "given_path demo_cfg demo_mount 1 = Some ''/usr/x''"
    using demo_mount_strings by (simp_all add: given_path_def demo_mount_args)
  have h: "s_host demo_mount = demo_host" "t_root (s_tr demo_mount) = ''/srv''" "s_ctx demo_mount = s_ctx demo_sys"
    by (simp_all add: demo_mount_def demo_sys_def Let_def)
  have a: "absolute_guest_path demo_cfg s d ''/usr/x'' (2 * PATH_LEN) = Some ''/usr/x''" for s d
    by (simp add: absolute_guest_path_def c_at_def PATH_LEN_def)
  have "emuroot_translate_path_ex (s_ctx demo_sys) (h_readlink demo_host) ''/srv'' ''/usr/x'' True PATH_LEN PATH_LEN
      = (True, ''/srv/usr/x'', ''/usr/x'')" by code_simp
  then have gp: "emuroot_guest_path_arg demo_cfg demo_mount 165 2 = Some (''/usr/x'', ''/srv/usr/x'')"
    by (simp add: emuroot_guest_path_arg_def g a h)
  have src: "mount_source demo_cfg 165 demo_mount = Some ''/proc''"
    by (simp add: mount_source_def demo_mount_args demo_mount_strings)
  have c: "canonical demo_host ''/proc'' = ''/proc''" by code_simp
  have ctx: "s_ctx ?s2 = add_mount demo_host ''/proc'' ''/usr/x'' ''/srv/usr/x'' (s_ctx demo_sys)"
    using emulate_mount_ctx [OF gp src] by (simp add: h)
  have tr: "emuroot_translate_path_ex (add_mount demo_host ''/proc'' ''/usr/x'' ''/srv/usr/x'' (s_ctx demo_sys))
     (h_readlink demo_host) ''/srv'' ''/usr/x'' True PATH_LEN PATH_LEN = (True, ''/proc'', ''/usr/x'')" by code_simp
  have "arch_wf (c_arch demo_cfg)" by code_simp
  then have a1: "get_arg demo_cfg ?s2 (Suc 0) = 8192"
    by (simp add: emulate_mount_def gp src neutralize_def get_arg_def set_arg_def demo_mount_args [unfolded get_arg_def])
  have "s_mem ?s2 = s_mem demo_mount" "s_host ?s2 = demo_host" "t_root (s_tr ?s2) = ''/srv''"
    by (simp_all add: emulate_mount_def gp src neutralize_def h)
  then have gp2: "emuroot_guest_path_arg demo_cfg ?s2 166 1 = Some (''/usr/x'', ''/proc'')"
    using demo_mount_strings(1) by (simp add: emuroot_guest_path_arg_def given_path_def a1 read_str_at_def a ctx tr)
  have wf: "ctx_wf (s_ctx demo_mount)" by code_simp
  from mount_umount_roundtrip [OF wf gp src _ _ _ _ _ _ _ _ refl gp2, of "''/srv''"] show ?thesis
    by (simp add: h c demo_sys_def Let_def zero_ctx_def MAX_BINDINGS_def PATH_LEN_def c_at_def)
qed

end
