(* ===== verification/ProcMem.thy ===== *)
theory ProcMem
  imports Tracee
begin

text \<open>
  The first two ways of \<^verbatim>\<open>guest.c\<close> over the system calls they make: \<^verbatim>\<open>emuroot_process_vm\<close> and \<^verbatim>\<open>proc_mem\<close>, which
  make up a \<open>kmem\<close> of \<^verbatim>\<open>Guest\<close>. When the calls themselves serve mapped memory, that \<open>kmem\<close> has the laws the rest of
  the development asks of one, however they are refused.
\<close>

text \<open>The calls: \<^verbatim>\<open>open\<close> of a path for writing or for reading gives a descriptor or an error, \<^verbatim>\<open>pread\<close> and \<^verbatim>\<open>pwrite\<close> act on
  a descriptor. What \<^verbatim>\<open>close\<close> gives is dropped, and \<^verbatim>\<open>errno\<close> is put back after it.\<close>

record mem_calls =
  mc_vm_defined :: bool
  mc_readv :: "mem \<Rightarrow> u64 \<Rightarrow> nat \<Rightarrow> int + u8 list"
  mc_writev :: "mem \<Rightarrow> u64 \<Rightarrow> u8 list \<Rightarrow> int + nat \<times> mem"
  mc_open :: "string \<Rightarrow> bool \<Rightarrow> int + int"
  mc_pread :: "int \<Rightarrow> mem \<Rightarrow> u64 \<Rightarrow> nat \<Rightarrow> int + u8 list"
  mc_pwrite :: "int \<Rightarrow> mem \<Rightarrow> u64 \<Rightarrow> u8 list \<Rightarrow> int + nat \<times> mem"

definition process_vm_read :: "mem_calls \<Rightarrow> mem \<Rightarrow> u64 \<Rightarrow> nat \<Rightarrow> int + u8 list" where
  "process_vm_read K m a n = (if mc_vm_defined K then mc_readv K m a n else Inl ENOSYS)"

definition process_vm_write :: "mem_calls \<Rightarrow> mem \<Rightarrow> u64 \<Rightarrow> u8 list \<Rightarrow> int + nat \<times> mem" where
  "process_vm_write K m a bs = (if mc_vm_defined K then mc_writev K m a bs else Inl ENOSYS)"

definition mem_path :: "int \<Rightarrow> string" where
  "mem_path pid = snprintf 64 (''/proc/'' @ dec_int pid @ ''/mem'')"

definition proc_mem_read :: "mem_calls \<Rightarrow> int \<Rightarrow> mem \<Rightarrow> u64 \<Rightarrow> nat \<Rightarrow> int + u8 list" where
  "proc_mem_read K pid m a n =
     (case mc_open K (mem_path pid) False of Inl e \<Rightarrow> Inl e | Inr fd \<Rightarrow> mc_pread K fd m a n)"

definition proc_mem_write :: "mem_calls \<Rightarrow> int \<Rightarrow> mem \<Rightarrow> u64 \<Rightarrow> u8 list \<Rightarrow> int + nat \<times> mem" where
  "proc_mem_write K pid m a bs =
     (case mc_open K (mem_path pid) True of Inl e \<Rightarrow> Inl e | Inr fd \<Rightarrow> mc_pwrite K fd m a bs)"

text \<open>The primitives \<^verbatim>\<open>transfer\<close> works with; the word-wise requests of \<open>k\<close> are \<^verbatim>\<open>ptrace\<close>'s.\<close>

definition kmem_of :: "mem_calls \<Rightarrow> int \<Rightarrow> kmem \<Rightarrow> kmem" where
  "kmem_of K pid k = k\<lparr>vm_read := process_vm_read K, vm_write := process_vm_write K,
     pm_read := proc_mem_read K pid, pm_write := proc_mem_write K pid\<rparr>"

subsection \<open>The laws\<close>

definition writes_ok :: "(mem \<Rightarrow> u64 \<Rightarrow> u8 list \<Rightarrow> int + nat \<times> mem) \<Rightarrow> mem \<Rightarrow> bool" where
  "writes_ok wr m \<longleftrightarrow> (\<forall>a bs. case wr m a bs of
     Inl e \<Rightarrow> denied e \<or> mwrite m a bs = (0, m) \<and> bs \<noteq> [] | Inr r \<Rightarrow> r = mwrite m a bs)"

text \<open>Each call either is refused or acts on the mapped memory; opening the file fails only for want of permission, and is asked
  for the right path.\<close>

definition calls_ok :: "mem_calls \<Rightarrow> int \<Rightarrow> bool" where
  "calls_ok K pid \<longleftrightarrow>
     (\<forall>m. words_mapped m \<longrightarrow> reads_ok (mc_readv K) m \<and> writes_ok (mc_writev K) m \<and>
        (\<forall>fd. mc_open K (mem_path pid) False = Inr fd \<longrightarrow> reads_ok (mc_pread K fd) m) \<and>
        (\<forall>fd. mc_open K (mem_path pid) True = Inr fd \<longrightarrow> writes_ok (mc_pwrite K fd) m)) \<and>
     (\<forall>b e. mc_open K (mem_path pid) b = Inl e \<longrightarrow> denied e)"

definition words_ok :: "kmem \<Rightarrow> bool" where
  "words_ok k \<longleftrightarrow> (\<forall>m. words_mapped m \<longrightarrow> peek_ok k m \<and>
     (\<forall>a cs. length cs = 8 \<and> m (align_down 3 a) \<noteq> None \<longrightarrow>
        poke k m (align_down 3 a) cs = Inr (set_word m (align_down 3 a) cs)))"

lemma refused_ENOSYS [simp]: "denied ENOSYS"
  by (simp add: denied_def errno_defs)

lemma kmem_of_laws:
  assumes c: "calls_ok K pid" and w: "words_ok k"
  shows "kmem_laws (kmem_of K pid k)"
proof -
  have r: "reads_ok (process_vm_read K) m" "reads_ok (proc_mem_read K pid) m"
    "writes_ok (process_vm_write K) m" "writes_ok (proc_mem_write K pid) m" if "words_mapped m" for m
    using c that by (cases "mc_open K (mem_path pid) False"; cases "mc_open K (mem_path pid) True";
      simp add: calls_ok_def reads_ok_def writes_ok_def process_vm_read_def process_vm_write_def proc_mem_read_def proc_mem_write_def)+
  have p: "peek (kmem_of K pid k) = peek k" "poke (kmem_of K pid k) = poke k" by (simp_all add: kmem_of_def)
  have "peek_ok (kmem_of K pid k) m = peek_ok k m" for m by (simp add: peek_ok_def p)
  then show ?thesis
    using r w unfolding kmem_laws_def kmem_ok_def words_ok_def writes_ok_def p by (simp add: kmem_of_def)
qed

text \<open>So a string of the guest is read whatever the machine allows.\<close>

lemma read_str_any_way:
  assumes "calls_ok K pid" and "words_ok k" and "words_mapped m" and "0 < sz"
  shows "guest_read_str (\<lambda>a n. fst (transfer_read (kmem_of K pid k) m (md a n) a n)) a sz = str_at m a sz"
  using tr.guest_read_str_spec [of "kmem_of K pid k" m sz md a] kmem_of_laws [OF assms(1,2)] assms(3,4) by (simp add: kmem_laws_def)

end
