(* ===== verification/Exec.thy ===== *)
theory Exec
  imports Rewrite
begin

text \<open>
  \<^verbatim>\<open>exec.c\<close>: an \<^verbatim>\<open>execve\<close> is expanded through script interpreters and the root's own dynamic
  loader before the kernel sees it. A file is its bytes; \<open>read_at\<close> is a \<^verbatim>\<open>pread\<close> that must deliver
  everything. The C arrays of \<^verbatim>\<open>argv\<close> entries are lists of \<open>earg\<close>; the block written to the guest
  is \<open>exec_blob\<close>, made by \<open>layout\<close>. The host program's byte order is little endian and a pointer
  takes eight bytes.
\<close>

definition MAX_EXEC_ARGS :: nat where "MAX_EXEC_ARGS = 8192"
definition MAX_SHEBANG_DEPTH :: nat where "MAX_SHEBANG_DEPTH = 5"

datatype earg = EStr string | EPtr u64

definition replace_head :: "'a list \<Rightarrow> nat \<Rightarrow> 'a list \<Rightarrow> 'a list" where
  "replace_head args n strs = strs @ drop n args"

subsection \<open>Scripts\<close>

definition BLANKS :: string where "BLANKS = [CHR '' '', CHR 0x09]"

text \<open>The line after \<^verbatim>\<open>#!\<close>: the interpreter, and the rest with what trails it removed.\<close>

definition split_line :: "string \<Rightarrow> (string \<times> string option) option" where
  "split_line line =
     (let p = drop (strspn line BLANKS) line
      in if p = [] then None
         else
           let tok = strcspn p BLANKS;
               rest = drop (tok + strspn (drop tok p) BLANKS) p;
               rest = rev (dropWhile (\<lambda>c. c \<in> set (BLANKS @ [CHR 0x0D])) (rev rest))
           in Some (take tok p, if rest = [] then None else Some rest))"

text \<open>\<open>head\<close> is what the first read of the file gave. The copied line is a C string, so a NUL ends
  it.\<close>

definition parse_shebang :: "string \<Rightarrow> (string \<times> string option) option" where
  "parse_shebang head =
     (if length head < 3 \<or> head ! 0 \<noteq> CHR ''#'' \<or> head ! 1 \<noteq> CHR ''!'' then None
      else split_line (takeWhile (\<lambda>c. c \<noteq> NUL) (take 255 (takeWhile (\<lambda>c. c \<noteq> CHR 0x0A) (drop 2 head)))))"

subsection \<open>ELF files\<close>

text \<open>\<^verbatim>\<open>pread\<close> fails for an offset that is negative as an \<^verbatim>\<open>off_t\<close>.\<close>

definition read_at :: "u8 list \<Rightarrow> nat \<Rightarrow> u64 \<Rightarrow> u8 list option" where
  "read_at f n off =
     (let bs = take n (drop (unat off) f)
      in if sint off < 0 \<or> length bs \<noteq> n then None else Some bs)"

definition field :: "u8 list \<Rightarrow> nat \<Rightarrow> nat \<Rightarrow> u64" where
  "field bs off n = le_word (take n (drop off bs))"

text \<open>The sizes and offsets of the structs of \<^verbatim>\<open>elf.h\<close> that are read.\<close>

record elf_class =
  ehdr_size :: nat
  e_phoff :: "nat \<times> nat"
  e_phentsize :: nat
  e_phnum :: nat
  phdr_size :: nat
  p_offset :: "nat \<times> nat"
  p_filesz :: "nat \<times> nat"

definition elf64 :: elf_class where
  "elf64 = \<lparr>ehdr_size = 64, e_phoff = (32, 8), e_phentsize = 54, e_phnum = 56, phdr_size = 56,
     p_offset = (8, 8), p_filesz = (32, 8)\<rparr>"

definition elf32 :: elf_class where
  "elf32 = \<lparr>ehdr_size = 52, e_phoff = (28, 4), e_phentsize = 42, e_phnum = 44, phdr_size = 32,
     p_offset = (4, 4), p_filesz = (16, 4)\<rparr>"

definition PT_INTERP :: u64 where "PT_INTERP = 3"

definition elf_class_of :: "u8 list \<Rightarrow> elf_class option" where
  "elf_class_of eid = (if eid ! 4 = 2 then Some elf64 else if eid ! 4 = 1 then Some elf32 else None)"

text \<open>The interpreter's name is the C string left in the buffer.\<close>

definition interp_of :: "u8 list \<Rightarrow> nat \<Rightarrow> u64 \<Rightarrow> u64 \<Rightarrow> string option" where
  "interp_of f sz off filesz =
     (if filesz = 0 \<or> unat filesz \<ge> sz then None
      else map_option (\<lambda>bs. bytes_str (takeWhile (\<lambda>b. b \<noteq> 0) bs)) (read_at f (unat filesz) off))"

fun scan_phdrs :: "elf_class \<Rightarrow> u8 list \<Rightarrow> nat \<Rightarrow> u64 \<Rightarrow> u64 \<Rightarrow> nat list \<Rightarrow> string option" where
  "scan_phdrs k f sz phoff phentsize [] = None"
| "scan_phdrs k f sz phoff phentsize (i # is) =
     (case read_at f (phdr_size k) (phoff + of_nat i * phentsize) of
        None \<Rightarrow> None
      | Some ph \<Rightarrow>
          if field ph 0 4 = PT_INTERP
          then interp_of f sz (field ph (fst (p_offset k)) (snd (p_offset k)))
                 (field ph (fst (p_filesz k)) (snd (p_filesz k)))
          else scan_phdrs k f sz phoff phentsize is)"

definition elf_interp :: "u8 list \<Rightarrow> nat \<Rightarrow> string option" where
  "elf_interp f sz =
     (case read_at f 16 0 of
        None \<Rightarrow> None
      | Some eid \<Rightarrow>
          if take 4 eid \<noteq> [0x7F, 0x45, 0x4C, 0x46] \<or> eid ! 5 \<noteq> 1 then None
          else (case elf_class_of eid of
                  None \<Rightarrow> None
                | Some k \<Rightarrow>
                    (case read_at f (ehdr_size k) 0 of
                       None \<Rightarrow> None
                     | Some h \<Rightarrow>
                         scan_phdrs k f sz (field h (fst (e_phoff k)) (snd (e_phoff k)))
                           (field h (e_phentsize k) 2) [0..<unat (field h (e_phnum k) 2)])))"

subsection \<open>The loader\<close>

definition contains :: "u8 list \<Rightarrow> string \<Rightarrow> bool" where
  "contains hay needle =
     list_ex (\<lambda>i. take (length needle) (drop i hay) = str_bytes needle) [0..<length hay + 1 - length needle]"

definition LOADER_MAX :: nat where "LOADER_MAX = 4194304"

definition loader_has_argv0 :: "string \<Rightarrow> sys \<Rightarrow> bool \<times> sys" where
  "loader_has_argv0 host_path s =
     (case map_of (s_cache s) host_path of
        Some ok \<Rightarrow> (ok, s)
      | None \<Rightarrow>
          let ok = (case h_read (s_host s) host_path of
                      None \<Rightarrow> False | Some f \<Rightarrow> contains (take LOADER_MAX f) ''--argv0'')
          in (ok, if length (s_cache s) < 8
                  then s\<lparr>s_cache := s_cache s @ [(snprintf PATH_LEN host_path, ok)]\<rparr> else s))"

definition cwd_link :: "sys \<Rightarrow> string" where
  "cwd_link s = ''/proc/'' @ dec_int (t_pid (s_tr s)) @ ''/cwd''"

definition host_path_of :: "sys \<Rightarrow> string \<Rightarrow> nat \<Rightarrow> string" where
  "host_path_of s path sz =
     (if c_at path 0 = SLASH then snd (translate s path True sz)
      else
        let cwd = (case readlink_buf s (cwd_link s) of None \<Rightarrow> [] | Some l \<Rightarrow> l)
        in if length cwd + length path + 2 > sz then [] else cwd @ ''/'' @ path)"

text \<open>When the guest's directory fills the whole buffer the slash overwrites the terminator; the
  result is then the buffer's \<open>sz\<close> characters.\<close>

definition guest_absolute :: "sys \<Rightarrow> string \<Rightarrow> nat \<Rightarrow> string" where
  "guest_absolute s path sz =
     (if c_at path 0 = SLASH then snprintf sz path
      else
        let guest_cwd =
              (case readlink_buf s (cwd_link s) of
                 None \<Rightarrow> ''/''
               | Some cwd \<Rightarrow>
                   (case emuroot_host_to_guest (s_ctx s) (t_root (s_tr s)) cwd PATH_LEN of
                      None \<Rightarrow> ''/'' | Some g \<Rightarrow> g));
            out = snprintf sz guest_cwd;
            out = (if length guest_cwd > 1 \<and> length guest_cwd < sz then out @ ''/'' else out)
        in if length out < sz then out @ take (sz - length out - 1) path else out)"

subsection \<open>The new argument list\<close>

fun read_argv :: "mem \<Rightarrow> u64 \<Rightarrow> nat \<Rightarrow> earg list" where
  "read_argv m a 0 = []"
| "read_argv m a (Suc n) =
     (let bs = mread m a 8; p = le_word bs
      in if length bs \<noteq> 8 \<or> p = 0 then [] else EPtr p # read_argv m (a + 8) n)"

record exec_state =
  x_path :: string
  x_host :: string
  x_args :: "earg list"
  x_rewritten :: bool

text \<open>A script: its interpreter is what is run next.\<close>

definition through_script :: "string \<Rightarrow> string option \<Rightarrow> exec_state \<Rightarrow> exec_state" where
  "through_script interp opt x =
     x\<lparr>x_args := replace_head (x_args x) 1
          ([EStr interp] @ (case opt of None \<Rightarrow> [] | Some a \<Rightarrow> [EStr a]) @ [EStr (x_path x)]),
       x_path := snprintf PATH_LEN interp, x_rewritten := True\<rparr>"

definition same_at_both :: "host_t \<Rightarrow> string \<Rightarrow> string \<Rightarrow> bool" where
  "same_at_both h a b =
     (case (h_stat h a, h_stat h b) of (Some x, Some y) \<Rightarrow> same_file x y | _ \<Rightarrow> False)"

definition argv0_of :: "sys \<Rightarrow> earg list \<Rightarrow> string" where
  "argv0_of s args =
     (case hd args of
        EStr t \<Rightarrow> snprintf PATH_LEN t
      | EPtr p \<Rightarrow> (case read_str_at s p PATH_LEN of None \<Rightarrow> [] | Some t \<Rightarrow> t))"

text \<open>A dynamically linked program: the root's loader is run on it, unless the kernel finds the same
  one.\<close>

definition through_loader :: "string \<Rightarrow> sys \<Rightarrow> exec_state \<Rightarrow> sys \<times> exec_state" where
  "through_loader interp s x =
     (let loader_host = snd (translate s interp True PATH_LEN)
      in if same_at_both (s_host s) interp loader_host then (s, x)
         else (case loader_has_argv0 loader_host s of
                 (has, s) \<Rightarrow>
                   let lead = [EStr interp] @
                         (if has then [EStr ''--argv0'', EStr (argv0_of s (x_args x))] else []) @ [EStr (x_path x)]
                   in (upd_tr (\<lambda>t. t\<lparr>pending_exe := guest_absolute s (x_path x) PATH_LEN\<rparr>) s,
                       x\<lparr>x_args := replace_head (x_args x) 1 lead, x_path := snprintf PATH_LEN interp,
                         x_host := snprintf PATH_LEN loader_host, x_rewritten := True\<rparr>)))"

fun exec_loop :: "nat \<Rightarrow> sys \<Rightarrow> exec_state \<Rightarrow> sys \<times> exec_state" where
  "exec_loop 0 s x = (s, x)"
| "exec_loop (Suc depth) s x =
     (let host = host_path_of s (x_path x) PATH_LEN;
          x = x\<lparr>x_host := host\<rparr>
      in case h_read (s_host s) host of
           None \<Rightarrow> (s, x)
         | Some f \<Rightarrow>
             (case parse_shebang (bytes_str (take 256 f)) of
                Some (interp, opt) \<Rightarrow> exec_loop depth s (through_script interp opt x)
              | None \<Rightarrow>
                  (case elf_interp f PATH_LEN of
                     None \<Rightarrow> (s, x)
                   | Some interp \<Rightarrow> through_loader interp s x)))"

subsection \<open>The block in guest memory\<close>

text \<open>The made-up strings from offset \<open>off\<close> of the block at \<open>base\<close>, and the pointer of every entry.\<close>

fun layout :: "u64 \<Rightarrow> nat \<Rightarrow> earg list \<Rightarrow> u8 list \<times> u64 list" where
  "layout base off [] = ([], [])"
| "layout base off (EStr t # es) =
     (case layout base (off + length t + 1) es of (bs, ps) \<Rightarrow> (str_bytes t @ 0 # bs, (base + of_nat off) # ps))"
| "layout base off (EPtr p # es) = (case layout base off es of (bs, ps) \<Rightarrow> (bs, p # ps))"

definition ptr_bytes :: "u64 list \<Rightarrow> u8 list" where
  "ptr_bytes ps = concat (map (le_bytes 8) ps)"

text \<open>The offset of the pointer array, and the bytes written.\<close>

definition exec_blob :: "u64 \<Rightarrow> string \<Rightarrow> earg list \<Rightarrow> nat \<times> u8 list" where
  "exec_blob base host args =
     (case layout base (length host + 1) args of
        (strs, ps) \<Rightarrow>
          let text = str_bytes host @ 0 # strs;
              off = (length text + 15) div 16 * 16
          in (off, text @ replicate (off - length text) 0 @ ptr_bytes (ps @ [0])))"

definition blob_total :: "string \<Rightarrow> earg list \<Rightarrow> nat" where
  "blob_total host args =
     length host + 1 + (length args + 1) * 8 + 32 +
     sum_list (map (\<lambda>e. case e of EStr t \<Rightarrow> length t + 1 | EPtr _ \<Rightarrow> 0) args)"

definition place_exec :: "cfg \<Rightarrow> nat \<Rightarrow> nat \<Rightarrow> exec_state \<Rightarrow> sys \<Rightarrow> int \<times> sys" where
  "place_exec C path_slot argv_slot x s =
     (let total = blob_total (x_host x) (x_args x);
          room = h_calloc (s_host s) total \<and> h_calloc (s_host s) ((length (x_args x) + 1) * 8);
          failed = (\<lambda>s. (- 1, put_regs C (set_arg C path_slot 0 s)))
      in case (if room then scratch total s else (0, s)) of
           (base, s) \<Rightarrow>
             if base = 0 then failed s
             else (case exec_blob base (x_host x) (x_args x) of
                     (off, blob) \<Rightarrow>
                       (case write_at base blob s of
                          (ok, s) \<Rightarrow>
                            if ok then (1, put_regs C (set_arg C argv_slot (base + of_nat off)
                                             (set_arg C path_slot base s)))
                            else failed s)))"

text \<open>The result is 1 if the call was rewritten, -1 if it had to be and could not, 0 to leave it to
  the path translation.\<close>

definition emuroot_rewrite_exec :: "cfg \<Rightarrow> nat \<Rightarrow> nat \<Rightarrow> sys \<Rightarrow> int \<times> sys" where
  "emuroot_rewrite_exec C path_slot argv_slot s =
     (let path = get_arg C s path_slot; argv = get_arg C s argv_slot
      in if path = 0 \<or> argv = 0 then (0, s)
         else (case read_str_at s path PATH_LEN of
                 None \<Rightarrow> (0, s)
               | Some exec_path \<Rightarrow>
                   if \<not> h_calloc (s_host s) ((MAX_EXEC_ARGS + 16) * 16) then (0, s)
                   else
                     let args = read_argv (s_mem s) argv MAX_EXEC_ARGS
                     in if args = [] then (0, s)
                        else (case exec_loop MAX_SHEBANG_DEPTH s
                                \<lparr>x_path = exec_path, x_host = [], x_args = args, x_rewritten = False\<rparr> of
                                (s, x) \<Rightarrow> if x_rewritten x then place_exec C path_slot argv_slot x s else (0, s))))"

subsection \<open>Scripts: what the line says is what is run\<close>

lemma takeWhile_all_then: "\<forall>x \<in> set xs. P x \<Longrightarrow> \<not> P y \<Longrightarrow> takeWhile P (xs @ y # ys) = xs"
  by (simp add: takeWhile_tail)

lemma dropWhile_all_then: "\<forall>x \<in> set xs. P x \<Longrightarrow> ys = [] \<or> \<not> P (hd ys) \<Longrightarrow> dropWhile P (xs @ ys) = ys"
  by (cases ys) (auto simp: dropWhile_append)

lemma drop_strspn: "drop (strspn s set1) s = dropWhile (\<lambda>c. c \<in> set set1) s"
  by (simp add: strspn_def dropWhile_eq_drop)

lemma strspn_skip:
  "set bl \<subseteq> set set1 \<Longrightarrow> s = [] \<or> hd s \<notin> set set1 \<Longrightarrow> drop (strspn (bl @ s) set1) (bl @ s) = s"
  unfolding drop_strspn by (rule dropWhile_all_then) (auto simp: subset_iff)

lemma strcspn_token:
  "set tok \<inter> set set1 = {} \<Longrightarrow> s = [] \<or> hd s \<in> set set1 \<Longrightarrow> strcspn (tok @ s) set1 = length tok"
  by (cases s) (auto simp: strcspn_def takeWhile_tail takeWhile_eq_all_conv disjoint_iff intro: arg_cong)

lemma strip_end:
  assumes "\<forall>c \<in> set tail. c \<in> S" and "a = [] \<or> last a \<notin> S"
  shows "rev (dropWhile (\<lambda>c. c \<in> S) (rev (a @ tail))) = a"
proof -
  have "dropWhile (\<lambda>c. c \<in> S) (rev tail @ rev a) = rev a"
    using assms by (intro dropWhile_all_then) (auto simp: hd_rev)
  then show ?thesis by simp
qed

lemma shebang_head:
  assumes "length l \<le> 254"
  shows "take 256 (''#!'' @ l @ ys) = ''#!'' @ l @ take (254 - length l) ys"
proof -
  have "take 256 (''#!'' @ l @ ys) = ''#!'' @ take 254 (l @ ys)" by simp
  then show ?thesis using assms by simp
qed

lemma split_line_words:
  assumes interp: "interp \<noteq> []" "set interp \<inter> set BLANKS = {}" and bl: "set bl \<subseteq> set BLANKS" and sep: "set sep \<subseteq> set BLANKS"
    and tail: "set tail \<subseteq> set (BLANKS @ [CHR 0x0D])"
    and a: "a = [] \<or> hd a \<notin> set BLANKS \<and> last a \<notin> set (BLANKS @ [CHR 0x0D])"
    and gap: "sep \<noteq> [] \<or> a = [] \<and> tail = []"
  shows "split_line (bl @ interp @ sep @ a @ tail) = Some (interp, if a = [] then None else Some a)"
proof -
  let ?l = "bl @ interp @ sep @ a @ tail" and ?q = "interp @ sep @ a @ tail"
  have p: "drop (strspn ?l BLANKS) ?l = ?q"
    using interp bl by (intro strspn_skip) (auto simp: hd_append disjoint_iff)
  have tok: "strcspn ?q BLANKS = length interp"
    using interp sep gap by (intro strcspn_token) (cases sep; auto)+
  have "drop (strspn (sep @ a @ tail) BLANKS) (sep @ a @ tail) = dropWhile (\<lambda>c. c \<in> set BLANKS) (a @ tail)"
    unfolding drop_strspn using sep by (intro dropWhile_append2) (auto simp: subset_iff)
  moreover have "drop (length interp + n) (interp @ y) = drop n y" "drop (length interp) (interp @ y) = y" for n and y :: string
    by simp_all
  ultimately have rest: "drop (length interp + strspn (drop (length interp) ?q) BLANKS) ?q = dropWhile (\<lambda>c. c \<in> set BLANKS) (a @ tail)"
    by (simp only:)
  have strip: "rev (dropWhile (\<lambda>c. c \<in> set (BLANKS @ [CHR 0x0D])) (rev (dropWhile (\<lambda>c. c \<in> set BLANKS) (a @ tail)))) = a"
  proof (cases "a = []")
    case True
    have "\<forall>c \<in> set (dropWhile (\<lambda>c. c \<in> set BLANKS) tail). c \<in> set (BLANKS @ [CHR 0x0D])"
      using tail by (auto dest: set_dropWhileD)
    then show ?thesis using True strip_end [of "dropWhile (\<lambda>c. c \<in> set BLANKS) tail" _ "[]"] by simp
  next
    case False
    then have "dropWhile (\<lambda>c. c \<in> set BLANKS) (a @ tail) = a @ tail" using a by (cases a) auto
    then show ?thesis using a False tail by (simp only:) (rule strip_end, auto)
  qed
  show ?thesis unfolding split_line_def Let_def p tok rest strip using interp(1) by simp
qed

lemma line_copied:
  assumes clean: "\<forall>c \<in> set l. c \<noteq> NUL \<and> c \<noteq> CHR 0x0A" and len: "length l \<le> 254" "l \<noteq> []"
  shows "parse_shebang (take 256 (''#!'' @ l @ CHR 0x0A # body)) = split_line l"
proof -
  obtain r where h: "take 256 (''#!'' @ l @ CHR 0x0A # body) = ''#!'' @ l @ r"
    and r: "r = [] \<or> hd r = CHR 0x0A"
  proof
    show "take 256 (''#!'' @ l @ CHR 0x0A # body) = ''#!'' @ l @ take (254 - length l) (CHR 0x0A # body)"
      by (rule shebang_head [OF len(1)])
    show "take (254 - length l) (CHR 0x0A # body) = [] \<or> hd (take (254 - length l) (CHR 0x0A # body)) = CHR 0x0A"
      by (cases "254 - length l") auto
  qed
  have "takeWhile (\<lambda>c. c \<noteq> CHR 0x0A) (l @ r) = l"
    using r clean by (cases r) (simp_all add: takeWhile_all_then)
  moreover have "takeWhile (\<lambda>c. c \<noteq> NUL) l = l" using clean by simp
  moreover have "take 255 l = l" using len by simp
  ultimately show ?thesis unfolding h parse_shebang_def using len by (cases l) simp_all
qed

subsection \<open>ELF files: the first interpreter entry\<close>

text \<open>Program header \<open>i\<close> of a file with its table at \<open>phoff\<close>.\<close>

definition phdr :: "elf_class \<Rightarrow> u8 list \<Rightarrow> u64 \<Rightarrow> u64 \<Rightarrow> nat \<Rightarrow> u8 list option" where
  "phdr k f phoff phentsize i = read_at f (phdr_size k) (phoff + of_nat i * phentsize)"

lemma scan_phdrs_first:
  assumes "scan_phdrs k f sz phoff phentsize is = Some p"
  shows "\<exists>xs i ys ph. is = xs @ i # ys \<and> phdr k f phoff phentsize i = Some ph \<and> field ph 0 4 = PT_INTERP \<and>
    interp_of f sz (field ph (fst (p_offset k)) (snd (p_offset k))) (field ph (fst (p_filesz k)) (snd (p_filesz k))) = Some p \<and>
    (\<forall>j \<in> set xs. \<exists>ph. phdr k f phoff phentsize j = Some ph \<and> field ph 0 4 \<noteq> PT_INTERP)"
  using assms
proof (induction "is")
  case (Cons i "is")
  obtain ph where ph: "phdr k f phoff phentsize i = Some ph"
    using Cons.prems by (auto simp: phdr_def split: option.splits)
  show ?case
  proof (cases "field ph 0 4 = PT_INTERP")
    case True
    then show ?thesis using Cons.prems ph by (intro exI [of _ "[]"]) (auto simp: phdr_def)
  next
    case False
    then have "scan_phdrs k f sz phoff phentsize is = Some p" using Cons.prems ph by (simp add: phdr_def)
    from Cons.IH [OF this] obtain xs j ys q where
      x: "is = xs @ j # ys" "phdr k f phoff phentsize j = Some q" "field q 0 4 = PT_INTERP"
         "interp_of f sz (field q (fst (p_offset k)) (snd (p_offset k))) (field q (fst (p_filesz k)) (snd (p_filesz k))) = Some p"
         "\<forall>j \<in> set xs. \<exists>ph. phdr k f phoff phentsize j = Some ph \<and> field ph 0 4 \<noteq> PT_INTERP"
      by blast
    then show ?thesis using False ph
      by (intro exI [of _ "i # xs"] exI [of _ j] exI [of _ ys] exI [of _ q]) auto
  qed
qed simp

lemma upt_split: "[0..<n] = xs @ i # ys \<Longrightarrow> i < n \<and> xs = [0..<i]"
proof -
  assume e: "[0..<n] = xs @ i # ys"
  have n: "length xs < n" using arg_cong [OF e, of length] by simp
  moreover have "i = length xs" using arg_cong [OF e, of "\<lambda>l. l ! length xs"] n by simp
  moreover have "xs = [0..<length xs]" using arg_cong [OF e, of "take (length xs)"] n by (simp add: take_upt)
  ultimately show "i < n \<and> xs = [0..<i]" by simp
qed

lemma clean_c_string: "clean (bytes_str (takeWhile (\<lambda>b. b \<noteq> 0) bs))"
proof -
  have "\<forall>b \<in> set (takeWhile (\<lambda>b. b \<noteq> 0) bs). char_of (unat b) \<noteq> NUL"
    using char_of_nonzero by (blast dest: set_takeWhileD)
  then show ?thesis by (auto simp: bytes_str_def clean_def simp del: char_of_eq_iff)
qed

lemma interp_of_Some:
  assumes "interp_of f sz off filesz = Some p"
  shows "clean p" "length p < sz" "\<exists>bs. read_at f (unat filesz) off = Some bs \<and> p = bytes_str (takeWhile (\<lambda>b. b \<noteq> 0) bs)"
proof -
  obtain bs where bs: "read_at f (unat filesz) off = Some bs" "p = bytes_str (takeWhile (\<lambda>b. b \<noteq> 0) bs)" "unat filesz < sz"
    using assms by (auto simp: interp_of_def split: if_splits)
  then show "\<exists>bs. read_at f (unat filesz) off = Some bs \<and> p = bytes_str (takeWhile (\<lambda>b. b \<noteq> 0) bs)" by blast
  show "clean p" using bs(2) clean_c_string by simp
  have "length bs = unat filesz" using bs(1) by (auto simp: read_at_def Let_def split: if_splits)
  then show "length p < sz" using bs(2,3) length_takeWhile_le [of "\<lambda>b. b \<noteq> 0" bs] by (simp add: bytes_str_def)
qed

text \<open>The interpreter of a program is that of its first \<^verbatim>\<open>PT_INTERP\<close> entry. When \<^verbatim>\<open>elf_interp\<close>
  finds one, the file is a little-endian ELF file of a known class, program header \<open>i\<close> of its table is
  the first of type \<^verbatim>\<open>PT_INTERP\<close>, every header before it was read in full, and the name is the C
  string at the header's offset, inside the header's size and shorter than the buffer.\<close>

theorem elf_interp_first:
  assumes "elf_interp f sz = Some p"
  shows "\<exists>k h i ph bs. take 4 f = [0x7F, 0x45, 0x4C, 0x46] \<and> f ! 5 = 1 \<and>
    (k = elf64 \<and> f ! 4 = 2 \<or> k = elf32 \<and> f ! 4 = 1) \<and> read_at f (ehdr_size k) 0 = Some h \<and>
    (let phoff = field h (fst (e_phoff k)) (snd (e_phoff k)); entsz = field h (e_phentsize k) 2
     in i < unat (field h (e_phnum k) 2) \<and> phdr k f phoff entsz i = Some ph \<and> field ph 0 4 = PT_INTERP \<and>
        (\<forall>j < i. \<exists>q. phdr k f phoff entsz j = Some q \<and> field q 0 4 \<noteq> PT_INTERP) \<and>
        read_at f (unat (field ph (fst (p_filesz k)) (snd (p_filesz k))))
          (field ph (fst (p_offset k)) (snd (p_offset k))) = Some bs) \<and>
    p = bytes_str (takeWhile (\<lambda>b. b \<noteq> 0) bs) \<and> length p < sz"
proof -
  obtain eid k h where e: "read_at f 16 0 = Some eid" "take 4 eid = [0x7F, 0x45, 0x4C, 0x46]" "eid ! 5 = 1"
      "elf_class_of eid = Some k" "read_at f (ehdr_size k) 0 = Some h"
    and sc: "scan_phdrs k f sz (field h (fst (e_phoff k)) (snd (e_phoff k))) (field h (e_phentsize k) 2)
      [0..<unat (field h (e_phnum k) 2)] = Some p"
    using assms by (auto simp: elf_interp_def split: option.splits if_splits)
  have eid: "eid = take 16 f" using e(1) by (auto simp: read_at_def Let_def split: if_splits)
  have magic: "take 4 f = [0x7F, 0x45, 0x4C, 0x46]" "f ! 5 = 1"
    using e(2,3) by (simp_all add: eid)
  have cls: "k = elf64 \<and> f ! 4 = 2 \<or> k = elf32 \<and> f ! 4 = 1"
    using e(4) by (auto simp: elf_class_of_def eid split: if_splits)
  from scan_phdrs_first [OF sc] upt_split obtain i ph where
    i: "i < unat (field h (e_phnum k) 2)"
      "phdr k f (field h (fst (e_phoff k)) (snd (e_phoff k))) (field h (e_phentsize k) 2) i = Some ph"
      "field ph 0 4 = PT_INTERP"
      "interp_of f sz (field ph (fst (p_offset k)) (snd (p_offset k))) (field ph (fst (p_filesz k)) (snd (p_filesz k))) = Some p"
      "\<forall>j \<in> set [0..<i]. \<exists>q. phdr k f (field h (fst (e_phoff k)) (snd (e_phoff k))) (field h (e_phentsize k) 2) j = Some q \<and>
        field q 0 4 \<noteq> PT_INTERP"
    by blast
  from interp_of_Some [OF i(4)] obtain bs where
    "read_at f (unat (field ph (fst (p_filesz k)) (snd (p_filesz k)))) (field ph (fst (p_offset k)) (snd (p_offset k))) = Some bs"
    "p = bytes_str (takeWhile (\<lambda>b. b \<noteq> 0) bs)" "length p < sz" by blast
  then show ?thesis using magic cls e(5) i unfolding Let_def by (intro exI conjI) auto
qed

definition demo_elf :: "u8 list" where
  "demo_elf = [0x7F, 0x45, 0x4C, 0x46, 1, 1] @ replicate 22 0 @ [52] @ replicate 13 0 @ [32, 0, 1, 0] @ replicate 6 0 @
     [3, 0, 0, 0, 84] @ replicate 11 0 @ [4] @ replicate 15 0 @ str_bytes ''/ld'' @ [0]"

theorem elf_interp_first_witness:
  "elf_interp demo_elf 4096 = Some ''/ld'' \<and> (\<exists>k :: elf_class. read_at demo_elf (ehdr_size k) 0 \<noteq> None)"
proof -
  have e: "elf_interp demo_elf 4096 = Some ''/ld''" by code_simp
  from elf_interp_first [OF this] obtain k :: elf_class and h where "read_at demo_elf (ehdr_size k) 0 = Some h"
    by blast
  with e show ?thesis by blast
qed

subsection \<open>What is executed in the end\<close>

definition script_at :: "sys \<Rightarrow> string \<Rightarrow> (string \<times> string option) option" where
  "script_at s path =
     (case h_read (s_host s) (host_path_of s path PATH_LEN) of
        None \<Rightarrow> None | Some f \<Rightarrow> parse_shebang (bytes_str (take 256 f)))"

text \<open>The guest path reached from \<open>path\<close> through \<open>n\<close> scripts.\<close>

fun through_scripts :: "sys \<Rightarrow> nat \<Rightarrow> string \<Rightarrow> string option" where
  "through_scripts s 0 path = Some path"
| "through_scripts s (Suc n) path =
     (case script_at s path of None \<Rightarrow> None | Some (interp, _) \<Rightarrow> through_scripts s n (snprintf PATH_LEN interp))"

text \<open>The loader a program must be run through: the one its file names, if the kernel would find
  another one (or none) under that name.\<close>

definition loader_needed :: "sys \<Rightarrow> string \<Rightarrow> string option" where
  "loader_needed s host =
     (case h_read (s_host s) host of
        None \<Rightarrow> None
      | Some f \<Rightarrow>
          (case elf_interp f PATH_LEN of
             None \<Rightarrow> None
           | Some interp \<Rightarrow>
               if same_at_both (s_host s) interp (snd (translate s interp True PATH_LEN)) then None else Some interp))"

definition program_host :: "sys \<Rightarrow> string \<Rightarrow> string" where
  "program_host s path =
     (let host = host_path_of s path PATH_LEN
      in case loader_needed s host of None \<Rightarrow> host | Some interp \<Rightarrow> snd (translate s interp True PATH_LEN))"

lemma length_translate_s [simp]: "length (snd (translate s g f PATH_LEN)) < PATH_LEN"
  by (simp add: translate_def length_translate)

lemma read_str_at_cache: "read_str_at (s\<lparr>s_cache := c\<rparr>) = read_str_at s"
  by (simp add: read_str_at_def fun_eq_iff)

lemma loader_cache_frame: "loader_has_argv0 h s = (ok, s') \<Longrightarrow> \<exists>c. s' = s\<lparr>s_cache := c\<rparr>"
  by (auto simp: loader_has_argv0_def Let_def split: option.splits if_splits intro: exI [of _ "s_cache s"])

lemma through_loader_result:
  assumes "through_loader interp s x = (s', x')"
  shows "(same_at_both (s_host s) interp (snd (translate s interp True PATH_LEN)) \<and> s' = s \<and> x' = x) \<or>
    (\<not> same_at_both (s_host s) interp (snd (translate s interp True PATH_LEN)) \<and>
     x_host x' = snd (translate s interp True PATH_LEN) \<and> x_path x' = snprintf PATH_LEN interp \<and> x_rewritten x' \<and>
     (\<exists>c p. s' = s\<lparr>s_cache := c, s_tr := (s_tr s)\<lparr>pending_exe := p\<rparr>\<rparr>) \<and>
     (\<exists>a0. x_args x' = [EStr interp] @ (case a0 of None \<Rightarrow> [] | Some a \<Rightarrow> [EStr ''--argv0'', EStr a]) @
         [EStr (x_path x)] @ drop 1 (x_args x) \<and> (\<forall>a. a0 = Some a \<longrightarrow> a = argv0_of s (x_args x))))"
proof (cases "same_at_both (s_host s) interp (snd (translate s interp True PATH_LEN))")
  case True
  then show ?thesis using assms by (simp add: through_loader_def)
next
  case False
  obtain has t where h: "loader_has_argv0 (snd (translate s interp True PATH_LEN)) s = (has, t)" by fastforce
  from loader_cache_frame [OF h] obtain c where t: "t = s\<lparr>s_cache := c\<rparr>" by blast
  have a0: "argv0_of t as = argv0_of s as" for as by (simp add: t argv0_of_def read_str_at_cache split: earg.split)
  let ?a = "if has then Some (argv0_of s (x_args x)) else None"
  have x': "x_args x' = [EStr interp] @ (case ?a of None \<Rightarrow> [] | Some a \<Rightarrow> [EStr ''--argv0'', EStr a]) @
         [EStr (x_path x)] @ drop 1 (x_args x)"
    and rest: "x_host x' = snd (translate s interp True PATH_LEN)" "x_path x' = snprintf PATH_LEN interp" "x_rewritten x'"
      "s' = upd_tr (\<lambda>tr. tr\<lparr>pending_exe := guest_absolute t (x_path x) PATH_LEN\<rparr>) t"
    using assms False h by (auto simp: through_loader_def replace_head_def a0 Let_def)
  have "s' = s\<lparr>s_cache := c, s_tr := (s_tr s)\<lparr>pending_exe := guest_absolute t (x_path x) PATH_LEN\<rparr>\<rparr>"
    unfolding rest(4) t upd_tr_def by simp
  with False rest(1-3) x' show ?thesis by (intro disjI2 conjI exI [of _ ?a]) (auto split: if_splits)
qed

lemma exec_loop_Suc:
  "exec_loop (Suc d) s x =
     (let host = host_path_of s (x_path x) PATH_LEN; x = x\<lparr>x_host := host\<rparr>
      in case script_at s (x_path x) of
           Some (interp, opt) \<Rightarrow> exec_loop d s (through_script interp opt x)
         | None \<Rightarrow>
             (case h_read (s_host s) host of
                None \<Rightarrow> (s, x)
              | Some f \<Rightarrow> (case elf_interp f PATH_LEN of None \<Rightarrow> (s, x) | Some i \<Rightarrow> through_loader i s x)))"
  by (auto simp: script_at_def Let_def split: option.splits)

declare exec_loop.simps(2) [simp del]

lemma exec_loop_Suc_cases:
  assumes "exec_loop (Suc d) s x = (s', x')"
  defines "host \<equiv> host_path_of s (x_path x) PATH_LEN" and "x1 \<equiv> x\<lparr>x_host := host_path_of s (x_path x) PATH_LEN\<rparr>"
  obtains (script) interp opt where "script_at s (x_path x) = Some (interp, opt)"
      "exec_loop d s (through_script interp opt x1) = (s', x')"
  | (plain) "script_at s (x_path x) = None" "s' = s" "x' = x1" "loader_needed s host = None"
  | (loader) f interp where "script_at s (x_path x) = None" "h_read (s_host s) host = Some f"
      "elf_interp f PATH_LEN = Some interp" "through_loader interp s x1 = (s', x')"
  using assms(1) unfolding exec_loop_Suc Let_def host_def x1_def loader_needed_def
  by (auto split: option.splits)

lemma exec_loop_target:
  assumes "exec_loop d s x = (s', x')" and "0 < d"
  shows "(\<exists>n p. n < d \<and> through_scripts s n (x_path x) = Some p \<and> script_at s p = None \<and> x_host x' = program_host s p) \<or>
    (\<exists>p. through_scripts s (d - 1) (x_path x) = Some p \<and> script_at s p \<noteq> None \<and> x_host x' = host_path_of s p PATH_LEN)"
  using assms
proof (induction d arbitrary: x)
  case (Suc d)
  show ?case using Suc.prems(1)
  proof (cases rule: exec_loop_Suc_cases)
    case plain
    then show ?thesis by (intro disjI1 exI [of _ 0]) (auto simp: program_host_def)
  next
    case (loader f interp)
    then have "x_host x' = program_host s (x_path x)"
      using through_loader_result [OF loader(4)] by (auto simp: program_host_def loader_needed_def)
    then show ?thesis using loader(1) by (intro disjI1 exI [of _ 0]) auto
  next
    case (script interp opt)
    let ?y = "through_script interp opt (x\<lparr>x_host := host_path_of s (x_path x) PATH_LEN\<rparr>)"
    have py: "x_path ?y = snprintf PATH_LEN interp" "x_host ?y = host_path_of s (x_path x) PATH_LEN"
      by (simp_all add: through_script_def)
    have sh: "through_scripts s (Suc n) (x_path x) = through_scripts s n (x_path ?y)" for n
      using script py by simp
    show ?thesis
    proof (cases d)
      case 0
      then show ?thesis using script py by auto
    next
      case (Suc k)
      from Suc.IH [OF script(2)] Suc consider n p where "n < d" "through_scripts s n (x_path ?y) = Some p" "script_at s p = None"
          "x_host x' = program_host s p"
        | p where "through_scripts s (d - 1) (x_path ?y) = Some p" "script_at s p \<noteq> None" "x_host x' = host_path_of s p PATH_LEN"
        by blast
      then show ?thesis
      proof cases
        case 1
        then show ?thesis using sh [of n] by (intro disjI1 exI [of _ "Suc n"] exI [of _ p]) simp
      next
        case 2
        then show ?thesis using sh [of "d - 1"] Suc by (intro disjI2 exI [of _ p]) simp
      qed
    qed
  qed
qed simp

subsection \<open>The arguments\<close>

definition made_up :: "earg list \<Rightarrow> bool" where
  "made_up es \<longleftrightarrow> list_all (\<lambda>e. case e of EStr _ \<Rightarrow> True | EPtr _ \<Rightarrow> False) es"

lemma made_up_simps [simp]:
  "made_up []" "made_up (EStr t # es) \<longleftrightarrow> made_up es" "made_up (es @ fs) \<longleftrightarrow> made_up es \<and> made_up fs"
  by (auto simp: made_up_def)

lemma made_up_drop: "made_up es \<Longrightarrow> made_up (drop n es)"
  by (auto simp: made_up_def list_all_iff dest: in_set_dropD)

text \<open>What the loop does to an argument list: \<open>lead\<close> replaces its first entry.\<close>

definition expands :: "string \<Rightarrow> earg list \<Rightarrow> earg list \<Rightarrow> nat \<Rightarrow> bool" where
  "expands path args args' k \<longleftrightarrow>
     (\<exists>lead. args' = lead @ drop 1 args \<and> made_up lead \<and> lead \<noteq> [] \<and> last lead = EStr path \<and> length lead \<le> k)"

lemma expands_trans:
  assumes "expands p as bs j" and "expands q bs cs k" and "2 \<le> length bs - length (drop 1 as)"
  shows "expands p as cs (k + j - 1)"
proof -
  obtain l where l: "bs = l @ drop 1 as" "made_up l" "l \<noteq> []" "last l = EStr p" "length l \<le> j"
    using assms(1) by (auto simp: expands_def)
  obtain h where h: "cs = h @ drop 1 bs" "made_up h" "h \<noteq> []" "length h \<le> k"
    using assms(2) by (auto simp: expands_def)
  have two: "2 \<le> length l" using assms(3) l(1) by simp
  then have "cs = (h @ drop 1 l) @ drop 1 as" using h(1) l(1) by simp
  moreover have "last (h @ drop 1 l) = EStr p" using two l(4) by (simp add: last_drop)
  ultimately show ?thesis unfolding expands_def
    using l h two made_up_drop [OF l(2), of 1] by (intro exI [of _ "h @ drop 1 l"]) auto
qed

lemma through_script_expands:
  "expands (x_path x) (x_args x) (x_args (through_script interp opt x)) 3"
  "2 \<le> length (x_args (through_script interp opt x)) - length (drop 1 (x_args x))"
  by (auto simp: expands_def through_script_def replace_head_def split: option.split)

lemma exec_loop_args:
  assumes "exec_loop d s x = (s', x')" and "\<not> x_rewritten x"
  shows "if x_rewritten x' then expands (x_path x) (x_args x) (x_args x') (4 + 2 * d)
    else x_args x' = x_args x \<and> s' = s"
  using assms
proof -
  have "x_args x' = x_args x \<and> x_rewritten x' = x_rewritten x \<and> s' = s \<or>
      x_rewritten x' \<and> expands (x_path x) (x_args x) (x_args x') (4 + 2 * d)"
    using assms(1)
  proof (induction d arbitrary: x)
    case (Suc d)
    let ?x = "x\<lparr>x_host := host_path_of s (x_path x) PATH_LEN\<rparr>"
    show ?case using Suc.prems
    proof (cases rule: exec_loop_Suc_cases)
      case plain
      then show ?thesis by simp
    next
      case (loader f i)
      from through_loader_result [OF loader(4)] show ?thesis
      proof (elim disjE conjE exE)
        fix a0
        let ?lead = "[EStr i] @ (case a0 of None \<Rightarrow> [] | Some a \<Rightarrow> [EStr ''--argv0'', EStr a]) @ [EStr (x_path ?x)]"
        assume "x_args x' = [EStr i] @ (case a0 of None \<Rightarrow> [] | Some a \<Rightarrow> [EStr ''--argv0'', EStr a]) @
          [EStr (x_path ?x)] @ drop 1 (x_args ?x)" and "x_rewritten x'"
        then show ?thesis unfolding expands_def
          by (intro disjI2 conjI exI [of _ ?lead]) (auto split: option.split)
      qed auto
    next
      case (script interp opt)
      let ?y = "through_script interp opt ?x"
      note y = through_script_expands(1) [of ?x interp opt, simplified] through_script_expands(2) [of interp opt ?x, simplified]
      have "x_rewritten ?y" by (simp add: through_script_def)
      with Suc.IH [OF script(2)] consider "x_args x' = x_args ?y" "x_rewritten x'"
        | "x_rewritten x'" "expands (x_path ?y) (x_args ?y) (x_args x') (4 + 2 * d)" by auto
      then show ?thesis
      proof cases
        case 1
        then show ?thesis using y(1) by (auto simp: expands_def)
      next
        case 2
        then show ?thesis using expands_trans [OF y(1) 2(2)] y(2) by (auto simp: expands_def add.commute)
      qed
    qed
  qed simp
  then show ?thesis using assms(2) by auto
qed

lemma read_argv_ptrs: "length (read_argv m a n) \<le> n \<and> list_all (\<lambda>e. \<exists>p. e = EPtr p) (read_argv m a n)"
  by (induction m a n rule: read_argv.induct) (auto simp: Let_def)

subsection \<open>The block written to the guest\<close>

lemma length_le_bytes [simp]: "length (le_bytes n w) = n"
  by (simp add: le_bytes_def)

lemma le_word_le_bytes: "le_word (le_bytes n w) = take_bit (8 * n) w"
proof (induction n arbitrary: w)
  case (Suc n)
  have "le_bytes (Suc n) w = ucast w # le_bytes n (drop_bit 8 w)"
    by (simp add: le_bytes_def upt_rec [of 0 "Suc n"] map_Suc_upt [symmetric] o_def add.commute del: upt_Suc)
  then have "le_word (le_bytes (Suc n) w) = ucast (ucast w :: u8) OR push_bit 8 (take_bit (8 * n) (drop_bit 8 w))"
    using Suc by simp
  also have "\<dots> = take_bit (8 * Suc n) w"
    by (rule bit_eqI) (auto simp: bit_simps)
  finally show ?case .
qed (simp add: le_bytes_def)

lemma le_word_ptr [simp]: "le_word (le_bytes 8 w) = w"
  using le_word_le_bytes [of 8 w] by (simp add: take_bit_word_eq_self)

lemma length_ptr_bytes [simp]: "length (ptr_bytes ps) = 8 * length ps"
  by (induction ps) (simp_all add: ptr_bytes_def)

lemma ptr_bytes_nth: "i < length ps \<Longrightarrow> take 8 (drop (8 * i) (ptr_bytes ps)) = le_bytes 8 (ps ! i)"
proof (induction ps arbitrary: i)
  case (Cons p ps)
  then show ?case by (cases i) (simp_all add: ptr_bytes_def)
qed simp

definition strs_size :: "earg list \<Rightarrow> nat" where
  "strs_size es = sum_list (map (\<lambda>e. case e of EStr t \<Rightarrow> length t + 1 | EPtr _ \<Rightarrow> 0) es)"

lemma strs_size_simps [simp]:
  "strs_size [] = 0" "strs_size (EStr t # es) = length t + 1 + strs_size es" "strs_size (EPtr p # es) = strs_size es"
  by (simp_all add: strs_size_def)

lemma layout_sizes: "layout base off es = (bs, ps) \<Longrightarrow> length ps = length es \<and> length bs = strs_size es"
  by (induction base off es arbitrary: bs ps rule: layout.induct) (auto split: prod.splits)

lemma layout_entry:
  assumes "layout base off es = (bs, ps)" and "i < length es"
  shows "case es ! i of EPtr p \<Rightarrow> ps ! i = p
    | EStr t \<Rightarrow> (\<exists>k. ps ! i = base + of_nat (off + k) \<and> take (length t + 1) (drop k bs) = str_bytes t @ [0] \<and>
        k + length t + 1 \<le> length bs)"
  using assms
proof (induction base off es arbitrary: bs ps i rule: layout.induct)
  case (2 base off t es)
  obtain bs' ps' where l: "layout base (off + length t + 1) es = (bs', ps')" by fastforce
  then have e: "bs = str_bytes t @ 0 # bs'" "ps = (base + of_nat off) # ps'" using "2.prems"(1) by auto
  show ?case
  proof (cases i)
    case 0
    then show ?thesis using e by (auto intro: exI [of _ 0])
  next
    case (Suc j)
    show ?thesis
    proof (cases "es ! j")
      case (EPtr p)
      then show ?thesis using "2.IH" [OF l, of j] "2.prems"(2) e Suc by simp
    next
      case (EStr u)
      then obtain k where k: "ps' ! j = base + of_nat (off + length t + 1 + k)" "take (length u + 1) (drop k bs') = str_bytes u @ [0]"
          "k + length u + 1 \<le> length bs'"
        using "2.IH" [OF l, of j] "2.prems"(2) Suc by auto
      then show ?thesis using EStr Suc e by (auto simp: ac_simps intro!: exI [of _ "length t + 1 + k"])
    qed
  qed
next
  case (3 base off p es)
  obtain bs' ps' where l: "layout base off es = (bs', ps')" by fastforce
  then show ?case using "3.IH" [OF l, of "i - 1"] "3.prems" by (cases i; cases "es ! (i - 1)") auto
qed simp

lemma round_up_16: "n \<le> (n + 15) div 16 * 16 \<and> (n + 15) div 16 * 16 \<le> n + (15 :: nat)"
proof -
  have "(n + 15) div 16 * 16 + (n + 15) mod 16 = n + 15" by (rule div_mult_mod_eq)
  moreover have "(n + 15) mod 16 < 16" by simp
  ultimately show ?thesis by linarith
qed

lemma exec_blob_parts:
  assumes "exec_blob base host args = (off, blob)"
  obtains strs ps where "layout base (length host + 1) args = (strs, ps)"
    "blob = str_bytes host @ 0 # strs @ replicate (off - (length host + 1 + length strs)) 0 @ ptr_bytes (ps @ [0])"
    "length host + 1 + strs_size args \<le> off" "off \<le> length host + 1 + strs_size args + 15"
    "length ps = length args" "length strs = strs_size args" "length blob = off + 8 * (length args + 1)"
proof -
  obtain strs ps where l: "layout base (length host + 1) args = (strs, ps)" by fastforce
  note sz = layout_sizes [OF l]
  have off: "off = (length host + 1 + length strs + 15) div 16 * 16"
    and b: "blob = str_bytes host @ 0 # strs @ replicate (off - (length host + 1 + length strs)) 0 @ ptr_bytes (ps @ [0])"
    using assms l by (auto simp: exec_blob_def Let_def ac_simps)
  have r: "length host + 1 + strs_size args \<le> off" "off \<le> length host + 1 + strs_size args + 15"
    using round_up_16 [of "length host + 1 + length strs"] sz unfolding off by simp_all
  with that [OF l b] sz show ?thesis by (simp add: b)
qed

lemma exec_blob_fits: "exec_blob base host args = (off, blob) \<Longrightarrow> length blob \<le> blob_total host args"
  by (erule exec_blob_parts) (simp add: blob_total_def strs_size_def)

text \<open>What a program finds at \<open>a\<close> when it reads its argument array.\<close>

definition argv_shows :: "mem \<Rightarrow> u64 \<Rightarrow> earg list \<Rightarrow> bool" where
  "argv_shows m a args \<longleftrightarrow>
     (\<forall>i < length args. \<exists>p. mread m (a + of_nat (8 * i)) 8 = le_bytes 8 p \<and>
        (case args ! i of EPtr q \<Rightarrow> p = q | EStr t \<Rightarrow> str_at m p PATH_LEN = Some t)) \<and>
     mread m (a + of_nat (8 * length args)) 8 = le_bytes 8 0"

lemma mread_sub:
  assumes "mread m a n = bs" and "length bs = n" and "k + j \<le> n"
  shows "mread m (a + of_nat k) j = take j (drop k bs)"
proof -
  obtain r where n: "n = k + (j + r)" using assms(3) by (metis add.assoc le_iff_add)
  have full: "\<forall>i < n. m (a + of_nat i) \<noteq> None" using mread_full_iff [of m a n] assms(1,2) by simp
  have k: "length (mread m a k) = k" using full n by (simp add: mread_full_iff)
  have "m (a + of_nat k + of_nat i) \<noteq> None" if "i < j" for i
    using spec [OF full, of "k + i"] that n by (simp add: add.assoc)
  then have j: "length (mread m (a + of_nat k) j) = j" by (simp add: mread_full_iff)
  have "bs = mread m a k @ mread m (a + of_nat k) (j + r)"
    using mread_append [OF k] assms(1) n by simp
  also have "mread m (a + of_nat k) (j + r) = mread m (a + of_nat k) j @ mread m (a + of_nat k + of_nat j) r"
    by (rule mread_append [OF j])
  finally show ?thesis using k j by simp
qed

definition strs_ok :: "earg list \<Rightarrow> bool" where
  "strs_ok es \<longleftrightarrow> (\<forall>t. EStr t \<in> set es \<longrightarrow> clean t \<and> length t < PATH_LEN)"

lemma blob_readable:
  assumes "exec_blob base host args = (off, blob)" and m: "mread m base (length blob) = blob"
    and ok: "strs_ok args" "clean host" "length host < PATH_LEN"
  shows "str_at m base PATH_LEN = Some host \<and> argv_shows m (base + of_nat off) args"
proof -
  from assms(1) obtain strs ps where l: "layout base (length host + 1) args = (strs, ps)"
    and b: "blob = str_bytes host @ 0 # strs @ replicate (off - (length host + 1 + length strs)) 0 @ ptr_bytes (ps @ [0])"
    and sz: "length host + 1 + strs_size args \<le> off" "length ps = length args" "length strs = strs_size args"
      "length blob = off + 8 * (length args + 1)"
    by (rule exec_blob_parts)
  have sub: "k + j \<le> length blob \<Longrightarrow> mread m (base + of_nat k) j = take j (drop k blob)" for k j
    by (rule mread_sub [OF m]) simp_all
  have P: "(1::nat) < PATH_LEN" by (simp add: PATH_LEN_def)
  have str: "str_at m (base + of_nat k) PATH_LEN = Some t"
    if "k + length t + 1 \<le> length blob" "take (length t + 1) (drop k blob) = str_bytes t @ [0]" "clean t" "length t < PATH_LEN"
    for k t
    using sub [of k "length t + 1"] that P by (intro str_at_written) (simp_all add: clean_def)
  have "take (length host + 1) blob = str_bytes host @ [0]" by (simp add: b)
  then have h: "str_at m base PATH_LEN = Some host"
    using str [of 0 host] sz ok by simp
  have ptrs: "drop off blob = ptr_bytes (ps @ [0])"
  proof -
    let ?q = "str_bytes host @ 0 # strs @ replicate (off - (length host + 1 + length strs)) 0"
    have "blob = ?q @ ptr_bytes (ps @ [0])" by (simp add: b)
    moreover have "length ?q = off" using sz by simp
    ultimately show ?thesis by (metis append_eq_conv_conj)
  qed
  have word: "mread m (base + of_nat off + of_nat (8 * i)) 8 = le_bytes 8 ((ps @ [0]) ! i)" if "i \<le> length args" for i
  proof -
    have "mread m (base + of_nat (off + 8 * i)) 8 = take 8 (drop (off + 8 * i) blob)"
      using that sz by (intro sub) simp
    also have "drop (off + 8 * i) blob = drop (8 * i) (drop off blob)" by (simp add: add.commute)
    finally show ?thesis using ptr_bytes_nth [of i "ps @ [0]"] that sz by (simp add: ptrs ac_simps)
  qed
  have "case args ! i of EPtr q \<Rightarrow> ps ! i = q | EStr t \<Rightarrow> str_at m (ps ! i) PATH_LEN = Some t" if i: "i < length args" for i
  proof (cases "args ! i")
    case (EPtr q)
    then show ?thesis using layout_entry [OF l i] by simp
  next
    case (EStr t)
    then obtain k where k: "ps ! i = base + of_nat (length host + 1 + k)" "take (length t + 1) (drop k strs) = str_bytes t @ [0]"
        "k + length t + 1 \<le> length strs"
      using layout_entry [OF l i] by auto
    have "take (length t + 1) (drop (length host + 1 + k) blob) = str_bytes t @ [0]"
      using k(2,3) by (simp add: b)
    moreover have "clean t" "length t < PATH_LEN" using ok(1) EStr nth_mem [OF i] by (auto simp: strs_ok_def)
    ultimately show ?thesis using str [of "length host + 1 + k" t] k(1,3) sz EStr by simp
  qed
  then have "\<exists>p. mread m (base + of_nat off + of_nat (8 * i)) 8 = le_bytes 8 p \<and>
        (case args ! i of EPtr q \<Rightarrow> p = q | EStr t \<Rightarrow> str_at m p PATH_LEN = Some t)" if "i < length args" for i
    using word [of i] that sz by (intro exI [of _ "ps ! i"]) (simp add: nth_append)
  moreover have "mread m (base + of_nat off + of_nat (8 * length args)) 8 = le_bytes 8 0"
    using word [of "length args"] sz by (simp add: nth_append)
  ultimately show ?thesis using h by (simp add: argv_shows_def)
qed

subsection \<open>Only C strings are made\<close>

definition exec_ok :: "exec_state \<Rightarrow> bool" where
  "exec_ok x \<longleftrightarrow> clean (x_path x) \<and> length (x_path x) < PATH_LEN \<and> clean (x_host x) \<and> length (x_host x) < PATH_LEN \<and>
     strs_ok (x_args x)"

abbreviation host_strings :: "sys \<Rightarrow> bool" where
  "host_strings s \<equiv> c_strings (s_ctx s) (t_root (s_tr s)) (h_readlink (s_host s))"

lemma strs_ok_simps [simp]:
  "strs_ok []" "strs_ok (EStr t # es) \<longleftrightarrow> clean t \<and> length t < PATH_LEN \<and> strs_ok es"
  "strs_ok (EPtr p # es) \<longleftrightarrow> strs_ok es" "strs_ok (es @ fs) \<longleftrightarrow> strs_ok es \<and> strs_ok fs"
  by (auto simp: strs_ok_def)

lemma strs_ok_drop: "strs_ok es \<Longrightarrow> strs_ok (drop n es)"
  by (auto simp: strs_ok_def dest: in_set_dropD)

lemma strs_ok_ptrs: "list_all (\<lambda>e. \<exists>p. e = EPtr p) es \<Longrightarrow> strs_ok es"
  by (auto simp: strs_ok_def list_all_iff)

lemma clean_translate: "host_strings s \<Longrightarrow> clean g \<Longrightarrow> clean (snd (translate s g f n))"
  by (simp add: translate_def translate_clean)

lemma split_line_sub:
  assumes "split_line l = Some (i, opt)"
  shows "set i \<subseteq> set l" "length i \<le> length l" "opt = Some a \<Longrightarrow> set a \<subseteq> set l \<and> length a \<le> length l"
proof -
  let ?p = "drop (strspn l BLANKS) l"
  let ?r = "drop (strcspn ?p BLANKS + strspn (drop (strcspn ?p BLANKS) ?p) BLANKS) ?p"
  let ?s = "rev (dropWhile (\<lambda>c. c \<in> set (BLANKS @ [CHR 0x0D])) (rev ?r))"
  have i: "i = take (strcspn ?p BLANKS) ?p" and o: "opt = (if ?s = [] then None else Some ?s)"
    using assms by (auto simp: split_line_def Let_def split: if_splits)
  show "set i \<subseteq> set l" unfolding i by (auto dest: in_set_takeD in_set_dropD)
  show "length i \<le> length l" unfolding i by simp
  have "set ?s \<subseteq> set l" by (auto dest!: set_dropWhileD in_set_dropD)
  moreover have "length ?s \<le> length ?r" using length_dropWhile_le [of _ "rev ?r"] by simp
  then have "length ?s \<le> length l" by simp
  ultimately show "opt = Some a \<Longrightarrow> set a \<subseteq> set l \<and> length a \<le> length l" using o by (auto split: if_splits)
qed

lemma parse_shebang_ok:
  assumes "parse_shebang head = Some (i, opt)"
  shows "clean i \<and> length i < PATH_LEN \<and> (\<forall>a. opt = Some a \<longrightarrow> clean a \<and> length a < PATH_LEN)"
proof -
  let ?l = "takeWhile (\<lambda>c. c \<noteq> NUL) (take 255 (takeWhile (\<lambda>c. c \<noteq> CHR 0x0A) (drop 2 head)))"
  have s: "split_line ?l = Some (i, opt)" using assms unfolding parse_shebang_def by (auto split: if_splits)
  have l: "clean ?l" by (auto simp: clean_def dest: set_takeWhileD)
  have "length ?l \<le> length (take 255 (takeWhile (\<lambda>c. c \<noteq> CHR 0x0A) (drop 2 head)))" by (rule length_takeWhile_le)
  then have len: "length ?l < PATH_LEN" by (simp add: PATH_LEN_def)
  have "clean i \<and> length i < PATH_LEN" using clean_sub [OF l split_line_sub(1) [OF s]] split_line_sub(2) [OF s] len by linarith
  moreover have "clean a \<and> length a < PATH_LEN" if "opt = Some a" for a
    using clean_sub [OF l, of a] split_line_sub(3) [OF s that] len by linarith
  ultimately show ?thesis by blast
qed

lemma elf_interp_ok:
  assumes "elf_interp f sz = Some p"
  shows "clean p \<and> length p < sz"
proof -
  obtain k po pe "is" where "scan_phdrs k f sz po pe is = Some p"
    using assms by (auto simp: elf_interp_def split: option.splits if_splits)
  from scan_phdrs_first [OF this] show ?thesis using interp_of_Some(1,2) by blast
qed

lemma PATH_LEN_pos: "0 < PATH_LEN" "Suc 0 < PATH_LEN"
  by (simp_all add: PATH_LEN_def)

lemma host_path_of_ok:
  assumes "host_strings s" and "clean path"
  shows "clean (host_path_of s path PATH_LEN) \<and> length (host_path_of s path PATH_LEN) < PATH_LEN"
proof -
  have "clean l" if "readlink_buf s k = Some l" for k l
    using that assms(1) by (auto simp: readlink_buf_def c_strings_def clean_def split: option.splits if_splits dest!: in_set_takeD)
  then show ?thesis
    using assms clean_translate [OF assms, of True PATH_LEN] PATH_LEN_pos
    by (auto simp: host_path_of_def Let_def split: option.split)
qed

lemma argv0_of_ok: "strs_ok args \<Longrightarrow> args \<noteq> [] \<Longrightarrow> clean (argv0_of s args) \<and> length (argv0_of s args) < PATH_LEN"
proof -
  assume ok: "strs_ok args" "args \<noteq> []"
  note P = PATH_LEN_pos(1)
  show ?thesis
  proof (cases "hd args")
    case (EStr t)
    then have "clean t" using ok hd_in_set [of args] by (auto simp: strs_ok_def)
    then show ?thesis using EStr length_snprintf [OF P] by (auto simp: argv0_of_def)
  next
    case (EPtr p)
    then show ?thesis using P str_at_clean [of "s_mem s" p PATH_LEN]
      by (auto simp: argv0_of_def read_str_at_eq split: option.split)
  qed
qed

lemma through_script_ok:
  assumes "exec_ok x" and "script_at s path = Some (i, opt)"
  shows "exec_ok (through_script i opt x)"
proof -
  have "clean i \<and> length i < PATH_LEN \<and> (\<forall>a. opt = Some a \<longrightarrow> clean a \<and> length a < PATH_LEN)"
    using assms(2) parse_shebang_ok by (auto simp: script_at_def split: option.splits)
  then show ?thesis using assms(1)
    by (auto simp: exec_ok_def through_script_def replace_head_def strs_ok_drop split: option.split)
qed

lemma argv0_name: "length ''--argv0'' < PATH_LEN"
  by (simp add: PATH_LEN_def)

lemma exec_loop_ok:
  assumes "exec_loop d s x = (s', x')" and "host_strings s" and "exec_ok x" and "x_args x \<noteq> []"
  shows "exec_ok x' \<and> (\<exists>c p. s' = s\<lparr>s_cache := c, s_tr := (s_tr s)\<lparr>pending_exe := p\<rparr>\<rparr>)"
  using assms(1,3,4)
proof (induction d arbitrary: x)
  case 0
  then show ?case by (auto intro!: exI [of _ "s_cache s"] exI [of _ "pending_exe (s_tr s)"])
next
  case (Suc d)
  let ?x = "x\<lparr>x_host := host_path_of s (x_path x) PATH_LEN\<rparr>"
  have x: "exec_ok ?x" using Suc.prems(2) host_path_of_ok [OF assms(2)] by (simp add: exec_ok_def)
  show ?case using Suc.prems(1)
  proof (cases rule: exec_loop_Suc_cases)
    case plain
    then show ?thesis using x by (auto intro!: exI [of _ "s_cache s"] exI [of _ "pending_exe (s_tr s)"])
  next
    case (script interp opt)
    have "x_args (through_script interp opt ?x) \<noteq> []" by (simp add: through_script_def replace_head_def)
    then show ?thesis using Suc.IH [OF script(2)] through_script_ok [OF x script(1)] by simp
  next
    case (loader f interp)
    note i = elf_interp_ok [OF loader(3)]
    have a0: "clean (argv0_of s (x_args x)) \<and> length (argv0_of s (x_args x)) < PATH_LEN"
      using Suc.prems(2,3) argv0_of_ok by (simp add: exec_ok_def)
    from through_loader_result [OF loader(4)] show ?thesis
    proof (elim disjE conjE exE)
      assume "s' = s" "x' = ?x"
      then show ?thesis using x by (auto intro!: exI [of _ "s_cache s"] exI [of _ "pending_exe (s_tr s)"])
    next
      fix c p a0
      assume args: "x_args x' = [EStr interp] @ (case a0 of None \<Rightarrow> [] | Some a \<Rightarrow> [EStr ''--argv0'', EStr a]) @
          [EStr (x_path ?x)] @ drop 1 (x_args ?x)" "\<forall>a. a0 = Some a \<longrightarrow> a = argv0_of s (x_args ?x)"
        and h: "x_host x' = snd (translate s interp True PATH_LEN)" "x_path x' = snprintf PATH_LEN interp"
        and s': "s' = s\<lparr>s_cache := c, s_tr := (s_tr s)\<lparr>pending_exe := p\<rparr>\<rparr>"
      have "strs_ok (x_args x')"
        using args i a0 x argv0_name by (cases a0) (simp_all add: exec_ok_def strs_ok_drop)
      then have "exec_ok x'" using h i clean_translate [OF assms(2), of interp True PATH_LEN]
        by (simp add: exec_ok_def)
      then show ?thesis using s' by blast
    qed
  qed
qed

subsection \<open>Properties\<close>

text \<open>A script runs the interpreter its first line names. For a line that fits the 256 bytes read,
  blanks (a space or a tab) before the interpreter are skipped, the interpreter is the first word, and
  what follows, with the blanks and carriage returns at its end removed, is passed as one argument, or
  not at all when it is empty.\<close>

theorem shebang_line_parsed:
  assumes interp: "interp \<noteq> []" "set interp \<inter> set BLANKS = {}" and bl: "set bl \<subseteq> set BLANKS" and sep: "set sep \<subseteq> set BLANKS"
    and tail: "set tail \<subseteq> set (BLANKS @ [CHR 0x0D])"
    and a: "a = [] \<or> hd a \<notin> set BLANKS \<and> last a \<notin> set (BLANKS @ [CHR 0x0D])"
    and gap: "sep \<noteq> [] \<or> a = [] \<and> tail = []"
    and clean: "\<forall>c \<in> set (interp @ a). c \<noteq> NUL \<and> c \<noteq> CHR 0x0A"
    and len: "length (bl @ interp @ sep @ a @ tail) \<le> 254"
  shows "parse_shebang (take 256 (''#!'' @ (bl @ interp @ sep @ a @ tail) @ CHR 0x0A # body)) =
    Some (interp, if a = [] then None else Some a)"
proof -
  let ?l = "bl @ interp @ sep @ a @ tail"
  have all: "\<forall>c \<in> set ?l. c \<noteq> NUL \<and> c \<noteq> CHR 0x0A"
  proof
    have b: "c \<noteq> NUL \<and> c \<noteq> CHR 0x0A" if "c \<in> set (BLANKS @ [CHR 0x0D])" for c
      using that unfolding BLANKS_def by auto
    fix c
    assume "c \<in> set ?l"
    then consider "c \<in> set (BLANKS @ [CHR 0x0D])" | "c \<in> set (interp @ a)"
      using bl sep tail unfolding set_append by blast
    then show "c \<noteq> NUL \<and> c \<noteq> CHR 0x0A" using b clean by cases blast+
  qed
  have "?l \<noteq> []" using interp(1) by simp
  from line_copied [OF all len this] split_line_words [OF interp bl sep tail a gap] show ?thesis by simp
qed

theorem shebang_line_parsed_witness:
  "parse_shebang (take 256 (''#!'' @ ('' '' @ ''/bin/sh'' @ '' '' @ ''-e'' @ [CHR 0x0D]) @ CHR 0x0A # ''echo'')) =
    Some (''/bin/sh'', if ''-e'' = '''' then None else Some ''-e'')"
  by (rule shebang_line_parsed) (simp_all add: BLANKS_def)


definition demo_script :: sys where
  "demo_script = demo_sys\<lparr>s_host := demo_host\<lparr>h_read := (\<lambda>p. if p = ''/srv/s'' then Some (str_bytes ''#!/i'') else None)\<rparr>\<rparr>"


text \<open>C32: the buffers of \<^verbatim>\<open>exec.c\<close> are large enough. At most 8192 argument pointers are read; expanding them
  never needs more than the 16 spare entries of the array, and the block laid out for the guest, strings,
  padding and pointer array together, never exceeds the size that was allocated for it.\<close>

theorem exec_buffers_in_bounds:
  assumes "exec_loop MAX_SHEBANG_DEPTH s \<lparr>x_path = path, x_host = [], x_args = read_argv m a MAX_EXEC_ARGS, x_rewritten = False\<rparr> = (s', x')"
    and "exec_blob base (x_host x') (x_args x') = (off, blob)"
  shows "length (read_argv m a MAX_EXEC_ARGS) \<le> MAX_EXEC_ARGS \<and> length (x_args x') \<le> MAX_EXEC_ARGS + 16 \<and>
    off mod 16 = 0 \<and> length blob = off + (length (x_args x') + 1) * 8 \<and> length blob \<le> blob_total (x_host x') (x_args x')"
proof -
  let ?args = "read_argv m a MAX_EXEC_ARGS"
  have n: "length ?args \<le> MAX_EXEC_ARGS" using read_argv_ptrs by blast
  have "length (x_args x') \<le> length ?args + 14"
    using exec_loop_args [OF assms(1)] by (auto simp: expands_def MAX_SHEBANG_DEPTH_def split: if_splits)
  moreover have "off mod 16 = 0" using assms(2) by (auto simp: exec_blob_def Let_def split: prod.splits)
  moreover have "length blob = off + (length (x_args x') + 1) * 8" by (rule exec_blob_parts [OF assms(2)]) simp
  ultimately show ?thesis using n exec_blob_fits [OF assms(2)] by simp
qed

theorem exec_buffers_in_bounds_witness:
  "case exec_loop MAX_SHEBANG_DEPTH demo_sys \<lparr>x_path = ''/s'', x_host = [], x_args = read_argv demo_mem 4096 MAX_EXEC_ARGS, x_rewritten = False\<rparr> of
     (s', x') \<Rightarrow> length (x_args x') \<le> MAX_EXEC_ARGS + 16"
proof -
  obtain s' x' where e: "exec_loop MAX_SHEBANG_DEPTH demo_sys
      \<lparr>x_path = ''/s'', x_host = [], x_args = read_argv demo_mem 4096 MAX_EXEC_ARGS, x_rewritten = False\<rparr> = (s', x')"
    by fastforce
  obtain off blob where b: "exec_blob 0 (x_host x') (x_args x') = (off, blob)" by fastforce
  from exec_buffers_in_bounds [OF e b] show ?thesis by (simp add: e)
qed

lemma strs_size_bound: "strs_ok es \<Longrightarrow> strs_size es \<le> PATH_LEN * length es"
proof (induction es)
  case (Cons e es)
  then show ?case by (cases e) simp_all
qed simp

lemma blob_total_bound:
  assumes "exec_ok x" and "length (x_args x) \<le> 8208"
  shows "blob_total (x_host x) (x_args x) < 2 ^ 63"
proof -
  have "blob_total (x_host x) (x_args x) = length (x_host x) + 1 + (length (x_args x) + 1) * 8 + 32 + strs_size (x_args x)"
    by (simp add: blob_total_def strs_size_def)
  moreover have "strs_size (x_args x) \<le> 4096 * 8208"
    using strs_size_bound [of "x_args x"] assms by (simp add: exec_ok_def PATH_LEN_def)
  ultimately show ?thesis using assms by (simp add: exec_ok_def PATH_LEN_def)
qed

lemma place_exec_result:
  assumes wf: "arch_wf (c_arch C)" and sl: "ps \<in> {1..6}" "vs \<in> {1..6}" "ps \<noteq> vs" and ok: "exec_ok x"
    and len: "length (x_args x) \<le> 8208" and p: "place_exec C ps vs x s = (r, s')"
  shows "r = 1 \<and> str_at (s_mem s') (s_kregs s' (reg_arg (c_arch C) ps)) PATH_LEN = Some (x_host x) \<and>
      argv_shows (s_mem s') (s_kregs s' (reg_arg (c_arch C) vs)) (x_args x) \<or>
    r = - 1 \<and> s_kregs s' (reg_arg (c_arch C) ps) = 0"
proof -
  let ?total = "blob_total (x_host x) (x_args x)"
  obtain base s1 where sc: "(if h_calloc (s_host s) ?total \<and> h_calloc (s_host s) ((length (x_args x) + 1) * 8)
      then scratch ?total s else (0, s)) = (base, s1)" by fastforce
  obtain off blob where b: "exec_blob base (x_host x) (x_args x) = (off, blob)" by fastforce
  obtain wok s2 where w: "write_at base blob s1 = (wok, s2)" by fastforce
  have zero: "s_kregs (put_regs C (set_arg C ps 0 t)) (reg_arg (c_arch C) ps) = 0" for t
    using wf sl by (simp add: kregs_put_arg)
  show ?thesis
  proof (cases "base \<noteq> 0 \<and> wok")
    case False
    then have "r = - 1 \<and> (\<exists>t. s' = put_regs C (set_arg C ps 0 t))"
      using p sc b w by (auto simp: place_exec_def Let_def split: if_splits)
    then show ?thesis using zero by auto
  next
    case True
    then have r: "r = 1" "s' = put_regs C (set_arg C vs (base + of_nat off) (set_arg C ps base s2))"
      using p sc b w by (auto simp: place_exec_def Let_def)
    have regs: "s_kregs s' (reg_arg (c_arch C) ps) = base" "s_kregs s' (reg_arg (c_arch C) vs) = base + of_nat off"
      using wf sl r(2) by (simp_all add: kregs_put_arg)
    obtain m where m: "gwrite (s_mem s1) base blob = (True, m)" "s_mem s2 = m"
      using w True by (auto simp: write_at_def split: prod.splits)
    have "length blob \<le> 2 ^ 64" using exec_blob_fits [OF b] blob_total_bound [OF ok len] by simp
    with mwrite_reads_back [OF gwrite_fail_or_full [OF m(1)]] have "mread m base (length blob) = blob" by simp
    from blob_readable [OF b this] ok show ?thesis
      unfolding regs using r(1) m(2) by (simp add: exec_ok_def r(2))
  qed
qed

lemma exec_call_result:
  assumes wf: "arch_wf (c_arch C)" and sl: "ps \<in> {1..6}" "vs \<in> {1..6}" "ps \<noteq> vs" and hs: "host_strings s"
    and e: "emuroot_rewrite_exec C ps vs s = (r, s')"
  shows "r = 1 \<and> (\<exists>path s1 x. read_str_at s (get_arg C s ps) PATH_LEN = Some path \<and>
        exec_loop MAX_SHEBANG_DEPTH s \<lparr>x_path = path, x_host = [],
          x_args = read_argv (s_mem s) (get_arg C s vs) MAX_EXEC_ARGS, x_rewritten = False\<rparr> = (s1, x) \<and> x_rewritten x \<and>
        str_at (s_mem s') (s_kregs s' (reg_arg (c_arch C) ps)) PATH_LEN = Some (x_host x) \<and>
        argv_shows (s_mem s') (s_kregs s' (reg_arg (c_arch C) vs)) (x_args x)) \<or>
    r = - 1 \<and> s_kregs s' (reg_arg (c_arch C) ps) = 0 \<or>
    r = 0 \<and> s' = s"
proof (cases "r = 0 \<and> s' = s")
  case False
  let ?args = "read_argv (s_mem s) (get_arg C s vs) MAX_EXEC_ARGS"
  obtain path where path: "read_str_at s (get_arg C s ps) PATH_LEN = Some path"
    using e False by (auto simp: emuroot_rewrite_exec_def Let_def split: if_splits option.splits)
  let ?x = "\<lparr>x_path = path, x_host = [], x_args = ?args, x_rewritten = False\<rparr>"
  obtain s1 x where l: "exec_loop MAX_SHEBANG_DEPTH s ?x = (s1, x)" by fastforce
  have ne: "?args \<noteq> []" and pl: "(if x_rewritten x then place_exec C ps vs x s1 else (0, s1)) = (r, s')"
    using e False path l by (auto simp: emuroot_rewrite_exec_def Let_def split: if_splits)
  note args = exec_loop_args [OF l]
  have rw: "x_rewritten x" using args pl False by (auto split: if_splits)
  have "exec_ok ?x"
    using str_at_clean [of "s_mem s" "get_arg C s ps" PATH_LEN path] path PATH_LEN_pos strs_ok_ptrs read_argv_ptrs
    by (simp add: exec_ok_def read_str_at_eq)
  from exec_loop_ok [OF l hs this] ne have ok: "exec_ok x" by simp
  have "length ?args \<le> 8192" using read_argv_ptrs [of "s_mem s" "get_arg C s vs" MAX_EXEC_ARGS] by (simp add: MAX_EXEC_ARGS_def)
  then have "length (x_args x) \<le> 8208"
    using args rw by (auto simp: expands_def MAX_SHEBANG_DEPTH_def)
  from place_exec_result [OF wf sl ok this] pl rw path l show ?thesis by auto
qed simp

text \<open>C15: a rewritten \<^verbatim>\<open>execve\<close> shows the kernel exactly the expanded call, and never a half-made one. When
  the result is 1, the kernel's path register points to the host path the expansion ended with and the
  argument register to a NULL-terminated array whose entries are the guest's own pointers or point to the
  strings the expansion made, as the kernel reads them; when it is -1 the path is NULL, so the call fails;
  when it is 0 nothing has changed.\<close>

theorem exec_call_rewritten:
  assumes wf: "arch_wf (c_arch C)" and sl: "ps \<in> {1..6}" "vs \<in> {1..6}" "ps \<noteq> vs" and hs: "host_strings s"
    and e: "emuroot_rewrite_exec C ps vs s = (r, s')"
  shows "r = 1 \<and> (\<exists>path s1 x. read_str_at s (get_arg C s ps) PATH_LEN = Some path \<and>
        exec_loop MAX_SHEBANG_DEPTH s \<lparr>x_path = path, x_host = [],
          x_args = read_argv (s_mem s) (get_arg C s vs) MAX_EXEC_ARGS, x_rewritten = False\<rparr> = (s1, x) \<and> x_rewritten x \<and>
        str_at (s_mem s') (s_kregs s' (reg_arg (c_arch C) ps)) PATH_LEN = Some (x_host x) \<and>
        argv_shows (s_mem s') (s_kregs s' (reg_arg (c_arch C) vs)) (x_args x)) \<or>
    r = - 1 \<and> s_kregs s' (reg_arg (c_arch C) ps) = 0 \<or>
    r = 0 \<and> s' = s"
  by (rule exec_call_result [OF assms])

definition demo_exec :: sys where
  "demo_exec = demo_script\<lparr>s_host := demo_host\<lparr>h_read := (\<lambda>p. if p = ''/srv/usr/x'' then Some (str_bytes ''#!/i'') else None)\<rparr>,
     s_regs := (s_regs demo_sys)(13 := 12288), s_mem := (\<lambda>a. if a = 12289 then Some 0x20 else demo_mem a)\<rparr>"

theorem exec_call_rewritten_witness:
  "case emuroot_rewrite_exec demo_cfg 1 2 demo_exec of (r, s') \<Rightarrow>
     r = 1 \<and> str_at (s_mem s') (s_kregs s' 14) PATH_LEN = Some ''/srv/i'' \<and>
       argv_shows (s_mem s') (s_kregs s' 13) [EStr ''/i'', EStr ''/usr/x''] \<or>
     r = - 1 \<and> s_kregs s' 14 = 0"
proof -
  obtain r s' where e: "emuroot_rewrite_exec demo_cfg 1 2 demo_exec = (r, s')" by fastforce
  have regs: "reg_arg (c_arch demo_cfg) (Suc 0) = 14" "reg_arg (c_arch demo_cfg) 2 = 13" by code_simp+
  have a: "get_arg demo_cfg demo_exec (Suc 0) = 8192" "get_arg demo_cfg demo_exec 2 = 12288"
    by (simp_all add: get_arg_def arg_def regs demo_exec_def demo_script_def demo_sys_def Let_def)
  have "mread (s_mem demo_exec) 8192 (length ''/usr/x'' + 1) = str_bytes ''/usr/x'' @ [0]"
    by (simp add: str_bytes_def demo_mem_def demo_exec_def)
  then have g: "read_str_at demo_exec 8192 PATH_LEN = Some ''/usr/x''"
    using str_at_written [of "s_mem demo_exec" 8192 "''/usr/x''" PATH_LEN] by (simp add: read_str_at_eq PATH_LEN_def)
  have "mread (s_mem demo_exec) 12288 (Suc (Suc (Suc (Suc (Suc (Suc (Suc (Suc 0)))))))) = [0, 0x20, 0, 0, 0, 0, 0, 0]"
      "mread (s_mem demo_exec) 12296 (Suc (Suc (Suc (Suc (Suc (Suc (Suc (Suc 0)))))))) = [0, 0, 0, 0, 0, 0, 0, 0]"
    by (simp_all add: demo_exec_def demo_mem_def)
  then have "mread (s_mem demo_exec) 12288 8 = [0, 0x20, 0, 0, 0, 0, 0, 0]" "mread (s_mem demo_exec) 12296 8 = [0, 0, 0, 0, 0, 0, 0, 0]"
    by (simp_all only: eval_nat_numeral BitM.simps)
  then have r: "read_argv (s_mem demo_exec) 12288 (Suc (Suc n)) = [EPtr 8192]" for n by (simp add: Let_def)
  have n: "MAX_EXEC_ARGS = Suc (Suc 8190)" by (simp add: MAX_EXEC_ARGS_def)
  have v: "read_argv (s_mem demo_exec) 12288 MAX_EXEC_ARGS = [EPtr 8192]" unfolding n by (rule r)
  let ?x = "\<lparr>x_path = ''/usr/x'', x_host = [], x_args = [EPtr 8192], x_rewritten = False\<rparr>"
  have l: "(let x = snd (exec_loop MAX_SHEBANG_DEPTH demo_exec ?x)
    in x_host x = ''/srv/i'' \<and> x_args x = [EStr ''/i'', EStr ''/usr/x''] \<and> x_rewritten x)" by code_simp
  have hs: "host_strings demo_exec"
    by (auto simp: c_strings_def demo_exec_def demo_script_def demo_sys_def demo_host_def zero_ctx_def Let_def)
  have "arch_wf (c_arch demo_cfg)" by code_simp
  from exec_call_rewritten [OF this _ _ _ hs e] have "r = 1 \<and> str_at (s_mem s') (s_kregs s' 14) PATH_LEN = Some ''/srv/i'' \<and>
       argv_shows (s_mem s') (s_kregs s' 13) [EStr ''/i'', EStr ''/usr/x''] \<or> r = - 1 \<and> s_kregs s' 14 = 0 \<or> r = 0 \<and> s' = demo_exec"
    using l g v by (auto simp: a regs Let_def)
  moreover have "r \<noteq> 0"
  proof -
    have cal: "h_calloc (s_host demo_exec) k" for k by (simp add: demo_exec_def demo_host_def Let_def)
    obtain s1 x where x: "exec_loop MAX_SHEBANG_DEPTH demo_exec ?x = (s1, x)" by fastforce
    then have "place_exec demo_cfg 1 2 x s1 = (r, s')"
      using e l g v by (simp add: emuroot_rewrite_exec_def a Let_def cal)
    then show ?thesis by (auto simp: place_exec_def Let_def split: prod.splits if_splits)
  qed
  ultimately show ?thesis unfolding e prod.case by simp
qed

end
