(* ===== verification/Fake.thy ===== *)
theory Fake
  imports Mounts Exec
begin

text \<open>
  \<^verbatim>\<open>fake.c\<close>: what happens when a system call has returned. \<open>emuroot_on_exit\<close> is the handler; \<open>s_regs\<close>
  holds the registers read at the exit stop and \<open>t_args\<close> the arguments recorded at entry. The handler's
  branches are definitions of their own, in the order of the source. A result is an int until it is put
  into the return register.
\<close>

definition write_to :: "u64 \<Rightarrow> u8 list \<Rightarrow> sys \<Rightarrow> sys" where
  "write_to a bs s = snd (write_at a bs s)"

text \<open>A 4-byte id in guest memory; \<open>None\<close> when it cannot be read in full.\<close>

definition read_word :: "sys \<Rightarrow> u64 \<Rightarrow> nat \<Rightarrow> u64 option" where
  "read_word s a n = (let bs = mread (s_mem s) a n in if length bs = n then Some (le_word bs) else None)"

definition id_bytes :: "u32 \<Rightarrow> u8 list" where
  "id_bytes v = le_bytes 4 (ucast v)"

definition set_result :: "cfg \<Rightarrow> int \<Rightarrow> sys \<Rightarrow> sys" where
  "set_result C v s = put_regs C (set_ret C (word_of_int v) s)"

subsection \<open>Owners in stat buffers\<close>

definition statx_layout :: stat_layout where
  "statx_layout = \<lparr>l_uid = 20, l_gid = 24, l_dev = 136, l_ino = 32, l_statx = True\<rparr>"

definition makedev :: "u32 \<Rightarrow> u32 \<Rightarrow> u64" where
  "makedev major minor =
     push_bit 32 (ucast (major AND NOT 0xfff)) OR ucast (push_bit 8 (major AND 0xfff)) OR
     push_bit 12 (ucast (minor AND NOT 0xff)) OR ucast (minor AND 0xff)"

definition stat_dev :: "sys \<Rightarrow> u64 \<Rightarrow> stat_layout \<Rightarrow> u64 option" where
  "stat_dev s buf l =
     (if l_statx l then
        (case (read_word s (buf + of_nat (l_dev l)) 4, read_word s (buf + of_nat (l_dev l) + 4) 4) of
           (Some major, Some minor) \<Rightarrow> Some (makedev (ucast major) (ucast minor))
         | _ \<Rightarrow> None)
      else
        let bs = mread (s_mem s) (buf + of_nat (l_dev l)) 8
        in if length bs < 4 then None else Some (le_word bs))"

definition fake_owner :: "u64 \<Rightarrow> stat_layout \<Rightarrow> sys \<Rightarrow> sys" where
  "fake_owner buf l s =
     (if buf = 0 then s
      else
        let ctx = s_ctx s; h = s_host s;
            put_uid = (\<lambda>v. write_to (buf + of_nat (l_uid l)) (id_bytes v));
            put_gid = (\<lambda>v. write_to (buf + of_nat (l_gid l)) (id_bytes v))
        in case (read_word s (buf + of_nat (l_uid l)) 4, read_word s (buf + of_nat (l_gid l)) 4,
                 read_word s (buf + of_nat (l_ino l)) 8, stat_dev s buf l) of
             (Some u, Some g, Some ino, Some dev) \<Rightarrow>
               (case emuroot_owner_lookup (owners ctx) dev ino of
                  Some (fu, fg) \<Rightarrow> put_gid fg (put_uid fu s)
                | None \<Rightarrow>
                    let s = (if ucast u = h_geteuid h then put_uid (fake_uid ctx) s else s)
                    in if ucast g = h_getegid h then put_gid (fake_gid ctx) s else s)
           | _ \<Rightarrow> s)"

subsection \<open>Paths the guest reads back\<close>

definition map_proc_link :: "cfg \<Rightarrow> int \<Rightarrow> sys \<Rightarrow> sys" where
  "map_proc_link C len s =
     (let at = (if is_sys C ''readlinkat'' (t_sysno (s_tr s)) then 1 else 0);
          buf = t_args (s_tr s) ! (1 + at); sz = t_args (s_tr s) ! (2 + at);
          bs = mread (s_mem s) buf (nat len)
      in if len \<ge> int PATH_LEN \<or> length bs \<noteq> nat len then s
         else
           let host = bytes_str (takeWhile (\<lambda>b. b \<noteq> 0) bs)
           in case (if proc_link_exe (s_tr s) \<and> t_exe (s_tr s) \<noteq> [] then Some (t_exe (s_tr s))
                    else emuroot_host_to_guest (s_ctx s) (t_root (s_tr s)) host PATH_LEN) of
                None \<Rightarrow> s
              | Some answer \<Rightarrow>
                  let n = (if length answer < unat sz then length answer else unat sz)
                  in (case write_at buf (str_bytes (take n answer)) s of
                        (ok, s) \<Rightarrow>
                          if ok then s\<lparr>s_kregs := (s_kregs s)(r_ret (c_arch C) := of_nat n)\<rparr> else s))"

definition exit_getcwd :: "cfg \<Rightarrow> int \<Rightarrow> sys \<Rightarrow> sys" where
  "exit_getcwd C ret s =
     (let buf = get_arg C s 1
      in if ret \<le> 0 then s
         else (case read_str_at s buf PATH_LEN of
                 None \<Rightarrow> s
               | Some cwd \<Rightarrow>
                   (case emuroot_host_to_guest (s_ctx s) (t_root (s_tr s)) cwd PATH_LEN of
                      None \<Rightarrow> s
                    | Some guest \<Rightarrow>
                        (case write_at buf (str_bytes guest @ [0]) s of
                           (ok, s) \<Rightarrow> if ok then set_result C (int (length guest) + 1) s else s))))"

text \<open>\<^verbatim>\<open>struct utsname\<close>: six fields of 65 bytes. \<^verbatim>\<open>snprintf\<close> leaves what follows the terminator.\<close>

definition UTS_FIELD :: nat where "UTS_FIELD = 65"
definition UTS_SIZE :: nat where "UTS_SIZE = 390"

definition put_field :: "nat \<Rightarrow> string \<Rightarrow> u8 list \<Rightarrow> u8 list" where
  "put_field i v u =
     (let bs = str_bytes (snprintf UTS_FIELD v) @ [0]
      in take (i * UTS_FIELD) u @ bs @ drop (i * UTS_FIELD + length bs) u)"

definition exit_uname :: "cfg \<Rightarrow> int \<Rightarrow> sys \<Rightarrow> sys" where
  "exit_uname C ret s =
     (let ctx = s_ctx s; buf = get_arg C s 1; u = mread (s_mem s) buf UTS_SIZE
      in if \<not> has_fake_uname ctx \<or> ret \<noteq> 0 \<or> length u \<noteq> UTS_SIZE then s
         else write_to buf (put_field 4 (uname_machine ctx)
                (put_field 2 (uname_release ctx) (put_field 0 (uname_sysname ctx) u))) s)"

subsection \<open>Credentials\<close>

text \<open>The ids of \<^verbatim>\<open>setgroups\<close> as four-byte words.\<close>

fun id_list :: "u8 list \<Rightarrow> u32 list" where
  "id_list (a # b # c # d # bs) = ucast (le_word [a, b, c, d]) # id_list bs"
| "id_list _ = []"

definition cred_op_of :: "action \<Rightarrow> u64 list \<Rightarrow> sys \<Rightarrow> cred_op option" where
  "cred_op_of action a s =
     (case action of
        A_SETUID \<Rightarrow> Some (SETUID (ucast (a ! 0)))
      | A_SETGID \<Rightarrow> Some (SETGID (ucast (a ! 0)))
      | A_SETREUID \<Rightarrow> Some (SETREUID (ucast (a ! 0)) (ucast (a ! 1)))
      | A_SETREGID \<Rightarrow> Some (SETREGID (ucast (a ! 0)) (ucast (a ! 1)))
      | A_SETRESUID \<Rightarrow> Some (SETRESUID (ucast (a ! 0)) (ucast (a ! 1)) (ucast (a ! 2)))
      | A_SETRESGID \<Rightarrow> Some (SETRESGID (ucast (a ! 0)) (ucast (a ! 1)) (ucast (a ! 2)))
      | A_SETFSUID \<Rightarrow> Some (SETFSUID (ucast (a ! 0)))
      | A_SETFSGID \<Rightarrow> Some (SETFSGID (ucast (a ! 0)))
      | A_SETGROUPS \<Rightarrow>
          let n = sint (a ! 0); bs = mread (s_mem s) (a ! 1) (nat n * 4)
          in if n > 0 \<and> n \<le> int CREDS_MAX_GROUPS \<and> length bs \<noteq> nat n * 4 then None
             else Some (SETGROUPS (if n > 0 \<and> n \<le> int CREDS_MAX_GROUPS then id_list bs else []) n)
      | _ \<Rightarrow> None)"

definition put_ids :: "u64 list \<Rightarrow> id3 \<Rightarrow> sys \<Rightarrow> sys" where
  "put_ids a ids s =
     write_to (a ! 2) (id_bytes (id_s ids)) (write_to (a ! 1) (id_bytes (id_e ids))
       (write_to (a ! 0) (id_bytes (id_r ids)) s))"

definition exit_chown :: "int \<Rightarrow> sys \<Rightarrow> int \<times> sys" where
  "exit_chown ret s =
     (let t = s_tr s;
          u = (if chown_uid t \<noteq> NOID then chown_uid t else chown_cur_uid t);
          g = (if chown_gid t \<noteq> NOID then chown_gid t else chown_cur_gid t);
          db = emuroot_owner_set (h_calloc (s_host s)) (owners (s_ctx s)) (chown_dev t) (chown_ino t) u g
      in (if ret = - EPERM \<or> ret = - EINVAL then 0 else ret,
          if chown_valid t \<and> (ret = 0 \<or> ret = - EPERM \<or> ret = - EINVAL)
          then s\<lparr>s_ctx := (s_ctx s)\<lparr>owners := db\<rparr>\<rparr> else s))"

text \<open>The last part of the handler, for a context with fake ids: the result the guest is to see.\<close>

definition exit_ids :: "cfg \<Rightarrow> action \<Rightarrow> int \<Rightarrow> sys \<Rightarrow> int \<times> sys" where
  "exit_ids C action ret s =
     (let c = t_creds (s_tr s); a = t_args (s_tr s)
      in case cred_op_of action a s of
           Some op \<Rightarrow>
             (case cred_call op c of (r, c) \<Rightarrow> (r, upd_tr (\<lambda>t. t\<lparr>t_creds := c\<rparr>) s))
         | None \<Rightarrow>
             (case action of
                A_GETUID \<Rightarrow> (uint (id_r (uid c)), s)
              | A_GETEUID \<Rightarrow> (uint (id_e (uid c)), s)
              | A_GETGID \<Rightarrow> (uint (id_r (gid c)), s)
              | A_GETEGID \<Rightarrow> (uint (id_e (gid c)), s)
              | A_GETRESUID \<Rightarrow> (0, put_ids a (uid c) s)
              | A_GETRESGID \<Rightarrow> (0, put_ids a (gid c) s)
              | A_GETGROUPS \<Rightarrow>
                  if a ! 0 \<noteq> 0 \<and> sint (a ! 0) < ngroups c then (- EINVAL, s)
                  else (ngroups c,
                        if a ! 0 \<noteq> 0 then write_to (a ! 1) (concat (map id_bytes (take (nat (ngroups c)) (groups c)))) s
                        else s)
              | A_SETGROUPS \<Rightarrow> (- EFAULT, s)
              | A_CHOWN \<Rightarrow> exit_chown ret s
              | A_STAT_2 \<Rightarrow> (ret, if ret = 0 then fake_owner (a ! 1) (c_stat_layout C) s else s)
              | A_STAT_3 \<Rightarrow> (ret, if ret = 0 then fake_owner (a ! 2) (c_stat_layout C) s else s)
              | A_STATX \<Rightarrow> (ret, if ret = 0 then fake_owner (a ! 4) statx_layout s else s)
              | _ \<Rightarrow> (ret, s)))"

subsection \<open>The handler\<close>

text \<open>The log line, and the owner of a file the call has made.\<close>

definition exit_created :: "int \<Rightarrow> sys \<Rightarrow> sys" where
  "exit_created ret s =
     (let s = upd_tr (\<lambda>t. t\<lparr>logged := False\<rparr>) s; t = s_tr s
      in if t_created t = [] then s
         else
           let s = (case h_lstat (s_host s) (t_created t) of
                      Some st \<Rightarrow>
                        if ret \<ge> 0
                        then s\<lparr>s_ctx := (s_ctx s)\<lparr>owners := emuroot_owner_set (h_calloc (s_host s)) (owners (s_ctx s))
                               (st_dev st) (st_ino st) (fsuid (t_creds t)) (fsgid (t_creds t))\<rparr>\<rparr>
                        else s
                    | None \<Rightarrow> s)
           in upd_tr (\<lambda>t. t\<lparr>t_created := []\<rparr>) s)"

definition exit_chroot :: "cfg \<Rightarrow> sys \<Rightarrow> sys" where
  "exit_chroot C s =
     set_result C 0 (upd_tr (\<lambda>t. t\<lparr>t_root := snprintf PATH_LEN (pending_root t), pending_root := []\<rparr>) s)"

definition exit_action :: "cfg \<Rightarrow> action \<Rightarrow> int \<Rightarrow> sys \<Rightarrow> sys" where
  "exit_action C action ret s =
     (let t = s_tr s
      in if action = A_GETCWD then exit_getcwd C ret s
         else if action = A_EXECVE then (if ret = 0 then upd_tr (\<lambda>t. t\<lparr>t_exe := pending_exe t\<rparr>) s else s)
         else if action = A_CHROOT \<and> pending_root t \<noteq> [] then exit_chroot C s
         else if (action = A_MOUNT \<or> action = A_UMOUNT) \<and> mount_handled t then set_result C 0 s
         else if action = A_READLINK then (if \<not> proc_link t \<or> ret \<le> 0 then s else map_proc_link C ret s)
         else if action = A_UNAME then exit_uname C ret s
         else if \<not> has_fake_ids (s_ctx s) then s
         else (case exit_ids C action ret s of
                 (result, s) \<Rightarrow> if result \<noteq> ret then set_result C result s else s))"

definition emuroot_on_exit :: "cfg \<Rightarrow> sys \<Rightarrow> sys" where
  "emuroot_on_exit C s =
     (let ret = sint (s_regs s (r_ret (c_arch C)));
          s = exit_created ret s
      in case emuroot_action_of (c_nr C) (c_lp64 C) (t_sysno (s_tr s)) of
           None \<Rightarrow> s
         | Some action \<Rightarrow> exit_action C action ret s)"

subsection \<open>Facts\<close>

lemma write_to_frame [simp]:
  "s_ctx (write_to a bs s) = s_ctx s" "s_tr (write_to a bs s) = s_tr s" "s_regs (write_to a bs s) = s_regs s"
  "s_kregs (write_to a bs s) = s_kregs s" "s_host (write_to a bs s) = s_host s"
  by (simp_all add: write_to_def write_at_def split: prod.splits)

lemma read_word_upd_tr [simp]: "read_word (upd_tr f s) = read_word s" "stat_dev (upd_tr f s) = stat_dev s"
  by (simp_all add: read_word_def stat_dev_def fun_eq_iff)

lemma length_id_bytes [simp]: "length (id_bytes v) = 4"
  by (simp add: id_bytes_def)

lemma le_word_id [simp]: "le_word (id_bytes v) = ucast v"
proof -
  have "le_word (id_bytes v) = take_bit 32 (ucast v)" using le_word_le_bytes [of 4] by (simp add: id_bytes_def)
  also have "\<dots> = ucast v" by (rule bit_eqI) (auto simp: bit_simps dest: bit_imp_le_length)
  finally show ?thesis .
qed

lemma apart_below:
  assumes "unat a + j \<le> unat b" and "unat b + k \<le> 2 ^ 64"
  shows "apart a j b k" "apart b k a j"
proof -
  have "a + of_nat x \<noteq> b + of_nat y" if "x < j" "y < k" for x y
  proof -
    have "unat (a + of_nat x) = unat a + x" "unat (b + of_nat y) = unat b + y"
      using assms that by (simp_all add: unat_word_ariths unsigned_of_nat take_bit_nat_eq_self)
    then show ?thesis using assms that by auto
  qed
  then show "apart a j b k" "apart b k a j" by (auto simp: apart_def) metis
qed

text \<open>An id written over four mapped bytes reads back, and changes nothing apart from them.\<close>

lemma read_word_written:
  assumes "read_word s a 4 \<noteq> None"
  shows "read_word (write_to a (id_bytes v) s) a 4 = Some (ucast v)"
    "apart b n a 4 \<Longrightarrow> read_word (write_to a (id_bytes v) s) b n = read_word s b n"
    "apart b n a 4 \<Longrightarrow> mread (s_mem (write_to a (id_bytes v) s)) b n = mread (s_mem s) b n"
proof -
  have "length (mread (s_mem s) a 4) = 4" using assms by (auto simp: read_word_def Let_def split: if_splits)
  then have "\<forall>i < length (id_bytes v). s_mem s (a + of_nat i) \<noteq> None" by (simp add: mread_full_iff)
  from mwrite_ok [OF this] obtain m' where m': "mwrite (s_mem s) a (id_bytes v) = (length (id_bytes v), m')"
      "mread m' a (length (id_bytes v)) = id_bytes v" by auto
  then have s': "s_mem (write_to a (id_bytes v) s) = m'"
    by (simp add: write_to_def write_at_def gwrite_def)
  show "read_word (write_to a (id_bytes v) s) a 4 = Some (ucast v)" using m'(2) by (simp add: read_word_def s')
  show r: "mread (s_mem (write_to a (id_bytes v) s)) b n = mread (s_mem s) b n" if "apart b n a 4"
    using mread_mwrite_apart [OF m'(1)] that by (simp add: s')
  then show "read_word (write_to a (id_bytes v) s) b n = read_word s b n" if "apart b n a 4"
    using that by (simp add: read_word_def)
qed

lemma set_result_simps [simp]:
  "s_ctx (set_result C v s) = s_ctx s" "s_tr (set_result C v s) = s_tr s" "s_mem (set_result C v s) = s_mem s"
  "s_host (set_result C v s) = s_host s"
  by (simp_all add: set_result_def set_ret_def put_regs_def)

lemma set_result_ret: "arch_wf (c_arch C) \<Longrightarrow> s_kregs (set_result C v s) (r_ret (c_arch C)) = word_of_int v"
  by (simp add: set_result_def set_ret_def put_regs_def arch_wf_def list_all_iff)

lemma exit_created_none: "t_created (s_tr s) = [] \<Longrightarrow> exit_created ret s = upd_tr (\<lambda>t. t\<lparr>logged := False\<rparr>) s"
  by (simp add: exit_created_def Let_def)

lemma on_exit_action:
  assumes "t_created (s_tr s) = []" and "emuroot_action_of (c_nr C) (c_lp64 C) (t_sysno (s_tr s)) = Some action"
  shows "emuroot_on_exit C s =
    exit_action C action (sint (s_regs s (r_ret (c_arch C)))) (upd_tr (\<lambda>t. t\<lparr>logged := False\<rparr>) s)"
  using assms by (simp add: emuroot_on_exit_def exit_created_none)

text \<open>The actions of the last part of the handler.\<close>

definition id_action :: "action \<Rightarrow> bool" where
  "id_action a \<longleftrightarrow> a \<notin> {A_GETCWD, A_EXECVE, A_CHROOT, A_MOUNT, A_UMOUNT, A_READLINK, A_UNAME}"

lemma on_exit_ids:
  assumes "t_created (s_tr s) = []" and "emuroot_action_of (c_nr C) (c_lp64 C) (t_sysno (s_tr s)) = Some action"
    and "has_fake_ids (s_ctx s)" and "id_action action"
  shows "emuroot_on_exit C s =
    (let ret = sint (s_regs s (r_ret (c_arch C)))
     in case exit_ids C action ret (upd_tr (\<lambda>t. t\<lparr>logged := False\<rparr>) s) of
          (result, s) \<Rightarrow> if result \<noteq> ret then set_result C result s else s)"
  using assms(3,4) by (simp add: on_exit_action [OF assms(1,2)] exit_action_def id_action_def Let_def)

text \<open>What the guest finds in its result register, when the handler's registers are the kernel's.\<close>

lemma result_seen:
  assumes "arch_wf (c_arch C)" and "s_kregs s (r_ret (c_arch C)) = s_regs s (r_ret (c_arch C))"
  shows "s_kregs (if v \<noteq> sint (s_regs s (r_ret (c_arch C))) then set_result C v s else s) (r_ret (c_arch C)) = word_of_int v"
  using set_result_ret [OF assms(1)] assms(2) by auto

subsection \<open>Ownership\<close>

text \<open>The uid and gid fields of a stat buffer as the guest reads them.\<close>

definition owner_fields :: "sys \<Rightarrow> u64 \<Rightarrow> stat_layout \<Rightarrow> (u64 option \<times> u64 option)" where
  "owner_fields s buf l = (read_word s (buf + of_nat (l_uid l)) 4, read_word s (buf + of_nat (l_gid l)) 4)"

lemma fake_owner_recorded:
  assumes "buf \<noteq> 0" and "emuroot_owner_lookup (owners (s_ctx s)) dev ino = Some (fu, fg)"
    and "read_word s (buf + of_nat (l_ino l)) 8 = Some ino" "stat_dev s buf l = Some dev"
    and mapped: "read_word s (buf + of_nat (l_uid l)) 4 \<noteq> None" "read_word s (buf + of_nat (l_gid l)) 4 \<noteq> None"
    and apart: "apart (buf + of_nat (l_uid l)) 4 (buf + of_nat (l_gid l)) 4" "apart (buf + of_nat (l_gid l)) 4 (buf + of_nat (l_uid l)) 4"
  shows "owner_fields (fake_owner buf l s) buf l = (Some (ucast fu), Some (ucast fg))"
proof -
  let ?u = "buf + of_nat (l_uid l)" and ?g = "buf + of_nat (l_gid l)"
  let ?s1 = "write_to ?u (id_bytes fu) s"
  have f: "fake_owner buf l s = write_to ?g (id_bytes fg) ?s1"
    using assms(1-6) by (auto simp: fake_owner_def Let_def)
  note w1 = read_word_written [where v = fu, OF mapped(1)]
  have "read_word ?s1 ?g 4 \<noteq> None" using w1(2) [OF apart(2)] mapped(2) by simp
  note w2 = read_word_written [where v = fg, OF this]
  show ?thesis using w1(1) w2(1) w2(2) [OF apart(1)] by (simp add: owner_fields_def f)
qed

lemma exit_chown_recorded:
  assumes "owners_wf (owners (s_ctx s))" and "can_store (h_calloc (s_host s)) (owners (s_ctx s))"
    and "chown_valid (s_tr s)" and "ret \<in> {0, - EPERM, - EINVAL}" and "exit_chown ret s = (r, s')"
  shows "r = 0" "emuroot_owner_lookup (owners (s_ctx s')) (chown_dev (s_tr s)) (chown_ino (s_tr s)) =
      Some (if chown_uid (s_tr s) \<noteq> NOID then chown_uid (s_tr s) else chown_cur_uid (s_tr s),
            if chown_gid (s_tr s) \<noteq> NOID then chown_gid (s_tr s) else chown_cur_gid (s_tr s))"
    "s_kregs s' = s_kregs s" "s_regs s' = s_regs s"
proof -
  note set1 = owner_set_map(1,2) [OF assms(1)]
  show "r = 0" "s_kregs s' = s_kregs s" "s_regs s' = s_regs s"
    using assms(3-5) by (auto simp: exit_chown_def Let_def split: if_splits)
  have "owners (s_ctx s') = emuroot_owner_set (h_calloc (s_host s)) (owners (s_ctx s)) (chown_dev (s_tr s)) (chown_ino (s_tr s))
      (if chown_uid (s_tr s) \<noteq> NOID then chown_uid (s_tr s) else chown_cur_uid (s_tr s))
      (if chown_gid (s_tr s) \<noteq> NOID then chown_gid (s_tr s) else chown_cur_gid (s_tr s))"
    using assms(3-5) by (auto simp: exit_chown_def Let_def)
  then show "emuroot_owner_lookup (owners (s_ctx s')) (chown_dev (s_tr s)) (chown_ino (s_tr s)) =
      Some (if chown_uid (s_tr s) \<noteq> NOID then chown_uid (s_tr s) else chown_cur_uid (s_tr s),
            if chown_gid (s_tr s) \<noteq> NOID then chown_gid (s_tr s) else chown_cur_gid (s_tr s))"
    using owner_lookup_map [OF set1(1)] set1(2) assms(2) by simp
qed

lemma put_result_frame:
  "s_ctx (if b then set_result C v s else s) = s_ctx s" "s_mem (if b then set_result C v s else s) = s_mem s"
  by simp_all

text \<open>C20: a chown is remembered and reported. When a \<^verbatim>\<open>chown\<close> returns, successfully or refused with
  EPERM or EINVAL, the guest sees it succeed, and a later \<^verbatim>\<open>stat\<close> of the same file (by any process, found
  by device and inode) shows the requested user and group, an id of -1 standing for the one the file
  had.\<close>

theorem chown_seen_by_stat:
  assumes wf: "arch_wf (c_arch C)" and ids: "has_fake_ids (s_ctx s)"
    and ow: "owners_wf (owners (s_ctx s))" "can_store (h_calloc (s_host s)) (owners (s_ctx s))"
    and call: "emuroot_action_of (c_nr C) (c_lp64 C) (t_sysno (s_tr s)) = Some A_CHOWN" "t_created (s_tr s) = []"
      "chown_valid (s_tr s)" "sint (s_regs s (r_ret (c_arch C))) \<in> {0, - EPERM, - EINVAL}"
      "s_kregs s (r_ret (c_arch C)) = s_regs s (r_ret (c_arch C))"
    and s1: "s1 = emuroot_on_exit C s"
    and later: "s_ctx s2 = s_ctx s1" "emuroot_action_of (c_nr C) (c_lp64 C) (t_sysno (s_tr s2)) = Some A_STAT_2"
      "t_created (s_tr s2) = []" "s_regs s2 (r_ret (c_arch C)) = 0"
    and buf: "buf = t_args (s_tr s2) ! 1" "buf \<noteq> 0" "l = c_stat_layout C"
      "read_word s2 (buf + of_nat (l_ino l)) 8 = Some (chown_ino (s_tr s))" "stat_dev s2 buf l = Some (chown_dev (s_tr s))"
      "read_word s2 (buf + of_nat (l_uid l)) 4 \<noteq> None" "read_word s2 (buf + of_nat (l_gid l)) 4 \<noteq> None"
      "apart (buf + of_nat (l_uid l)) 4 (buf + of_nat (l_gid l)) 4" "apart (buf + of_nat (l_gid l)) 4 (buf + of_nat (l_uid l)) 4"
  shows "s_kregs s1 (r_ret (c_arch C)) = 0 \<and>
    owner_fields (emuroot_on_exit C s2) buf l =
      (Some (ucast (if chown_uid (s_tr s) \<noteq> NOID then chown_uid (s_tr s) else chown_cur_uid (s_tr s))),
       Some (ucast (if chown_gid (s_tr s) \<noteq> NOID then chown_gid (s_tr s) else chown_cur_gid (s_tr s))))"
proof -
  let ?ret = "sint (s_regs s (r_ret (c_arch C)))" and ?t = "upd_tr (\<lambda>t. t\<lparr>logged := False\<rparr>) s"
  obtain r s' where e: "exit_chown ?ret ?t = (r, s')" by fastforce
  have c: "exit_ids C A_CHOWN ?ret ?t = (r, s')" using e by (simp add: exit_ids_def cred_op_of_def)
  have st1: "s1 = (if r \<noteq> ?ret then set_result C r s' else s')"
    using on_exit_ids [OF call(2,1) ids] c by (simp add: s1 id_action_def)
  note ch = exit_chown_recorded [of ?t, simplified, OF ow call(3) call(4) [simplified] e]
  have zero: "s_kregs s1 (r_ret (c_arch C)) = 0"
    using result_seen [OF wf, of s' r] ch(1,3,4) call(5) by (simp add: st1)
  have look: "emuroot_owner_lookup (owners (s_ctx s2)) (chown_dev (s_tr s)) (chown_ino (s_tr s)) =
      Some (if chown_uid (s_tr s) \<noteq> NOID then chown_uid (s_tr s) else chown_cur_uid (s_tr s),
            if chown_gid (s_tr s) \<noteq> NOID then chown_gid (s_tr s) else chown_cur_gid (s_tr s))"
    using ch(2) later(1) by (simp add: st1)
  have "has_fake_ids (s_ctx s2)"
    using ids e later(1) by (auto simp: st1 exit_chown_def Let_def split: if_splits)
  from on_exit_ids [OF later(3,2) this] buf(1,3) later(4)
  have "emuroot_on_exit C s2 = fake_owner buf l (upd_tr (\<lambda>t. t\<lparr>logged := False\<rparr>) s2)"
    by (simp add: id_action_def exit_ids_def cred_op_of_def)
  then show ?thesis
    using fake_owner_recorded [OF buf(2), of "upd_tr (\<lambda>t. t\<lparr>logged := False\<rparr>) s2"] look buf(4-9) zero
    by simp
qed

subsection \<open>The working directory\<close>

text \<open>Where \<^verbatim>\<open>getcwd\<close> is patched. After a \<^verbatim>\<open>getcwd\<close> that returned \<open>ret > 0\<close> the handler reads and rewrites
  the buffer its first argument register points to at the exit stop. On the x86 architectures that is the
  guest's buffer: when it holds a host directory the guest can name, the guest's path replaces it and the
  result is its length with the NUL. On every other architecture the result has overwritten that register,
  so the address is the length returned, and as nothing is mapped there the guest keeps the host path.\<close>

theorem getcwd_exit_buffer:
  assumes arch: "c_arch C \<in> set archs"
    and call: "emuroot_action_of (c_nr C) (c_lp64 C) (t_sysno (s_tr s)) = Some A_GETCWD" "t_created (s_tr s) = []"
    and ret: "s_regs s = r0(r_ret (c_arch C) := rv)" "0 < sint rv"
  shows "(EMU_ARCH_NAME (c_arch C) \<in> {''x86_64'', ''x86''} \<longrightarrow>
      (\<forall>cwd guest. read_str_at s (arg (c_arch C) r0 1) PATH_LEN = Some cwd \<longrightarrow>
         emuroot_host_to_guest (s_ctx s) (t_root (s_tr s)) cwd PATH_LEN = Some guest \<longrightarrow>
         gwrite (s_mem s) (arg (c_arch C) r0 1) (str_bytes guest @ [0]) = (True, m') \<longrightarrow>
         s_mem (emuroot_on_exit C s) = m' \<and>
         s_kregs (emuroot_on_exit C s) (r_ret (c_arch C)) = of_nat (length guest + 1))) \<and>
    (EMU_ARCH_NAME (c_arch C) \<notin> {''x86_64'', ''x86''} \<longrightarrow> s_mem s rv = None \<longrightarrow>
      s_mem (emuroot_on_exit C s) = s_mem s \<and> s_kregs (emuroot_on_exit C s) = s_kregs s)"
proof -
  have wf: "arch_wf (c_arch C)" using archs_wf [OF arch] .
  let ?t = "upd_tr (\<lambda>t. t\<lparr>logged := False\<rparr>) s"
  have e: "emuroot_on_exit C s = exit_getcwd C (sint rv) ?t"
    using on_exit_action [OF call(2,1)] by (simp add: exit_action_def ret(1))
  have a: "get_arg C s (Suc 0) = (if EMU_ARCH_NAME (c_arch C) \<notin> {''x86_64'', ''x86''} then rv else arg (c_arch C) r0 1)"
    using first_arg_ret [OF arch] by (simp add: get_arg_def arg_def ret(1))
  have rd: "read_str_at ?t x n = read_str_at s x n" for x n by (simp add: read_str_at_def)
  show ?thesis
  proof (intro conjI impI allI)
    assume x86: "EMU_ARCH_NAME (c_arch C) \<in> {''x86_64'', ''x86''}"
    fix cwd guest
    assume g: "read_str_at s (arg (c_arch C) r0 1) PATH_LEN = Some cwd"
      "emuroot_host_to_guest (s_ctx s) (t_root (s_tr s)) cwd PATH_LEN = Some guest"
      "gwrite (s_mem s) (arg (c_arch C) r0 1) (str_bytes guest @ [0]) = (True, m')"
    have "exit_getcwd C (sint rv) ?t = set_result C (int (length guest) + 1) (?t\<lparr>s_mem := m'\<rparr>)"
      using x86 g ret(2) by (simp add: exit_getcwd_def a rd write_at_def Let_def)
    then show "s_mem (emuroot_on_exit C s) = m'"
        "s_kregs (emuroot_on_exit C s) (r_ret (c_arch C)) = of_nat (length guest + 1)"
      using set_result_ret [OF wf] by (simp_all add: e)
  next
    assume other: "EMU_ARCH_NAME (c_arch C) \<notin> {''x86_64'', ''x86''}" and un: "s_mem s rv = None"
    have "mread (s_mem s) rv (PATH_LEN - 1) = []" using un by (simp add: mread_Nil_iff)
    then have "read_str_at s rv PATH_LEN = None" by (simp add: read_str_at_eq PATH_LEN_pos str_at_def)
    then have "exit_getcwd C (sint rv) ?t = ?t" using other by (simp add: exit_getcwd_def a rd Let_def)
    then show "s_mem (emuroot_on_exit C s) = s_mem s" "s_kregs (emuroot_on_exit C s) = s_kregs s" by (simp_all add: e)
  qed
qed

theorem getcwd_exit_buffer_witness:
  "let C = demo_cfg\<lparr>c_arch := arch_aarch64, c_nr := [''getcwd'' \<mapsto> 17]\<rparr>;
       s = demo_sys\<lparr>s_tr := zero_tracee\<lparr>t_sysno := 17\<rparr>, s_mem := demo_mem(10 := None), s_regs := (\<lambda>_. 0)(0 := 10)\<rparr>
   in s_mem (emuroot_on_exit C s) = s_mem s \<and> s_kregs (emuroot_on_exit C s) = s_kregs s"
proof -
  let ?C = "demo_cfg\<lparr>c_arch := arch_aarch64, c_nr := [''getcwd'' \<mapsto> 17]\<rparr>"
  let ?s = "demo_sys\<lparr>s_tr := zero_tracee\<lparr>t_sysno := 17\<rparr>, s_mem := demo_mem(10 := None), s_regs := (\<lambda>_. 0)(0 := 10)\<rparr>"
  have a: "c_arch ?C \<in> set archs" by (simp add: archs_def)
  have b: "emuroot_action_of (c_nr ?C) (c_lp64 ?C) (t_sysno (s_tr ?s)) = Some A_GETCWD" by code_simp
  have c: "t_created (s_tr ?s) = []" by code_simp
  have d: "s_regs ?s = (\<lambda>_. 0)(r_ret (c_arch ?C) := 10)" by (simp add: arch_aarch64_def)
  have e: "0 < sint (10 :: u64)" by code_simp
  from getcwd_exit_buffer [OF a b c d e] show ?thesis by (simp add: arch_aarch64_def Let_def)
qed

definition demo_chown :: sys where
  "demo_chown = demo_sys\<lparr>s_tr := (s_tr demo_sys)\<lparr>t_sysno := 92, chown_valid := True, chown_uid := 5, chown_gid := NOID, chown_cur_gid := 7\<rparr>,
     s_regs := (\<lambda>_. 0)(10 := word_of_int (- 1)), s_kregs := (\<lambda>_. 0)(10 := word_of_int (- 1))\<rparr>"

definition demo_stat :: "sys \<Rightarrow> sys" where
  "demo_stat s = demo_sys\<lparr>s_ctx := s_ctx s, s_tr := (s_tr demo_sys)\<lparr>t_sysno := 4, t_args := [8192, 16384, 0, 0, 0, 0]\<rparr>, s_regs := \<lambda>_. 0, s_mem := \<lambda>_. Some 0\<rparr>"

lemma zero_mem: "mread (\<lambda>_. Some 0) a n = replicate n 0"
  by (induction n arbitrary: a) simp_all

lemma le_word_zeros: "le_word (replicate n 0) = 0"
  by (induction n) simp_all

theorem chown_seen_by_stat_witness:
  "let C = demo_cfg\<lparr>c_nr := [''chown'' \<mapsto> 92, ''stat'' \<mapsto> 4]\<rparr>; s1 = emuroot_on_exit C demo_chown
   in s_kregs s1 10 = 0 \<and> owner_fields (emuroot_on_exit C (demo_stat s1)) 16384 (c_stat_layout C) = (Some 5, Some 7)"
proof -
  let ?C = "demo_cfg\<lparr>c_nr := [''chown'' \<mapsto> 92, ''stat'' \<mapsto> 4]\<rparr>"
  let ?s1 = "emuroot_on_exit ?C demo_chown"
  let ?l = "c_stat_layout ?C" and ?s2 = "demo_stat ?s1"
  have wf: "arch_wf (c_arch ?C)" by code_simp
  have l: "?l = \<lparr>l_uid = 28, l_gid = 32, l_dev = 0, l_ino = 8, l_statx = False\<rparr>" by (simp add: demo_cfg_def)
  have r: "r_ret (c_arch ?C) = 10" by code_simp
  have ow: "owners_wf (owners (s_ctx demo_chown))" "owners (s_ctx demo_chown) = None"
    by (simp_all add: demo_chown_def demo_sys_def zero_ctx_def Let_def owners_wf_def)
  have cs: "can_store (h_calloc (s_host demo_chown)) (owners (s_ctx demo_chown))"
    using ow by (intro can_store_small) (simp_all add: owners_count_def demo_chown_def demo_sys_def demo_host_def Let_def)
  have ids: "has_fake_ids (s_ctx demo_chown)" by (simp add: demo_chown_def demo_sys_def Let_def)
  have call: "emuroot_action_of (c_nr ?C) (c_lp64 ?C) (t_sysno (s_tr demo_chown)) = Some A_CHOWN"
      "t_created (s_tr demo_chown) = []" "chown_valid (s_tr demo_chown)" by code_simp+
  have ret: "sint (s_regs demo_chown (r_ret (c_arch ?C))) \<in> {0, - EPERM, - EINVAL}"
      "s_kregs demo_chown (r_ret (c_arch ?C)) = s_regs demo_chown (r_ret (c_arch ?C))"
    by (simp_all add: r demo_chown_def EPERM_def)
  have st: "emuroot_action_of (c_nr ?C) (c_lp64 ?C) (t_sysno (s_tr ?s2)) = Some A_STAT_2"
  proof -
    have "emuroot_action_of (c_nr ?C) (c_lp64 ?C) 4 = Some A_STAT_2" by code_simp
    then show ?thesis by (simp add: demo_stat_def)
  qed
  have tr: "t_created (s_tr ?s2) = []" "s_regs ?s2 (r_ret (c_arch ?C)) = 0" "16384 = t_args (s_tr ?s2) ! 1" "s_mem ?s2 = (\<lambda>_. Some 0)"
    by (simp_all add: demo_stat_def demo_sys_def zero_tracee_def Let_def)
  have w: "read_word ?s2 a n = Some 0" for a n by (simp add: read_word_def tr(4) zero_mem le_word_zeros)
  have ino: "read_word ?s2 (16384 + of_nat (l_ino ?l)) 8 = Some (chown_ino (s_tr demo_chown))"
      "stat_dev ?s2 16384 ?l = Some (chown_dev (s_tr demo_chown))"
  proof -
    have "chown_ino (s_tr demo_chown) = 0" "chown_dev (s_tr demo_chown) = 0" by code_simp+
    then show "read_word ?s2 (16384 + of_nat (l_ino ?l)) 8 = Some (chown_ino (s_tr demo_chown))"
        "stat_dev ?s2 16384 ?l = Some (chown_dev (s_tr demo_chown))"
      by (simp_all add: w l stat_dev_def tr(4) zero_mem le_word_zeros Let_def)
  qed
  have ap: "apart (16384 + of_nat (l_uid ?l)) 4 (16384 + of_nat (l_gid ?l)) 4" "apart (16384 + of_nat (l_gid ?l)) 4 (16384 + of_nat (l_uid ?l)) 4"
    using apart_below [of 16412 4 16416 4] by (simp_all add: l)
  have who: "chown_uid (s_tr demo_chown) = 5" "chown_gid (s_tr demo_chown) = NOID" "chown_cur_gid (s_tr demo_chown) = 7" "5 \<noteq> NOID"
    by (simp_all add: demo_chown_def NOID_def)
  have "s_ctx ?s2 = s_ctx ?s1" by (simp add: demo_stat_def)
  from chown_seen_by_stat [OF wf ids ow(1) cs call ret refl this st tr(1-3) _ refl ino _ _ ap] show ?thesis
    using r by (simp add: w Let_def who)
qed

end
