(* ===== verification/Entry.thy ===== *)
theory Entry
  imports Fake
begin

text \<open>
  \<^verbatim>\<open>emuroot_on_entry\<close> of \<^verbatim>\<open>rewrite.c\<close>: what happens when a traced process is about to make a system call.
  \<open>entry_reset\<close> starts the call's state afresh, \<open>entry_call\<close> is the dispatch on the syscall number.
\<close>

definition entry_reset :: "cfg \<Rightarrow> sys \<Rightarrow> sys" where
  "entry_reset C s =
     upd_tr (\<lambda>t. t\<lparr>t_sysno := sint (s_regs s (r_sysno (c_arch C))),
         scratch_top := align_down 4 (s_regs s (r_sp (c_arch C)) - SCRATCH_MARGIN),
         proc_link := False, proc_link_exe := False, pending_exe := [], chown_valid := False,
         t_created := [], pending_root := [], mount_handled := False,
         t_args := map (get_arg C s) [1, 2, 3, 4, 5, 6]\<rparr>) s"

text \<open>The calls whose paths the table describes.\<close>

definition entry_paths :: "cfg \<Rightarrow> int \<Rightarrow> path_syscall_t \<Rightarrow> sys \<Rightarrow> sys" where
  "entry_paths C sysno d s =
     (let s = emuroot_note_creation C sysno d s;
          s = rewrite_path_arg C sysno (ps_slot1 d) (emuroot_follow_last C s d) 0 s
      in rewrite_path_arg C sysno (ps_slot2 d) False 1 s)"

definition entry_call :: "cfg \<Rightarrow> int \<Rightarrow> sys \<Rightarrow> sys" where
  "entry_call C sysno s =
     (case (if is_sys C ''execve'' sysno then emuroot_rewrite_exec C 1 2 s else (0, s)) of
        (r, s) \<Rightarrow>
          if r \<noteq> 0 then s
          else if is_sys C ''bind'' sysno \<or> is_sys C ''connect'' sysno then rewrite_sockaddr C 2 3 s
          else if is_sys C ''sendto'' sysno then rewrite_sockaddr C 5 6 s
          else (case emuroot_find_path_syscall (c_nr C) sysno of
                  Some d \<Rightarrow> entry_paths C sysno d s
                | None \<Rightarrow>
                    let s = (if is_sys C ''execve'' sysno then rewrite_path_arg C sysno 1 True 0 s else s)
                    in if is_sys C ''execveat'' sysno then rewrite_path_arg C sysno 2 True 0 s else s))"

definition emuroot_on_entry :: "cfg \<Rightarrow> sys \<Rightarrow> sys" where
  "emuroot_on_entry C s =
     (let sysno = sint (s_regs s (r_sysno (c_arch C)));
          s = entry_reset C s
      in if has_fake_ids (s_ctx s) then
           let action = emuroot_action_of (c_nr C) (c_lp64 C) sysno;
               s = emuroot_identity_entry C sysno action s
           in (case emuroot_emulate_mounts C sysno action s of
                 (handled, s) \<Rightarrow> if handled then s else entry_call C sysno s)
         else entry_call C sysno s)"

text \<open>Only the scratch memory between the new and the old top may change, and one buffer of a path moves the
  top by at most \<open>SLACK\<close> bytes. \<open>away\<close>: a string buffer that is not within reach of the next buffers.\<close>

definition SLACK :: nat where "SLACK = PATH_LEN + 16"

definition away :: "sys \<Rightarrow> nat \<Rightarrow> u64 \<Rightarrow> bool" where
  "away s W p \<longleftrightarrow> unat p + PATH_LEN + W \<le> unat (scratch_top (s_tr s)) \<or>
     scratch_top (s_tr s) \<le> p \<and> unat p + PATH_LEN \<le> 2 ^ 64"

definition only_scratch :: "sys \<Rightarrow> sys \<Rightarrow> bool" where
  "only_scratch s s' \<longleftrightarrow> scratch_top (s_tr s') \<le> scratch_top (s_tr s) \<and>
     unat (scratch_top (s_tr s)) \<le> unat (scratch_top (s_tr s')) + SLACK \<and>
     (\<forall>x. x < scratch_top (s_tr s') \<or> scratch_top (s_tr s) \<le> x \<longrightarrow> s_mem s' x = s_mem s x)"

lemma only_scratch_refl [simp]: "scratch_top (s_tr s') = scratch_top (s_tr s) \<Longrightarrow> s_mem s' = s_mem s \<Longrightarrow> only_scratch s s'"
  by (simp add: only_scratch_def SLACK_def)

lemma scratch_step:
  assumes "emuroot_scratch t len = (a, t')" and "a \<noteq> 0" and "unat len < 2 ^ 63"
  shows "unat (scratch_top t) \<le> unat a + unat len + 15"
proof -
  have a: "a = align_down 4 (scratch_top t - len)"
    using assms(1,2) by (auto simp: emuroot_scratch_def Let_def split: if_splits)
  have "len \<le> scratch_top t"
    using scratch_bounds(1) [OF assms] by (simp add: word_le_nat_alt)
  then have "unat (scratch_top t - len) = unat (scratch_top t) - unat len" by (rule unat_sub)
  moreover have "unat a = unat (scratch_top t - len) - unat (scratch_top t - len) mod 16"
    using a by (simp add: unat_align_down)
  moreover have "unat (scratch_top t - len) mod 16 \<le> 15" by simp
  ultimately show ?thesis by linarith
qed

lemma align_down_zero:
  fixes t :: u64
  assumes "align_down 4 (t - of_nat n) = 0" and "n < 2 ^ 63" shows "unat t \<le> n + 15"
proof -
  have "unat (t - of_nat n) - unat (t - of_nat n) mod 16 = 0"
    using unat_align_down [of 4 "t - of_nat n"] assms(1) by simp
  moreover have "unat (t - of_nat n) mod 16 \<le> 15" by simp
  ultimately have "unat (t - of_nat n) \<le> 15" by linarith
  moreover have "unat t = unat ((t - of_nat n) + of_nat n)" by simp
  then have "unat t \<le> unat (t - of_nat n) + unat (of_nat n :: u64)"
    by (simp only: unat_word_ariths mod_less_eq_dividend)
  moreover have "unat (of_nat n :: u64) = n" using assms(2) by (simp add: unsigned_of_nat take_bit_nat_eq_self)
  ultimately show ?thesis by linarith
qed

lemma write_scratch_only:
  assumes sc: "scratch (length bs) s = (a, s1)" and a: "a \<noteq> 0" and w: "write_at a bs s1 = (ok, s2)" and "length bs \<le> PATH_LEN"
  shows "only_scratch s s2" "scratch_top (s_tr s2) = a" "unat a + length bs \<le> unat (scratch_top (s_tr s))"
    "s_tr s2 = (s_tr s)\<lparr>scratch_top := a\<rparr>" "s_regs s2 = s_regs s" "s_kregs s2 = s_kregs s" "s_ctx s2 = s_ctx s" "s_host s2 = s_host s"
proof -
  obtain t where t: "emuroot_scratch (s_tr s) (of_nat (length bs)) = (a, t)" "s1 = s\<lparr>s_tr := t\<rparr>"
    using sc by (auto simp: scratch_def split: prod.splits)
  have len: "length bs < 2 ^ 63" using assms(4) by (simp add: PATH_LEN_def)
  then have u: "unat (of_nat (length bs) :: u64) = length bs"
    by (simp add: unsigned_of_nat take_bit_nat_eq_self)
  note b = scratch_bounds [OF t(1) a, unfolded u, OF len]
  have step: "unat (scratch_top (s_tr s)) \<le> unat a + SLACK"
    using scratch_step [OF t(1) a, unfolded u, OF len] assms(4) by (simp add: SLACK_def)
  obtain c m where m: "mwrite (s_mem s1) a bs = (c, m)" "s2 = s1\<lparr>s_mem := m\<rparr>"
    using w by (auto simp: write_at_def gwrite_def split: prod.splits)
  show frame: "s_tr s2 = (s_tr s)\<lparr>scratch_top := a\<rparr>" "s_regs s2 = s_regs s" "s_kregs s2 = s_kregs s" "s_ctx s2 = s_ctx s" "s_host s2 = s_host s"
    using b(4) m(2) t(2) by simp_all
  show bound: "unat a + length bs \<le> unat (scratch_top (s_tr s))" by (rule b(1))
  show top: "scratch_top (s_tr s2) = a" by (simp add: frame)
  have "m x = s_mem s x" if "x < a \<or> scratch_top (s_tr s) \<le> x" for x
  proof -
    have "x \<noteq> a + of_nat i" if "i < length bs" for i
    proof -
      have "unat (a + of_nat i) = unat a + i"
        using bound that unsigned_less [of "scratch_top (s_tr s)", where 'a = nat]
        by (simp add: unat_word_ariths unsigned_of_nat take_bit_nat_eq_self)
      then show ?thesis using \<open>x < a \<or> scratch_top (s_tr s) \<le> x\<close> bound that
        by (auto simp: word_less_nat_alt word_le_nat_alt)
    qed
    then show ?thesis using mwrite_frame [OF m(1)] t(2) by simp
  qed
  moreover have "a \<le> scratch_top (s_tr s)" using bound by (simp add: word_le_nat_alt)
  ultimately show "only_scratch s s2" using m(2) top step by (simp add: only_scratch_def)
qed

text \<open>After \<open>point_at_copy\<close>: other arguments are as before, the kernel's registers are the handler's, and
  the slot is NULL or points to the copy at the new scratch top.\<close>

lemma point_at_copy_effect:
  fixes C :: cfg and s :: sys
  assumes wf: "arch_wf (c_arch C)" and slot: "slot \<in> {1..6}" and host: "clean host" "length host < PATH_LEN"
  defines "s' \<equiv> point_at_copy C slot host s"
  shows "only_scratch s s'" "s_ctx s' = s_ctx s" "s_host s' = s_host s"
    "t_root (s_tr s') = t_root (s_tr s)" "t_pid (s_tr s') = t_pid (s_tr s)"
    "\<forall>j \<in> {1..6}. j \<noteq> slot \<longrightarrow> get_arg C s' j = get_arg C s j" "\<forall>j \<in> {1..6}. s_kregs s' (reg_arg (c_arch C) j) = get_arg C s' j"
    "get_arg C s' slot = 0 \<or> mread (s_mem s') (get_arg C s' slot) (length host + 1) = str_bytes host @ [0] \<and>
       get_arg C s' slot = scratch_top (s_tr s') \<and> unat (get_arg C s' slot) + length host + 1 \<le> unat (scratch_top (s_tr s))"
proof -
  obtain a s1 where sc: "scratch (length (str_bytes host @ [0])) s = (a, s1)" by fastforce
  obtain ok s2 where w: "write_at a (str_bytes host @ [0]) s1 = (ok, s2)" by fastforce
  have len: "length (str_bytes host @ [0]) \<le> PATH_LEN" using host(2) by simp
  have c: "s' = (if a = 0 then fail_closed C slot s1 else if ok then put_regs C (set_arg C slot a s2) else fail_closed C slot s2)"
    using sc w by (simp add: s'_def point_at_copy_def)
  have low: "unat (scratch_top (s_tr s)) \<le> length (str_bytes host @ [0]) + 15"
    if "align_down 4 (scratch_top (s_tr s) - of_nat (length (str_bytes host @ [0]))) = 0"
    by (rule align_down_zero [OF that]) (use len in \<open>simp add: PATH_LEN_def\<close>)
  have s1: "only_scratch s s1" "s_ctx s1 = s_ctx s" "s_host s1 = s_host s" "t_root (s_tr s1) = t_root (s_tr s)"
    "t_pid (s_tr s1) = t_pid (s_tr s)" "s_regs s1 = s_regs s"
    if "a = 0"
    using sc that low len by (auto simp: scratch_def emuroot_scratch_def only_scratch_def SLACK_def Let_def split: if_splits)
  note s2 = write_scratch_only [OF sc _ w len]
  define t where "t = (if a = 0 then s1 else s2)"
  define v where "v = (if a \<noteq> 0 \<and> ok then a else 0)"
  have s': "s' = put_regs C (set_arg C slot v t)"
    using c by (auto simp: v_def t_def fail_closed_def)
  have t: "only_scratch s t" "s_ctx t = s_ctx s" "s_host t = s_host s" "t_root (s_tr t) = t_root (s_tr s)"
    "t_pid (s_tr t) = t_pid (s_tr s)" "s_regs t = s_regs s"
    using s1 s2 by (auto simp: t_def)
  have args: "get_arg C t j = get_arg C s j" for j by (simp add: get_arg_def t(6))
  show "only_scratch s s'" using t(1) by (simp add: s' only_scratch_def)
  show "s_ctx s' = s_ctx s" "s_host s' = s_host s" "t_root (s_tr s') = t_root (s_tr s)" "t_pid (s_tr s') = t_pid (s_tr s)" using t by (simp_all add: s')
  show "\<forall>j \<in> {1..6}. j \<noteq> slot \<longrightarrow> get_arg C s' j = get_arg C s j"
    using wf slot args by (simp add: s')
  show "\<forall>j \<in> {1..6}. s_kregs s' (reg_arg (c_arch C) j) = get_arg C s' j"
    using wf by (simp add: s' kregs_put_arg)
  have v: "get_arg C s' slot = v" using wf slot by (simp add: s')
  show "get_arg C s' slot = 0 \<or> mread (s_mem s') (get_arg C s' slot) (length host + 1) = str_bytes host @ [0] \<and>
       get_arg C s' slot = scratch_top (s_tr s') \<and> unat (get_arg C s' slot) + length host + 1 \<le> unat (scratch_top (s_tr s))"
  proof (cases "a \<noteq> 0 \<and> ok")
    case True
    obtain m where m: "gwrite (s_mem s1) a (str_bytes host @ [0]) = (True, m)" "s_mem s2 = m"
      using w True by (auto simp: write_at_def split: prod.splits)
    have "mread m a (length host + 1) = str_bytes host @ [0]"
      using mwrite_reads_back [OF gwrite_fail_or_full [OF m(1)]] len by (simp add: PATH_LEN_def)
    then show ?thesis using True s2 m(2) unfolding v by (simp add: v_def s' t_def)
  qed (auto simp: v v_def)
qed

lemma away_other:
  assumes o: "only_scratch s s'" and a: "away s (SLACK + W) p"
  shows "away s' W p" "read_str_at s' p PATH_LEN = read_str_at s p PATH_LEN"
proof -
  note o' = o [unfolded only_scratch_def word_le_nat_alt word_less_nat_alt]
  show "away s' W p" using o' a by (auto simp: away_def word_le_nat_alt)
  have "\<forall>i < PATH_LEN - 1. s_mem s' (p + of_nat i) = s_mem s (p + of_nat i)"
  proof (intro allI impI)
    fix i
    assume i: "i < PATH_LEN - 1"
    have "unat p + PATH_LEN \<le> 2 ^ 64"
      using a unsigned_less [of "scratch_top (s_tr s)", where 'a = nat] by (auto simp: away_def)
    then have u: "unat (p + of_nat i) = unat p + i"
      using i by (simp add: unat_word_ariths unsigned_of_nat take_bit_nat_eq_self)
    have "unat (p + of_nat i) < unat (scratch_top (s_tr s')) \<or> unat (scratch_top (s_tr s)) \<le> unat (p + of_nat i)"
      using a o' i unfolding u by (auto simp: away_def word_le_nat_alt)
    then show "s_mem s' (p + of_nat i) = s_mem s (p + of_nat i)" using o' by blast
  qed
  then have "mread (s_mem s') p (PATH_LEN - 1) = mread (s_mem s) p (PATH_LEN - 1)" by (rule mread_cong)
  then show "read_str_at s' p PATH_LEN = read_str_at s p PATH_LEN"
    by (simp add: read_str_at_eq PATH_LEN_def str_at_def)
qed

text \<open>The effect of one path argument, from which the two of a call compose. \<open>shows_path\<close>: the handler's
  register for the slot is NULL or points to the host path, in memory no later buffer can touch.\<close>

definition shows_path :: "cfg \<Rightarrow> sys \<Rightarrow> nat \<Rightarrow> string \<Rightarrow> nat \<Rightarrow> bool" where
  "shows_path C s slot host W \<longleftrightarrow>
     (let p = get_arg C s slot
      in p = 0 \<or> away s W p \<and> read_str_at s p PATH_LEN = Some host \<or>
         scratch_top (s_tr s) \<le> p \<and> unat p + length host + 1 \<le> 2 ^ 64 \<and>
           mread (s_mem s) p (length host + 1) = str_bytes host @ [0] \<and> clean host \<and> length host < PATH_LEN)"

definition same_space :: "sys \<Rightarrow> sys \<Rightarrow> bool" where
  "same_space s s' \<longleftrightarrow> s_ctx s' = s_ctx s \<and> t_root (s_tr s') = t_root (s_tr s) \<and> t_pid (s_tr s') = t_pid (s_tr s) \<and>
     h_readlink (s_host s') = h_readlink (s_host s)"

definition kregs_synced :: "cfg \<Rightarrow> sys \<Rightarrow> bool" where
  "kregs_synced C s \<longleftrightarrow> (\<forall>j \<in> {1..6}. s_kregs s (reg_arg (c_arch C) j) = get_arg C s j)"

lemma translate_same_space: "same_space s s' \<Longrightarrow> translate s' g f n = translate s g f n"
  by (simp add: same_space_def translate_def)

lemma shown_same_space: "same_space s s' \<Longrightarrow> shown s' given guest f = shown s given guest f"
  by (simp add: shown_def translate_same_space)

lemma absolute_same_space:
  assumes "same_space s s'" and "c_at path 0 = SLASH \<or> fs = 0 \<or> get_arg C s' fs = get_arg C s fs"
  shows "absolute_guest_path C s' fs path sz = absolute_guest_path C s fs path sz"
proof -
  note e = assms(1) [unfolded same_space_def]
  have "readlink_buf s' l = readlink_buf s l" for l using e by (simp add: readlink_buf_def)
  moreover have "emuroot_host_to_guest (s_ctx s') (t_root (s_tr s')) = emuroot_host_to_guest (s_ctx s) (t_root (s_tr s))"
    "t_pid (s_tr s') = t_pid (s_tr s)" using e by simp_all
  ultimately show ?thesis using assms(2) unfolding absolute_guest_path_def by (elim disjE) (simp_all only: refl if_True if_False simp_thms)
qed

lemma str_at_copy:
  assumes "mread (s_mem s) p (length host + 1) = str_bytes host @ [0]" and "clean host" and "length host < PATH_LEN"
  shows "read_str_at s p PATH_LEN = Some host"
  using str_at_written [OF assms(1) _ assms(3)] assms(2) by (simp add: read_str_at_eq PATH_LEN_def clean_def)

lemma shows_path_read:
  "shows_path C s slot host W \<Longrightarrow> get_arg C s slot = 0 \<or> read_str_at s (get_arg C s slot) PATH_LEN = Some host"
  using str_at_copy by (auto simp: shows_path_def Let_def)

text \<open>Writing a later buffer leaves it so.\<close>

lemma shows_path_later:
  assumes o: "only_scratch s s'" and p: "get_arg C s' slot = get_arg C s slot" and s: "shows_path C s slot host (SLACK + W)"
  shows "shows_path C s' slot host W"
proof -
  let ?p = "get_arg C s slot"
  have keep: "mread (s_mem s') ?p n = mread (s_mem s) ?p n"
    if t: "scratch_top (s_tr s) \<le> ?p" and n: "unat ?p + n \<le> 2 ^ 64" for n
  proof (rule mread_cong, intro allI impI)
    fix i
    assume "i < n"
    then have "unat (?p + of_nat i) = unat ?p + i"
      using n by (simp add: unat_word_ariths unsigned_of_nat take_bit_nat_eq_self)
    then have "scratch_top (s_tr s) \<le> ?p + of_nat i" using t by (simp add: word_le_nat_alt)
    then show "s_mem s' (?p + of_nat i) = s_mem s (?p + of_nat i)" using o by (simp add: only_scratch_def)
  qed
  have top: "scratch_top (s_tr s') \<le> ?p" if "scratch_top (s_tr s) \<le> ?p"
    using o that order.trans by (auto simp: only_scratch_def)
  from s consider "?p = 0" | "away s (SLACK + W) ?p" "read_str_at s ?p PATH_LEN = Some host"
    | "scratch_top (s_tr s) \<le> ?p" "unat ?p + length host + 1 \<le> 2 ^ 64"
      "mread (s_mem s) ?p (length host + 1) = str_bytes host @ [0]" "clean host" "length host < PATH_LEN"
    by (auto simp: shows_path_def Let_def)
  then show ?thesis
  proof cases
    case 1
    then show ?thesis by (simp add: shows_path_def p)
  next
    case 2
    then show ?thesis using away_other [OF o, of W ?p] by (simp add: shows_path_def p)
  next
    case 3
    then show ?thesis using keep [OF 3(1), of "length host + 1"] top by (simp add: shows_path_def p del: mread.simps)
  qed
qed

text \<open>A path in a buffer that the next buffers cannot reach.\<close>

definition path_given :: "cfg \<Rightarrow> sys \<Rightarrow> int \<Rightarrow> nat \<Rightarrow> string \<Rightarrow> string \<Rightarrow> nat \<Rightarrow> bool" where
  "path_given C s sysno slot given guest W \<longleftrightarrow>
     names C s sysno slot given guest \<and> get_arg C s slot \<noteq> 0 \<and> away s W (get_arg C s slot)"

lemma rewrite_path_arg_effect:
  fixes C :: cfg and s :: sys and sysno :: int and follow :: bool and which :: nat
  assumes wf: "arch_wf (c_arch C)" and slot: "slot \<in> {1..6}"
    and cs: "c_strings (s_ctx s) (t_root (s_tr s)) (h_readlink (s_host s))"
    and active: "t_root (s_tr s) \<noteq> [] \<or> bindings (s_ctx s) \<noteq> []" and sync: "kregs_synced C s"
    and given: "path_given C s sysno slot given guest (SLACK + W)"
  defines "s' \<equiv> rewrite_path_arg C sysno slot follow which s"
  shows "only_scratch s s'" "same_space s s'" "kregs_synced C s'"
    "\<forall>j \<in> {1..6}. j \<noteq> slot \<longrightarrow> get_arg C s' j = get_arg C s j"
    "shows_path C s' slot (shown s given guest follow) W"
proof -
  obtain rw host where t: "translate s guest follow PATH_LEN = (rw, host)" by fastforce
  note gv = given [unfolded path_given_def]
  note tf = translate_facts [OF cs names_clean(3) [OF _ cs] t, OF conjunct1 [OF gv]]
  obtain s3 where b: "s' = (if rw then point_at_copy C slot host s3 else s3)"
    and s3: "s_mem s3 = s_mem s" "s_kregs s3 = s_kregs s" "s_regs s3 = s_regs s" "s_ctx s3 = s_ctx s"
    "h_readlink (s_host s3) = h_readlink (s_host s)" "t_root (s_tr s3) = t_root (s_tr s)"
    "scratch_top (s_tr s3) = scratch_top (s_tr s)" "t_pid (s_tr s3) = t_pid (s_tr s)"
    using rewrite_path_arg_body [OF slot active _ _ t, of C sysno given which] gv unfolding s'_def by auto
  have args: "get_arg C s3 j = get_arg C s j" for j by (simp add: get_arg_def s3)
  have sh: "shown s given guest follow = (if rw then host else given)" by (simp add: shown_def t)
  have "only_scratch s s' \<and> same_space s s' \<and> kregs_synced C s' \<and>
    (\<forall>j \<in> {1..6}. j \<noteq> slot \<longrightarrow> get_arg C s' j = get_arg C s j) \<and> shows_path C s' slot (shown s given guest follow) W"
  proof (cases rw)
    case False
    then have s': "s' = s3" using b by simp
    then have o: "only_scratch s s'" using s3 by simp
    have "away s' W (get_arg C s slot)" "read_str_at s' (get_arg C s slot) PATH_LEN = Some given"
      using away_other [OF o] gv by (auto simp: names_def)
    then show ?thesis using o s3 args sync s' False by (simp add: same_space_def kregs_synced_def shows_path_def sh)
  next
    case True
    note e = point_at_copy_effect [OF wf slot tf(1,2), of s3]
    have s': "s' = point_at_copy C slot host s3" using True b by simp
    have "unat (scratch_top (s_tr s3)) < 2 ^ 64" using unsigned_less [of "scratch_top (s_tr s3)", where 'a = nat] by simp
    then have "shows_path C s' slot host W" using e(8) tf(1,2) unfolding s' shows_path_def Let_def by fastforce
    moreover have "only_scratch s s'" using e(1) s3 by (simp add: s' only_scratch_def)
    ultimately show ?thesis using e(2-7) s3 args True by (simp add: s' same_space_def kregs_synced_def sh)
  qed
  then show "only_scratch s s'" "same_space s s'" "kregs_synced C s'"
    "\<forall>j \<in> {1..6}. j \<noteq> slot \<longrightarrow> get_arg C s' j = get_arg C s j"
    "shows_path C s' slot (shown s given guest follow) W" by simp_all
qed

lemma note_creation_frame [simp]:
  "s_ctx (emuroot_note_creation C n d s) = s_ctx s" "s_mem (emuroot_note_creation C n d s) = s_mem s"
  "s_regs (emuroot_note_creation C n d s) = s_regs s" "s_kregs (emuroot_note_creation C n d s) = s_kregs s"
  "s_host (emuroot_note_creation C n d s) = s_host s" "t_root (s_tr (emuroot_note_creation C n d s)) = t_root (s_tr s)"
  "t_pid (s_tr (emuroot_note_creation C n d s)) = t_pid (s_tr s)"
  "scratch_top (s_tr (emuroot_note_creation C n d s)) = scratch_top (s_tr s)"
  by (simp_all add: emuroot_note_creation_def Let_def)

lemma same_space_trans: "same_space s s' \<Longrightarrow> same_space s' s'' \<Longrightarrow> same_space s s''"
  by (simp add: same_space_def)

lemma follow_last_cong:
  "s_regs s' = s_regs s \<Longrightarrow> s_mem s' = s_mem s \<Longrightarrow> emuroot_follow_last C s' d = emuroot_follow_last C s d"
  unfolding emuroot_follow_last_def get_arg_def by (simp only:)

text \<open>Both paths of a call: the second buffer does not disturb the first. A relative second path of \<^verbatim>\<open>rename\<close> or
  \<^verbatim>\<open>link\<close> (slots 1 and 2) is not covered: the slot before it holds the other path, not a descriptor.\<close>

lemma two_path_rows: "list_all (\<lambda>(n, s1, s2, md, fl). s2 = 0 \<or> s1 = 1 \<and> s2 = 2 \<or> s1 = 2 \<and> s2 = 4) path_table"
  by code_simp

lemma find_two_paths:
  assumes "emuroot_find_path_syscall nr sysno = Some d" and "ps_slot2 d \<noteq> 0"
  shows "ps_slot1 d = 1 \<and> ps_slot2 d = 2 \<or> ps_slot1 d = 2 \<and> ps_slot2 d = 4"
proof -
  have "d \<in> set (path_syscalls nr)" using assms(1) by (auto simp: emuroot_find_path_syscall_def find_Some_iff)
  then obtain n s1 s2 md fl where "(n, s1, s2, md, fl) \<in> set path_table" "ps_slot1 d = s1" "ps_slot2 d = s2"
    by (auto simp: path_syscalls_def set_map_filter path_entry_def)
  then show ?thesis using assms(2) two_path_rows by (auto simp: list_all_iff)
qed

definition second_given :: "cfg \<Rightarrow> sys \<Rightarrow> int \<Rightarrow> path_syscall_t \<Rightarrow> string \<Rightarrow> string \<Rightarrow> bool" where
  "second_given C s sysno d given guest \<longleftrightarrow>
     ps_slot2 d \<noteq> 0 \<longrightarrow> path_given C s sysno (ps_slot2 d) given guest (2 * SLACK) \<and>
       (c_at given 0 = SLASH \<or> ps_slot2 d \<noteq> 2)"

lemma entry_paths_effect:
  fixes C :: cfg and s :: sys and d :: path_syscall_t and sysno :: int
  assumes wf: "arch_wf (c_arch C)" and d: "emuroot_find_path_syscall (c_nr C) n = Some d"
    and cs: "c_strings (s_ctx s) (t_root (s_tr s)) (h_readlink (s_host s))"
    and active: "t_root (s_tr s) \<noteq> [] \<or> bindings (s_ctx s) \<noteq> []" and sync: "kregs_synced C s"
    and g1: "path_given C s sysno (ps_slot1 d) given1 guest1 (2 * SLACK)"
    and g2: "second_given C s sysno d given2 guest2"
  defines "s' \<equiv> entry_paths C sysno d s"
  shows "kregs_synced C s'"
    "shows_path C s' (ps_slot1 d) (shown s given1 guest1 (emuroot_follow_last C s d)) 0"
    "ps_slot2 d \<noteq> 0 \<Longrightarrow> shows_path C s' (ps_slot2 d) (shown s given2 guest2 False) 0"
proof -
  define s1 where "s1 = emuroot_note_creation C sysno d s"
  define s2 where "s2 = rewrite_path_arg C sysno (ps_slot1 d) (emuroot_follow_last C s d) 0 s1"
  have fl: "emuroot_follow_last C s1 d = emuroot_follow_last C s d"
    by (rule follow_last_cong) (simp_all add: s1_def)
  have s': "s' = rewrite_path_arg C sysno (ps_slot2 d) False 1 s2"
    unfolding s'_def entry_paths_def Let_def s1_def [symmetric] fl s2_def ..
  have s1: "same_space s s1" by (simp add: same_space_def s1_def)
  have a1: "get_arg C s1 j = get_arg C s j" for j by (simp add: get_arg_def s1_def)
  have k1: "kregs_synced C s1" using sync by (simp add: kregs_synced_def a1) (simp add: s1_def)
  have m1: "s_mem s1 = s_mem s" by (simp add: s1_def)
  have pg: "path_given C s1 sysno k g g' W = path_given C s sysno k g g' W" for k g g' W
    unfolding path_given_def names_def a1 away_def read_str_at_def m1 strict_openat2_def absolute_same_space [OF s1 disjI2 [OF disjI2 [OF a1]]]
    by (simp add: s1_def)
  have slot1: "ps_slot1 d \<in> {1..6}" and slot2: "ps_slot2 d \<noteq> 0 \<Longrightarrow> ps_slot2 d \<in> {1..6} \<and> ps_slot2 d \<noteq> ps_slot1 d"
    using find_path_entry_ok [OF d] by (auto simp: entry_ok_def row_ok_def)
  have cs1: "c_strings (s_ctx s1) (t_root (s_tr s1)) (h_readlink (s_host s1))"
    and ac1: "t_root (s_tr s1) \<noteq> [] \<or> bindings (s_ctx s1) \<noteq> []"
    using cs active by (simp_all add: s1_def)
  have "path_given C s1 sysno (ps_slot1 d) given1 guest1 (SLACK + SLACK)" using g1 by (simp add: pg mult_2)
  note e = rewrite_path_arg_effect [OF wf slot1 cs1 ac1 k1 this, of "emuroot_follow_last C s d" 0,
      folded s2_def, unfolded shown_same_space [OF s1]]
  have sp0: "shows_path C t k h 0" if "shows_path C t k h SLACK" for t k h
    using that by (auto simp: shows_path_def away_def Let_def)
  have "kregs_synced C s' \<and> shows_path C s' (ps_slot1 d) (shown s given1 guest1 (emuroot_follow_last C s d)) 0 \<and>
    (ps_slot2 d \<noteq> 0 \<longrightarrow> shows_path C s' (ps_slot2 d) (shown s given2 guest2 False) 0)"
  proof (cases "ps_slot2 d = 0")
    case True
    then have "s' = s2" by (simp add: s' rewrite_path_arg_def)
    then show ?thesis using e(3,5) sp0 True by simp
  next
    case False
    note sl = slot2 [OF False]
    have s2: "same_space s s2" using same_space_trans [OF s1 e(2)] .
    have cs2: "c_strings (s_ctx s2) (t_root (s_tr s2)) (h_readlink (s_host s2))"
      and ac2: "t_root (s_tr s2) \<noteq> [] \<or> bindings (s_ctx s2) \<noteq> []"
      using cs active s2 by (simp_all add: same_space_def)
    have a2: "get_arg C s2 j = get_arg C s j" if "j \<in> {1..6}" "j \<noteq> ps_slot1 d" for j using e(4) that a1 by simp
    have p1: "path_given C s sysno (ps_slot2 d) given2 guest2 (SLACK + SLACK)" "c_at given2 0 = SLASH \<or> ps_slot2 d \<noteq> 2"
      using g2 False by (simp_all add: second_given_def mult_2)
    have fd: "c_at given2 0 = SLASH \<or> dirfd_slot C sysno (ps_slot2 d) = 0 \<or>
        get_arg C s2 (dirfd_slot C sysno (ps_slot2 d)) = get_arg C s (dirfd_slot C sysno (ps_slot2 d))"
      using find_two_paths [OF d False] p1(2) a2 [of 3] by (auto simp: dirfd_slot_def)
    have ab: "absolute_guest_path C s2 (dirfd_slot C sysno (ps_slot2 d)) given2 sz = absolute_guest_path C s (dirfd_slot C sysno (ps_slot2 d)) given2 sz" for sz
      by (rule absolute_same_space [OF s2 fd])
    have st: "c_at given2 0 = SLASH \<or> \<not> strict_openat2 C s2 sysno (ps_slot2 d)"
      using p1(2) by (auto simp: strict_openat2_def)
    have "path_given C s1 sysno (ps_slot2 d) given2 guest2 (SLACK + SLACK)" using p1(1) by (simp add: pg)
    then have "path_given C s2 sysno (ps_slot2 d) given2 guest2 (SLACK + 0)"
      using away_other [OF e(1), of SLACK "get_arg C s1 (ps_slot2 d)"] p1(1) st
      unfolding path_given_def names_def a1 a2 [OF conjunct1 [OF sl] conjunct2 [OF sl]] ab by simp
    note f = rewrite_path_arg_effect [OF wf conjunct1 [OF sl] cs2 ac2 e(3) this, of False 1,
        folded s', unfolded shown_same_space [OF s2]]
    have "get_arg C s' (ps_slot1 d) = get_arg C s2 (ps_slot1 d)" using f(4) sl slot1 by metis
    then have "shows_path C s' (ps_slot1 d) (shown s given1 guest1 (emuroot_follow_last C s d)) 0"
      using shows_path_later [OF f(1), of C "ps_slot1 d" _ 0] e(5) by simp
    then show ?thesis using f(3,5) by blast
  qed
  then show "kregs_synced C s'" "shows_path C s' (ps_slot1 d) (shown s given1 guest1 (emuroot_follow_last C s d)) 0"
    "ps_slot2 d \<noteq> 0 \<Longrightarrow> shows_path C s' (ps_slot2 d) (shown s given2 guest2 False) 0" by blast+
qed

text \<open>The calls that only pass paths: no credential change, no mount, no other rewriting.\<close>

definition plain_path_call :: "cfg \<Rightarrow> int \<Rightarrow> bool" where
  "plain_path_call C sysno \<longleftrightarrow>
     emuroot_action_of (c_nr C) (c_lp64 C) sysno \<in> {None, Some A_CHOWN, Some A_STAT_2, Some A_STAT_3, Some A_STATX, Some A_READLINK} \<and>
     \<not> is_sys C ''execve'' sysno \<and> \<not> is_sys C ''bind'' sysno \<and> \<not> is_sys C ''connect'' sysno \<and> \<not> is_sys C ''sendto'' sysno"

definition path_sysno :: "cfg \<Rightarrow> sys \<Rightarrow> int" where
  "path_sysno C s = sint (s_regs s (r_sysno (c_arch C)))"

lemma note_chown_frame:
  "note_chown C n d s = s\<lparr>s_tr := s_tr (note_chown C n d s)\<rparr>"
  "t_root (s_tr (note_chown C n d s)) = t_root (s_tr s)" "t_pid (s_tr (note_chown C n d s)) = t_pid (s_tr s)" "scratch_top (s_tr (note_chown C n d s)) = scratch_top (s_tr s)"
  by (simp_all add: note_chown_def upd_tr_def Let_def split: option.split)

lemma entry_plain:
  assumes find: "emuroot_find_path_syscall (c_nr C) (path_sysno C s) = Some d" and plain: "plain_path_call C (path_sysno C s)"
  obtains t where "emuroot_on_entry C s = entry_paths C (path_sysno C s) d (s\<lparr>s_tr := t\<rparr>)"
    "t_root t = t_root (s_tr s)" "t_pid t = t_pid (s_tr s)" "scratch_top t = scratch_top (s_tr (entry_reset C s))"
proof -
  let ?n = "path_sysno C s"
  have call: "entry_call C ?n u = entry_paths C ?n d u" for u
    using plain find by (simp add: entry_call_def plain_path_call_def)
  have reset: "entry_reset C s = s\<lparr>s_tr := s_tr (entry_reset C s)\<rparr>" "t_root (s_tr (entry_reset C s)) = t_root (s_tr s)"
    "t_pid (s_tr (entry_reset C s)) = t_pid (s_tr s)"
    by (simp_all add: entry_reset_def upd_tr_def)
  show ?thesis
  proof (cases "has_fake_ids (s_ctx (entry_reset C s))")
    case False
    then have "emuroot_on_entry C s = entry_paths C ?n d (entry_reset C s)"
      by (simp add: emuroot_on_entry_def path_sysno_def [symmetric] call Let_def)
    then show ?thesis using that [of "s_tr (entry_reset C s)"] reset by simp
  next
    case True
    let ?a = "emuroot_action_of (c_nr C) (c_lp64 C) ?n"
    let ?s1 = "emuroot_identity_entry C ?n ?a (entry_reset C s)"
    have a: "?a \<in> {None, Some A_CHOWN, Some A_STAT_2, Some A_STAT_3, Some A_STATX, Some A_READLINK}"
      using plain by (simp add: plain_path_call_def)
    then have m: "emuroot_emulate_mounts C ?n ?a u = (False, u)" for u by (auto simp: emuroot_emulate_mounts_def)
    have "neutralize_id_change C ?a (entry_reset C s) = entry_reset C s" using a by (auto simp: neutralize_id_change_def)
    then have "?s1 = (if ?a = Some A_CHOWN then note_chown C ?n (emuroot_find_path_syscall (c_nr C) ?n) (entry_reset C s)
        else entry_reset C s)"
      by (simp add: emuroot_identity_entry_def)
    moreover have "note_chown C ?n e (entry_reset C s) = s\<lparr>s_tr := s_tr (note_chown C ?n e (entry_reset C s))\<rparr>" for e
      by (subst note_chown_frame(1), subst reset(1)) simp
    ultimately have t: "?s1 = s\<lparr>s_tr := s_tr ?s1\<rparr>" "t_root (s_tr ?s1) = t_root (s_tr s)"
      "t_pid (s_tr ?s1) = t_pid (s_tr s)" "scratch_top (s_tr ?s1) = scratch_top (s_tr (entry_reset C s))"
      using note_chown_frame(2,3,4) [of C ?n _ "entry_reset C s"] reset by simp_all
    have "emuroot_on_entry C s = entry_paths C ?n d ?s1"
      using True by (simp add: emuroot_on_entry_def path_sysno_def [symmetric] call Let_def m)
    then show ?thesis using that [OF _ t(2,3,4)] t(1) by simp
  qed
qed

lemma entry_shows_paths:
  assumes "arch_wf (c_arch C)" and "c_strings (s_ctx s) (t_root (s_tr s)) (h_readlink (s_host s))"
    and "t_root (s_tr s) \<noteq> [] \<or> bindings (s_ctx s) \<noteq> []" and "kregs_synced C s"
    and "emuroot_find_path_syscall (c_nr C) (path_sysno C s) = Some d" and "plain_path_call C (path_sysno C s)"
    and "path_given C (entry_reset C s) (path_sysno C s) (ps_slot1 d) given1 guest1 (2 * SLACK)"
    and "second_given C (entry_reset C s) (path_sysno C s) d given2 guest2"
  defines "s' \<equiv> emuroot_on_entry C s"
  shows "kregs_synced C s'" "shows_path C s' (ps_slot1 d) (shown s given1 guest1 (emuroot_follow_last C s d)) 0"
    "ps_slot2 d \<noteq> 0 \<Longrightarrow> shows_path C s' (ps_slot2 d) (shown s given2 guest2 False) 0"
proof -
  obtain t where e: "s' = entry_paths C (path_sysno C s) d (s\<lparr>s_tr := t\<rparr>)"
    and t: "t_root t = t_root (s_tr s)" "t_pid t = t_pid (s_tr s)" "scratch_top t = scratch_top (s_tr (entry_reset C s))"
    using entry_plain [OF assms(5,6)] unfolding s'_def .
  let ?u = "s\<lparr>s_tr := t\<rparr>" and ?r = "entry_reset C s" and ?n = "path_sysno C s"
  have ss: "same_space s ?u" "same_space ?r ?u" using t by (simp_all add: same_space_def entry_reset_def)
  have eq: "s_mem ?u = s_mem ?r" "s_regs ?u = s_regs ?r" by (simp_all add: entry_reset_def)
  have ar: "get_arg C ?u k = get_arg C ?r k" for k using eq by (simp add: get_arg_def)
  have pg: "path_given C ?u ?n k g g' W = path_given C ?r ?n k g g' W" for k g g' W
    unfolding path_given_def names_def ar absolute_same_space [OF ss(2) disjI2 [OF disjI2 [OF ar]]] away_def read_str_at_def strict_openat2_def eq
    using t by simp
  have sg: "second_given C ?u ?n d given2 guest2" using assms(8) by (simp add: second_given_def pg)
  have fl: "emuroot_follow_last C ?u d = emuroot_follow_last C s d" by (rule follow_last_cong) simp_all
  have sy: "kregs_synced C ?u" using assms(4) unfolding kregs_synced_def get_arg_def by simp
  note f = entry_paths_effect [OF assms(1) assms(5), of ?u ?n given1 guest1 given2 guest2,
      unfolded pg shown_same_space [OF ss(1)] fl, folded e, OF _ _ sy assms(7) sg]
  show "kregs_synced C s'" "shows_path C s' (ps_slot1 d) (shown s given1 guest1 (emuroot_follow_last C s d)) 0"
    "ps_slot2 d \<noteq> 0 \<Longrightarrow> shows_path C s' (ps_slot2 d) (shown s given2 guest2 False) 0"
    using f assms(2,3) t(1) by simp_all
qed

lemma shown_path_kreg:
  assumes "arch_wf (c_arch C)" "kregs_synced C s" "shows_path C s slot host W" "slot \<in> {1..6}"
    and "p = s_kregs s (reg_arg (c_arch C) slot)"
  shows "p = 0 \<or> read_str_at s p PATH_LEN = Some host"
  using shows_path_read [OF assms(3)] assms(2,4,5) by (auto simp: kregs_synced_def)

text \<open>C1: every path of a call is redirected at its entry. When a process with a root or bindings is about
  to make a call that the table says carries one or two paths, and each names a guest path, absolute or relative
  to the working directory or a directory descriptor, from a buffer
  the scratch memory cannot reach, then after \<^verbatim>\<open>emuroot_on_entry\<close> the kernel's register of each path
  argument is NULL or points to exactly that path's translation (or, when that is the guest path itself, to
  the guest's string): the first by the call's own rule for
  following a last link, the second never following it. Granting access, noting a creation or an owner
  and the second scratch buffer do not disturb the first path. Not covered is a relative second path of \<^verbatim>\<open>rename\<close> and
  \<^verbatim>\<open>link\<close>.\<close>

theorem entry_redirects_paths:
  assumes "arch_wf (c_arch C)" and "c_strings (s_ctx s) (t_root (s_tr s)) (h_readlink (s_host s))"
    and "t_root (s_tr s) \<noteq> [] \<or> bindings (s_ctx s) \<noteq> []" and "kregs_synced C s"
    and "emuroot_find_path_syscall (c_nr C) (path_sysno C s) = Some d" and "plain_path_call C (path_sysno C s)"
    and "path_given C (entry_reset C s) (path_sysno C s) (ps_slot1 d) given1 guest1 (2 * SLACK)"
    and "second_given C (entry_reset C s) (path_sysno C s) d given2 guest2"
    and "s' = emuroot_on_entry C s"
    and "p1 = s_kregs s' (reg_arg (c_arch C) (ps_slot1 d))" and "p2 = s_kregs s' (reg_arg (c_arch C) (ps_slot2 d))"
  shows "(p1 = 0 \<or> read_str_at s' p1 PATH_LEN = Some (shown s given1 guest1 (emuroot_follow_last C s d))) \<and>
    (ps_slot2 d \<noteq> 0 \<longrightarrow> p2 = 0 \<or> read_str_at s' p2 PATH_LEN = Some (shown s given2 guest2 False))"
proof -
  have sl: "ps_slot1 d \<in> {1..6}" "ps_slot2 d \<noteq> 0 \<Longrightarrow> ps_slot2 d \<in> {1..6}"
    using find_path_entry_ok [OF assms(5)] by (auto simp: entry_ok_def row_ok_def)
  note f = entry_shows_paths [OF assms(1-8), folded assms(9)]
  show ?thesis using shown_path_kreg [OF assms(1) f(1,2) sl(1) assms(10)] shown_path_kreg [OF assms(1) f(1) f(3) sl(2) assms(11)]
    by blast
qed

text \<open>\<^verbatim>\<open>rename("/usr/x", "/usr/y")\<close>.\<close>

definition demo_rename :: sys where
  "demo_rename = demo_sys\<lparr>s_regs := (s_regs demo_sys)(15 := 82, 13 := 16384),
     s_kregs := (s_regs demo_sys)(15 := 82, 13 := 16384),
     s_mem := (\<lambda>a. if a = 16384 then Some 0x2F else if a = 16385 then Some 0x75 else if a = 16386 then Some 0x73
        else if a = 16387 then Some 0x72 else if a = 16388 then Some 0x2F else if a = 16389 then Some 0x79 else demo_mem a)\<rparr>"

theorem entry_redirects_paths_witness:
  "let s' = emuroot_on_entry demo_cfg demo_rename; p1 = s_kregs s' 14; p2 = s_kregs s' 13
   in (p1 = 0 \<or> read_str_at s' p1 PATH_LEN = Some ''/srv/usr/x'') \<and> (p2 = 0 \<or> read_str_at s' p2 PATH_LEN = Some ''/srv/usr/y'')"
proof -
  let ?d = "\<lparr>ps_sysno = 82, ps_slot1 = 1, ps_slot2 = 2, ps_mode = M_NOFOLLOW, ps_flag_slot = 0\<rparr>"
  have regs: "s_regs demo_rename 14 = 8192" "s_regs demo_rename 13 = 16384" "s_regs demo_rename 15 = 82"
    "s_regs demo_rename 19 = 65536" "reg_arg arch_x86_64 (Suc 0) = 14" "reg_arg arch_x86_64 2 = 13" "c_arch demo_cfg = arch_x86_64"
    "r_sp arch_x86_64 = 19" "r_sysno arch_x86_64 = 15" "s_ctx demo_rename = s_ctx demo_sys" "s_host demo_rename = demo_host"
    "s_tr demo_rename = s_tr demo_sys"
    by (simp_all add: demo_rename_def demo_sys_def arch_x86_64_def reg_arg_def demo_cfg_def Let_def)
  have n: "path_sysno demo_cfg demo_rename = 82" by (simp add: path_sysno_def regs)
  have f: "emuroot_find_path_syscall (c_nr demo_cfg) 82 = Some ?d" by code_simp
  have pl: "plain_path_call demo_cfg 82" by code_simp
  have wf: "arch_wf (c_arch demo_cfg)" by code_simp
  have cs: "c_strings (s_ctx demo_rename) (t_root (s_tr demo_rename)) (h_readlink (s_host demo_rename))"
    by (auto simp: regs c_strings_def demo_sys_def demo_host_def zero_ctx_def Let_def)
  have ac: "t_root (s_tr demo_rename) \<noteq> [] \<or> bindings (s_ctx demo_rename) \<noteq> []" by (simp add: regs demo_sys_def Let_def)
  have sy: "kregs_synced demo_cfg demo_rename" by (simp add: kregs_synced_def get_arg_def arg_def demo_rename_def)
  have m: "mread (s_mem demo_rename) 8192 (length ''/usr/x'' + 1) = str_bytes ''/usr/x'' @ [0]"
    "mread (s_mem demo_rename) 16384 (length ''/usr/y'' + 1) = str_bytes ''/usr/y'' @ [0]"
    by (simp_all add: str_bytes_def demo_mem_def demo_rename_def)
  have rd: "read_str_at demo_rename 8192 PATH_LEN = Some ''/usr/x''" "read_str_at demo_rename 16384 PATH_LEN = Some ''/usr/y''"
    using str_at_copy [OF m(1)] str_at_copy [OF m(2)] by (simp_all add: PATH_LEN_def)
  have top: "scratch_top (s_tr (entry_reset demo_cfg demo_rename)) = 65024"
    by (simp add: entry_reset_def regs) code_simp
  have "path_given demo_cfg (entry_reset demo_cfg demo_rename) 82 (Suc 0) ''/usr/x'' ''/usr/x'' (2 * SLACK)"
    "path_given demo_cfg (entry_reset demo_cfg demo_rename) 82 2 ''/usr/y'' ''/usr/y'' (2 * SLACK)"
    using rd by (simp_all add: path_given_def names_def away_def top) (simp_all add: entry_reset_def read_str_at_def get_arg_def arg_def regs
        SLACK_def PATH_LEN_def c_at_def absolute_guest_path_def)
  then have pg: "path_given demo_cfg (entry_reset demo_cfg demo_rename) 82 (ps_slot1 ?d) ''/usr/x'' ''/usr/x'' (2 * SLACK)"
    "second_given demo_cfg (entry_reset demo_cfg demo_rename) 82 ?d ''/usr/y'' ''/usr/y''"
    by (simp_all add: second_given_def c_at_def)
  have "snd (translate demo_rename ''/usr/x'' False PATH_LEN) = ''/srv/usr/x''"
    "snd (translate demo_rename ''/usr/y'' False PATH_LEN) = ''/srv/usr/y''" by code_simp+
  then have t: "shown demo_rename ''/usr/x'' ''/usr/x'' False = ''/srv/usr/x''" "shown demo_rename ''/usr/y'' ''/usr/y'' False = ''/srv/usr/y''"
    by (simp_all add: shown_absolute PATH_LEN_def)
  have fl: "\<not> emuroot_follow_last demo_cfg demo_rename ?d" by (simp add: emuroot_follow_last_def)
  from entry_redirects_paths [OF wf cs ac sy f [folded n] pl [folded n] pg [folded n] refl refl refl] t fl
  show ?thesis by (simp add: Let_def regs n)
qed

subsection \<open>A second path that is missed\<close>

lemma rewrite_path_arg_relative:
  assumes "read_str_at s (get_arg C s slot) PATH_LEN = Some given" and "c_at given 0 \<noteq> SLASH"
    and "absolute_guest_path C s (dirfd_slot C sysno slot) given (2 * PATH_LEN) = None"
  shows "rewrite_path_arg C sysno slot follow which s = s"
  using assms by (simp add: rewrite_path_arg_def Let_def)

lemma point_at_copy_regs:
  assumes "arch_wf (c_arch C)" and "slot \<in> {1..6}" and "length host < 2 ^ 62"
  shows "j \<in> {1..6} \<Longrightarrow> j \<noteq> slot \<Longrightarrow> get_arg C (point_at_copy C slot host s) j = get_arg C s j"
    "unat (get_arg C (point_at_copy C slot host s) slot) mod 16 = 0"
proof -
  obtain a s1 where sc: "scratch (length host + 1) s = (a, s1)" by fastforce
  obtain ok s2 where w: "write_at a (str_bytes host @ [0]) s1 = (ok, s2)" by fastforce
  define v where "v = (if a \<noteq> 0 \<and> ok then a else 0)"
  define t where "t = (if a = 0 then s1 else s2)"
  have c: "point_at_copy C slot host s = put_regs C (set_arg C slot v t)"
    by (simp add: point_at_copy_def sc [unfolded Suc_eq_plus1 [symmetric]] w v_def t_def fail_closed_def)
  have t: "get_arg C t j = get_arg C s j" for j
    using scratch_slot [OF sc] write_at_slot [OF w] by (simp add: get_arg_def t_def)
  show "get_arg C (point_at_copy C slot host s) j = get_arg C s j" if "j \<in> {1..6}" "j \<noteq> slot"
    using assms that t by (simp add: c)
  have u: "unat (of_nat (length host + 1) :: u64) < 2 ^ 63"
    using assms(3) by (simp only: unsigned_of_nat) (simp add: take_bit_nat_eq_self)
  obtain t' where "emuroot_scratch (s_tr s) (of_nat (length host + 1)) = (a, t')"
    using sc by (auto simp: scratch_def split: prod.splits)
  then have "a = 0 \<or> unat a mod 16 = 0" using scratch_bounds(2) [OF _ _ u] by (cases "a = 0") auto
  then show "unat (get_arg C (point_at_copy C slot host s) slot) mod 16 = 0" using assms by (auto simp: c v_def)
qed

lemma rewrite_path_arg_form:
  obtains u host where "s_regs u = s_regs s" "length host < PATH_LEN"
    "rewrite_path_arg C n slot f w s \<in> {u, fail_closed C slot u, point_at_copy C slot host u}"
proof (cases "slot = 0 \<or> t_root (s_tr s) = [] \<and> bindings (s_ctx s) = [] \<or> get_arg C s slot = 0")
  case True
  then have "rewrite_path_arg C n slot f w s = s" by (auto simp: rewrite_path_arg_def)
  then show ?thesis using that [of s "[]"] by simp
next
  case False
  show ?thesis
  proof (cases "read_str_at s (get_arg C s slot) PATH_LEN")
    case None
    then have "rewrite_path_arg C n slot f w s \<in> {s, fail_closed C slot s}" using False by (simp add: rewrite_path_arg_def Let_def)
    then show ?thesis using that [of s "[]"] by auto
  next
    case given: (Some given)
    show ?thesis
    proof (cases "\<exists>guest. names C s n slot given guest")
      case no: False
      then have "rewrite_path_arg C n slot f w s = s"
        using False given by (auto simp: rewrite_path_arg_def names_def Let_def split: option.split)
      then show ?thesis using that [of s "[]"] by simp
    next
      case True
      then obtain guest where g: "names C s n slot given guest" ..
      obtain rw host where t: "translate s guest f PATH_LEN = (rw, host)" by fastforce
      have l: "length host < PATH_LEN"
        using t length_translate [of "s_ctx s" "h_readlink (s_host s)" "t_root (s_tr s)" guest f] by (simp add: translate_def)
      define s1 where "s1 = (if take 6 guest = ''/proc/'' \<and> w = 0 \<and> is_readlink C n
          then upd_tr (\<lambda>t. t\<lparr>proc_link := True, proc_link_exe := ends_exe guest\<rparr>) s else s)"
      have t1: "translate s1 guest f PATH_LEN = (rw, host)" using t by (simp add: s1_def translate_def)
      define u where "u = (let u = (if has_fake_ids (s_ctx s1) \<and> id_e (uid (t_creds (s_tr s1))) = 0
          then emuroot_grant_access C n w host s1 else s1) in if verbose (s_ctx u) then upd_tr (\<lambda>t. t\<lparr>logged := True\<rparr>) u else u)"
      have "rewrite_path_arg C n slot f w s = (if \<not> rw then u else point_at_copy C slot host u)"
        using False given g unfolding rewrite_path_arg_def Let_def
        by (auto simp: names_def s1_def [symmetric] t1 u_def Let_def)
      moreover have "s_regs u = s_regs s" by (simp add: u_def s1_def Let_def)
      ultimately show ?thesis using that [of u host] l by auto
    qed
  qed
qed

lemma rewrite_path_arg_regs:
  fixes C :: cfg and s :: sys and f :: bool and w :: nat and n :: int
  assumes wf: "arch_wf (c_arch C)" and slot: "slot \<in> {1..6}"
  defines "s' \<equiv> rewrite_path_arg C n slot f w s"
  shows "j \<in> {1..6} \<Longrightarrow> j \<noteq> slot \<Longrightarrow> get_arg C s' j = get_arg C s j"
    "get_arg C s' slot = get_arg C s slot \<or> unat (get_arg C s' slot) mod 16 = 0"
proof -
  obtain u host where u: "s_regs u = s_regs s" "length host < PATH_LEN" "s' \<in> {u, fail_closed C slot u, point_at_copy C slot host u}"
    unfolding s'_def by (rule rewrite_path_arg_form)
  have a: "get_arg C u k = get_arg C s k" for k using u(1) by (simp add: get_arg_def)
  have z: "get_arg C (fail_closed C slot u) k = (if k = slot then 0 else get_arg C s k)" if "k \<in> {1..6}" for k
    using wf slot that a by (simp add: fail_closed_def)
  have h: "length host < 2 ^ 62" using u(2) by (simp add: PATH_LEN_def)
  show "get_arg C s' j = get_arg C s j" if "j \<in> {1..6}" "j \<noteq> slot"
    using u(3) z [OF that(1)] that(2) point_at_copy_regs(1) [OF wf slot h that] a by auto
  show "get_arg C s' slot = get_arg C s slot \<or> unat (get_arg C s' slot) mod 16 = 0"
    using u(3) z [OF slot] point_at_copy_regs(2) [OF wf slot h, of u] a by auto
qed

text \<open>No multiple of 16 reads as the descriptor -100.\<close>

lemma aligned_not_cwd:
  fixes a :: u64
  assumes "unat a mod 16 = 0" shows "sint (ucast a :: 32 word) \<noteq> AT_FDCWD"
proof
  assume "sint (ucast a :: 32 word) = AT_FDCWD"
  then have "word_of_int (sint (ucast a :: 32 word)) = (word_of_int (- 100) :: 32 word)" by (simp add: AT_FDCWD_def)
  then have "unat (ucast a :: 32 word) = 4294967196" by simp
  then have "unat a mod 2 ^ 32 = 4294967196" by (simp add: unsigned_ucast_eq take_bit_eq_mod)
  then have "unat a mod 16 = 4294967196 mod 16" using mod_mod_cancel [of 16 "2 ^ 32" "unat a"] by simp
  then show False using assms by simp
qed

text \<open>C30: a relative new name of \<^verbatim>\<open>rename\<close> or \<^verbatim>\<open>link\<close> is not redirected. \<^verbatim>\<open>dirfd_slot\<close> takes the register before
  the path for a directory descriptor, but in \<^verbatim>\<open>rename(old, new)\<close> and \<^verbatim>\<open>link(old, new)\<close> that register holds the
  address of the first path. When the process has no directory open under the number this address reads as,
  the kernel is left with the guest's own relative string, so a new name with enough \<^verbatim>\<open>..\<close> components, or one
  through a link, leaves the root, while the first path of the same call is redirected.\<close>

theorem relative_rename_unredirected:
  assumes wf: "arch_wf (c_arch C)" and cs: "c_strings (s_ctx s) (t_root (s_tr s)) (h_readlink (s_host s))"
    and active: "t_root (s_tr s) \<noteq> [] \<or> bindings (s_ctx s) \<noteq> []" and sync: "kregs_synced C s"
    and d: "emuroot_find_path_syscall (c_nr C) (path_sysno C s) = Some d" "plain_path_call C (path_sysno C s)" "ps_slot2 d = 2"
    and at: "dirfd_slot C (path_sysno C s) 2 = 1"
    and g1: "path_given C (entry_reset C s) (path_sysno C s) (ps_slot1 d) given1 guest1 (2 * SLACK)"
    and g2: "read_str_at s (get_arg C s 2) PATH_LEN = Some given2" "c_at given2 0 \<noteq> SLASH"
      "away (entry_reset C s) (2 * SLACK) (get_arg C s 2)"
    and s': "s' = emuroot_on_entry C s" and fd: "fd = sint (ucast (get_arg C s' 1) :: 32 word)"
      "readlink_buf s (''/proc/'' @ dec_int (t_pid (s_tr s)) @ ''/fd/'' @ dec_int fd) = None"
      "sint (ucast (get_arg C s 1) :: 32 word) \<noteq> AT_FDCWD"
  shows "s_kregs s' (reg_arg (c_arch C) 2) = get_arg C s 2 \<and> read_str_at s' (get_arg C s 2) PATH_LEN = Some given2 \<and>
    (get_arg C s' 1 = 0 \<or> read_str_at s' (get_arg C s' 1) PATH_LEN = Some (shown s given1 guest1 (emuroot_follow_last C s d)))"
proof -
  let ?n = "path_sysno C s" and ?r = "entry_reset C s"
  obtain t where e: "s' = entry_paths C ?n d (s\<lparr>s_tr := t\<rparr>)"
    and t: "t_root t = t_root (s_tr s)" "t_pid t = t_pid (s_tr s)" "scratch_top t = scratch_top (s_tr ?r)"
    using entry_plain [OF d(1,2)] unfolding s' .
  define u where "u = emuroot_note_creation C ?n d (s\<lparr>s_tr := t\<rparr>)"
  have uf: "s_ctx u = s_ctx s" "s_mem u = s_mem s" "s_regs u = s_regs s" "s_kregs u = s_kregs s" "s_host u = s_host s"
    "t_root (s_tr u) = t_root (s_tr s)" "t_pid (s_tr u) = t_pid (s_tr s)" "scratch_top (s_tr u) = scratch_top (s_tr ?r)"
    using t by (simp_all add: u_def)
  have ss: "same_space s u" "same_space ?r u" using uf by (simp_all add: same_space_def entry_reset_def)
  have eq: "s_mem ?r = s_mem s" "s_regs ?r = s_regs s" by (simp_all add: entry_reset_def)
  have ar: "get_arg C u k = get_arg C ?r k" "get_arg C u k = get_arg C s k" for k by (simp_all add: get_arg_def eq uf)
  have fl: "emuroot_follow_last C u d = emuroot_follow_last C s d" by (rule follow_last_cong) (simp_all add: uf)
  have g: "path_given C u ?n (ps_slot1 d) given1 guest1 (SLACK + SLACK)"
    using g1 unfolding path_given_def names_def ar(1) absolute_same_space [OF ss(2) disjI2 [OF disjI2 [OF ar(1)]]]
      away_def read_str_at_def strict_openat2_def uf eq by (simp add: mult_2)
  have sl: "ps_slot1 d = 1" using find_two_paths [OF d(1)] d(3) by simp
  have one: "(1 :: nat) \<in> {1..6}" "ps_slot1 d \<in> {1..6}" by (simp_all add: sl)
  have sy: "kregs_synced C u" using sync unfolding kregs_synced_def ar(2) uf(4) .
  define v where "v = rewrite_path_arg C ?n (ps_slot1 d) (emuroot_follow_last C s d) 0 u"
  note f = rewrite_path_arg_effect [OF wf one(2) _ _ sy g, unfolded uf, OF cs active, of "emuroot_follow_last C s d" 0,
      folded v_def, unfolded shown_same_space [OF ss(1)]]
  have s'v: "s' = rewrite_path_arg C ?n 2 False 1 v"
    by (simp add: e entry_paths_def Let_def u_def [symmetric] fl v_def d(3))
  have a2: "get_arg C v 2 = get_arg C s 2" using f(4) sl ar(2) by simp
  have "away u (SLACK + SLACK) (get_arg C s 2)" using g2(3) by (simp add: away_def uf mult_2)
  then have rd: "read_str_at v (get_arg C s 2) PATH_LEN = Some given2"
    using away_other(2) [OF f(1)] g2(1) uf(2) by (simp add: read_str_at_def)
  have same: "same_space s v" by (rule same_space_trans [OF ss(1) f(2)])
  have "absolute_guest_path C v 1 given2 (2 * PATH_LEN) = None"
  proof -
    have "get_arg C v 1 = get_arg C s' 1"
      using rewrite_path_arg_regs(1) [OF wf, of 2 1 ?n False 1 v] by (simp add: s'v)
    moreover have "get_arg C v 1 = get_arg C s 1 \<or> unat (get_arg C v 1) mod 16 = 0"
      using rewrite_path_arg_regs(2) [OF wf one(2), of ?n "emuroot_follow_last C s d" 0 u] ar(2) by (simp add: v_def sl)
    then have "sint (ucast (get_arg C v 1) :: 32 word) \<noteq> AT_FDCWD" using fd(3) aligned_not_cwd by metis
    moreover have "readlink_buf v = readlink_buf s" using same by (simp add: same_space_def readlink_buf_def fun_eq_iff)
    ultimately show ?thesis using g2(2) fd same by (simp add: absolute_guest_path_def same_space_def)
  qed
  then have "s' = v" using rewrite_path_arg_relative [of v C 2 given2 ?n] rd g2(2) at by (simp add: s'v a2)
  moreover have "s_kregs v (reg_arg (c_arch C) 2) = get_arg C v 2" using f(3) by (simp add: kregs_synced_def)
  ultimately show ?thesis using a2 rd shows_path_read [OF f(5)] by (simp add: sl)
qed

definition demo_relative :: sys where
  "demo_relative = demo_rename\<lparr>s_mem := (\<lambda>a. if a = 16384 then Some 0x79 else demo_mem a)\<rparr>"


theorem relative_rename_unredirected_witness:
  "let s' = emuroot_on_entry demo_cfg demo_relative
   in s_kregs s' 13 = 16384 \<and> read_str_at s' 16384 PATH_LEN = Some ''y''"
proof -
  let ?d = "\<lparr>ps_sysno = 82, ps_slot1 = 1, ps_slot2 = 2, ps_mode = M_NOFOLLOW, ps_flag_slot = 0\<rparr>" and ?s = demo_relative
  have regs: "s_regs ?s 14 = 8192" "s_regs ?s 13 = 16384" "s_regs ?s 15 = 82"
    "s_regs ?s 19 = 65536" "reg_arg arch_x86_64 (Suc 0) = 14" "reg_arg arch_x86_64 2 = 13" "c_arch demo_cfg = arch_x86_64"
    "r_sp arch_x86_64 = 19" "r_sysno arch_x86_64 = 15" "s_ctx ?s = s_ctx demo_sys" "s_host ?s = demo_host"
    "s_tr ?s = s_tr demo_sys"
    by (simp_all add: demo_relative_def demo_rename_def demo_sys_def arch_x86_64_def reg_arg_def demo_cfg_def Let_def)
  have args: "get_arg demo_cfg ?s (Suc 0) = 8192" "get_arg demo_cfg ?s 2 = 16384" by (simp_all add: get_arg_def arg_def regs)
  have n: "path_sysno demo_cfg ?s = 82" by (simp add: path_sysno_def regs)
  have f: "emuroot_find_path_syscall (c_nr demo_cfg) 82 = Some ?d" "plain_path_call demo_cfg 82" "arch_wf (c_arch demo_cfg)"
    "dirfd_slot demo_cfg 82 2 = 1" by code_simp+
  have cs: "c_strings (s_ctx ?s) (t_root (s_tr ?s)) (h_readlink (s_host ?s))"
    by (auto simp: regs c_strings_def demo_sys_def demo_host_def zero_ctx_def Let_def)
  have ac: "t_root (s_tr ?s) \<noteq> [] \<or> bindings (s_ctx ?s) \<noteq> []" by (simp add: regs demo_sys_def Let_def)
  have sy: "kregs_synced demo_cfg ?s" by (simp add: kregs_synced_def get_arg_def arg_def demo_relative_def demo_rename_def)
  have m: "mread (s_mem ?s) 8192 (length ''/usr/x'' + 1) = str_bytes ''/usr/x'' @ [0]"
    "mread (s_mem ?s) 16384 (length ''y'' + 1) = str_bytes ''y'' @ [0]"
    by (simp_all add: str_bytes_def demo_mem_def demo_relative_def)
  have rd: "read_str_at ?s 8192 PATH_LEN = Some ''/usr/x''" "read_str_at ?s 16384 PATH_LEN = Some ''y''"
    using str_at_copy [OF m(1)] str_at_copy [OF m(2)] by (simp_all add: PATH_LEN_def)
  have top: "scratch_top (s_tr (entry_reset demo_cfg ?s)) = 65024" by (simp add: entry_reset_def regs) code_simp
  have rr: "read_str_at (entry_reset demo_cfg ?s) a z = read_str_at ?s a z" "get_arg demo_cfg (entry_reset demo_cfg ?s) k = get_arg demo_cfg ?s k" for a z k
    by (simp_all add: entry_reset_def read_str_at_def get_arg_def)
  have g1: "path_given demo_cfg (entry_reset demo_cfg ?s) 82 (ps_slot1 ?d) ''/usr/x'' ''/usr/x'' (2 * SLACK)"
    using rd by (simp add: path_given_def names_def away_def top rr args SLACK_def PATH_LEN_def c_at_def absolute_guest_path_def)
  have g2: "read_str_at ?s (get_arg demo_cfg ?s 2) PATH_LEN = Some ''y''" "away (entry_reset demo_cfg ?s) (2 * SLACK) (get_arg demo_cfg ?s 2)"
    using rd by (simp_all add: away_def top args SLACK_def PATH_LEN_def)
  have fd: "readlink_buf ?s (''/proc/'' @ dec_int (t_pid (s_tr ?s)) @ ''/fd/'' @ x) = None" for x
  proof -
    have "t_pid (s_tr ?s) = 7" "dec_int 7 = ''7''" by (simp_all add: regs demo_sys_def Let_def) code_simp
    then show ?thesis by (simp add: readlink_buf_def regs demo_host_def Let_def)
  qed
  have np: "sint (ucast (get_arg demo_cfg ?s 1) :: 32 word) \<noteq> AT_FDCWD" by (simp add: args AT_FDCWD_def)
  from relative_rename_unredirected [OF f(3) cs ac sy f(1,2) [folded n] _ f(4) [folded n] g1 [folded n] g2(1) _ g2(2) refl refl fd np]
  show ?thesis by (simp add: Let_def args regs c_at_def)
qed

subsection \<open>Credential calls\<close>

text \<open>The calls whose arguments are replaced at entry.\<close>

definition set_id_actions :: "action set" where
  "set_id_actions = {A_SETUID, A_SETGID, A_SETREUID, A_SETREGID, A_SETRESUID, A_SETRESGID, A_SETFSUID, A_SETFSGID}"

definition id_call :: "cfg \<Rightarrow> int \<Rightarrow> action \<Rightarrow> bool" where
  "id_call C n a \<longleftrightarrow> emuroot_action_of (c_nr C) (c_lp64 C) n = Some a \<and> a \<in> set_id_actions \<and>
     emuroot_find_path_syscall (c_nr C) n = None \<and>
     list_all (\<lambda>k. \<not> is_sys C k n) [''execve'', ''bind'', ''connect'', ''sendto'', ''execveat'']"

lemma entry_id_call:
  assumes "id_call C (path_sysno C s) a" and "has_fake_ids (s_ctx s)"
  shows "emuroot_on_entry C s = neutralize_id_change C (Some a) (entry_reset C s)"
proof -
  have a: "a \<in> set_id_actions" using assms(1) by (simp add: id_call_def)
  then have m: "emuroot_emulate_mounts C n (Some a) u = (False, u)" for n u
    by (auto simp: emuroot_emulate_mounts_def set_id_actions_def)
  have i: "emuroot_identity_entry C n (Some a) u = neutralize_id_change C (Some a) u" for n u
    using a by (auto simp: emuroot_identity_entry_def set_id_actions_def)
  have c: "entry_call C (path_sysno C s) u = u" for u
    using assms(1) by (simp add: entry_call_def id_call_def)
  have "s_ctx (entry_reset C s) = s_ctx s" by (simp add: entry_reset_def)
  then show ?thesis using assms
    by (simp add: emuroot_on_entry_def path_sysno_def [symmetric] id_call_def i m c Let_def)
qed

text \<open>The tracer's own credentials: it never changed them, so all user ids are equal, and all group ids.\<close>

definition plain_creds :: "host_t \<Rightarrow> creds_t \<Rightarrow> bool" where
  "plain_creds h k \<longleftrightarrow> uid k = \<lparr>id_r = h_geteuid h, id_e = h_geteuid h, id_s = h_geteuid h\<rparr> \<and> fsuid k = h_geteuid h \<and>
     gid k = \<lparr>id_r = h_getegid h, id_e = h_getegid h, id_s = h_getegid h\<rparr> \<and> fsgid k = h_getegid h \<and>
     h_geteuid h \<noteq> NOID \<and> h_getegid h \<noteq> NOID"

definition kernel_args :: "cfg \<Rightarrow> sys \<Rightarrow> u64 list" where
  "kernel_args C s = map (\<lambda>j. s_kregs s (reg_arg (c_arch C) j)) [1, 2, 3, 4, 5, 6]"

lemma neutralized_harmless:
  assumes "arch_wf (c_arch C)" and "a \<in> set_id_actions" and k: "plain_creds (s_host s) k"
  shows "\<exists>op. cred_op_of a (kernel_args C (neutralize_id_change C (Some a) s)) s = Some op \<and> snd (cred_call op k) = k"
proof -
  have u: "ucast (ucast x :: u64) = x" for x :: u32
    by (rule bit_eqI) (auto simp: bit_simps dest: bit_imp_le_length)
  have "k\<lparr>uid := uid k, fsuid := fsuid k\<rparr> = k" "k\<lparr>gid := gid k, fsgid := fsgid k\<rparr> = k" by simp_all
  then show ?thesis
    using assms(2) unfolding set_id_actions_def
    by (elim insertE emptyE)
      (use assms(1) k in \<open>auto simp: kernel_args_def neutralize_id_change_def kregs_put_arg cred_op_of_def cred_call_defs
         plain_creds_def apply_ids_def NO_ID_def NOID_def Let_def u\<close>)
qed

lemma set_id_exit:
  assumes a: "a \<in> set_id_actions"
  shows "\<exists>op. cred_op_of a args s = Some op" "cred_op_of a args s = cred_op_of a args s'" "id_action a"
  using a by (auto simp: set_id_actions_def cred_op_of_def id_action_def)

lemma neutralize_frame [simp]:
  "s_ctx (neutralize_id_change C a s) = s_ctx s" "s_tr (neutralize_id_change C a s) = s_tr s"
  "s_host (neutralize_id_change C a s) = s_host s"
  by (simp_all add: neutralize_id_change_def split: option.split action.split)

text \<open>C10: a process changes identity only inside the emulation. When a process of a context with fake ids calls
  one of the \<^verbatim>\<open>set*uid\<close>, \<^verbatim>\<open>set*gid\<close> or \<^verbatim>\<open>setfs*id\<close> calls, the call the kernel is left to make keeps the real
  credentials as they are, whether or not the real user is root; when it returns, whatever its result, the
  process has the credentials the call would have given it, and its result register says what the call
  would have said (0, -EPERM, or the old id).\<close>

theorem cred_calls_emulated:
  assumes wf: "arch_wf (c_arch C)" and call: "id_call C (path_sysno C s) a" and ids: "has_fake_ids (s_ctx s)"
    and k: "plain_creds (s_host s) k" and op: "cred_op_of a (map (get_arg C s) [1, 2, 3, 4, 5, 6]) s = Some op"
    and s1: "s1 = emuroot_on_entry C s" and ret: "s_tr s2 = s_tr s1" "s_ctx s2 = s_ctx s1"
      "s_kregs s2 (r_ret (c_arch C)) = s_regs s2 (r_ret (c_arch C))"
    and s3: "s3 = emuroot_on_exit C s2"
  shows "(\<exists>op'. cred_op_of a (kernel_args C s1) s1 = Some op' \<and> snd (cred_call op' k) = k) \<and>
    t_creds (s_tr s3) = snd (cred_call op (t_creds (s_tr s))) \<and>
    s_kregs s3 (r_ret (c_arch C)) = word_of_int (fst (cred_call op (t_creds (s_tr s))))"
proof -
  have a: "a \<in> set_id_actions" and act: "emuroot_action_of (c_nr C) (c_lp64 C) (path_sysno C s) = Some a"
    using call by (simp_all add: id_call_def)
  have e: "s1 = neutralize_id_change C (Some a) (entry_reset C s)" using entry_id_call [OF call ids] s1 by simp
  have r: "s_host (entry_reset C s) = s_host s" "s_ctx (entry_reset C s) = s_ctx s" "t_creds (s_tr (entry_reset C s)) = t_creds (s_tr s)"
    "t_sysno (s_tr (entry_reset C s)) = path_sysno C s" "t_created (s_tr (entry_reset C s)) = []"
    "t_args (s_tr (entry_reset C s)) = map (get_arg C s) [1, 2, 3, 4, 5, 6]"
    by (simp_all add: entry_reset_def path_sysno_def)
  have kernel: "\<exists>op'. cred_op_of a (kernel_args C s1) s1 = Some op' \<and> snd (cred_call op' k) = k"
    using neutralized_harmless [OF wf a, of "entry_reset C s" k] k r(1) set_id_exit(2) [OF a] unfolding e by metis
  obtain v c where vc: "cred_call op (t_creds (s_tr s)) = (v, c)" by fastforce
  let ?u = "upd_tr (\<lambda>t. t\<lparr>logged := False\<rparr>) s2" and ?ret = "sint (s_regs s2 (r_ret (c_arch C)))"
  have t2: "s_tr s2 = s_tr (entry_reset C s)" "s_ctx s2 = s_ctx s" using ret e r(2) by simp_all
  have "cred_op_of a (t_args (s_tr s2)) ?u = Some op"
    using op set_id_exit(2) [OF a] by (metis t2(1) r(6))
  then have x: "exit_ids C a ?ret ?u = (v, upd_tr (\<lambda>t. t\<lparr>t_creds := c\<rparr>) ?u)"
    using vc t2(1) r(3) by (simp add: exit_ids_def Let_def)
  have "emuroot_on_exit C s2 = (if v \<noteq> ?ret then set_result C v (upd_tr (\<lambda>t. t\<lparr>t_creds := c\<rparr>) ?u) else upd_tr (\<lambda>t. t\<lparr>t_creds := c\<rparr>) ?u)"
    using on_exit_ids [of s2 C a] t2 r act ids set_id_exit(3) [OF a] x by (simp add: Let_def)
  then have s3': "s3 = (if v \<noteq> ?ret then set_result C v (upd_tr (\<lambda>t. t\<lparr>t_creds := c\<rparr>) ?u) else upd_tr (\<lambda>t. t\<lparr>t_creds := c\<rparr>) ?u)"
    using s3 by simp
  have "t_creds (s_tr s3) = c" by (simp add: s3')
  moreover have "s_kregs s3 (r_ret (c_arch C)) = word_of_int v"
    using result_seen [OF wf, of "upd_tr (\<lambda>t. t\<lparr>t_creds := c\<rparr>) ?u" v] ret(3) unfolding s3' by simp
  ultimately show ?thesis using kernel vc by simp
qed

text \<open>\<^verbatim>\<open>setuid(33)\<close> by the fake root, while the real user is 1000.\<close>

definition demo_setuid :: sys where
  "demo_setuid = demo_sys\<lparr>s_regs := (s_regs demo_sys)(15 := 105, 14 := 33)\<rparr>"

theorem cred_calls_emulated_witness:
  "let s1 = emuroot_on_entry demo_cfg demo_setuid;
       s3 = emuroot_on_exit demo_cfg (s1\<lparr>s_regs := (s_regs s1)(10 := 0), s_kregs := (s_kregs s1)(10 := 0)\<rparr>)
   in uid (t_creds (s_tr s3)) = \<lparr>id_r = 33, id_e = 33, id_s = 33\<rparr> \<and> s_kregs s3 10 = 0"
proof -
  have wf: "arch_wf (c_arch demo_cfg)" by code_simp
  have regs: "s_regs demo_setuid 15 = 105" "s_regs demo_setuid 14 = 33" "r_sysno (c_arch demo_cfg) = 15"
    "r_ret (c_arch demo_cfg) = 10" "reg_arg (c_arch demo_cfg) (Suc 0) = 14" "s_host demo_setuid = demo_host"
    "t_creds (s_tr demo_setuid) = creds_init 0 0" "has_fake_ids (s_ctx demo_setuid)"
    by (simp_all add: demo_setuid_def demo_sys_def arch_x86_64_def reg_arg_def demo_cfg_def zero_tracee_def Let_def)
  have n: "path_sysno demo_cfg demo_setuid = 105" by (simp add: path_sysno_def regs)
  have c: "id_call demo_cfg 105 A_SETUID" by code_simp
  have k: "plain_creds (s_host demo_setuid) (creds_init 1000 1000)"
    by (simp add: plain_creds_def regs demo_host_def creds_init_def NOID_def Let_def)
  have op: "cred_op_of A_SETUID (map (get_arg demo_cfg demo_setuid) [1, 2, 3, 4, 5, 6]) demo_setuid = Some (SETUID 33)"
    by (simp add: cred_op_of_def get_arg_def arg_def regs)
  have "cred_call (SETUID 33) (creds_init 0 0) = (0, (creds_init 0 0)\<lparr>uid := \<lparr>id_r = 33, id_e = 33, id_s = 33\<rparr>, fsuid := 33\<rparr>)"
    by code_simp
  from cred_calls_emulated [OF wf c [folded n] regs(8) k op refl _ _ _ refl,
      of "(emuroot_on_entry demo_cfg demo_setuid)\<lparr>s_regs := (s_regs (emuroot_on_entry demo_cfg demo_setuid))(10 := 0),
        s_kregs := (s_kregs (emuroot_on_entry demo_cfg demo_setuid))(10 := 0)\<rparr>"] this
  show ?thesis by (simp add: Let_def regs)
qed

end
