(* ===== verification/Frame.thy ===== *)
theory Frame
  imports Entry
begin

text \<open>
  What the handlers leave alone. \<open>outline\<close> is the part of a stopped process the tracer's loop and the name
  space depend on: the loop's own fields, the root and the root in waiting, and the whole context but for
  the owner table. Every step of the two handlers keeps it, except the emulation of \<^verbatim>\<open>chroot\<close>, \<^verbatim>\<open>mount\<close> and
  \<^verbatim>\<open>umount\<close>. The locale \<open>kept_view\<close> has the argument once, for any part of a tracee and of the context that
  a call's own fields and the owner table are no part of; its extensions \<open>kept_by_entry\<close> and \<open>kept_by_both\<close> are for
  parts a whole handler keeps.
\<close>

definition book :: "tracee_t \<Rightarrow> int \<times> bool \<times> bool \<times> bool" where
  "book t = (t_pid t, in_syscall t, awaiting_exit t, fresh t)"

definition core :: "tracee_t \<Rightarrow> (int \<times> bool \<times> bool \<times> bool) \<times> string \<times> string" where
  "core t = (book t, t_root t, pending_root t)"

definition outline :: "sys \<Rightarrow> ((int \<times> bool \<times> bool \<times> bool) \<times> string \<times> string) \<times> emuroot_ctx" where
  "outline s = (core (s_tr s), (s_ctx s)\<lparr>owners := None\<rparr>)"

lemma core_upd [simp]:
  "core (t\<lparr>scratch_top := a\<rparr>) = core t" "core (t\<lparr>t_sysno := n\<rparr>) = core t" "core (t\<lparr>proc_link := b\<rparr>) = core t"
  "core (t\<lparr>proc_link_exe := b\<rparr>) = core t" "core (t\<lparr>pending_exe := p\<rparr>) = core t" "core (t\<lparr>chown_valid := b\<rparr>) = core t"
  "core (t\<lparr>t_created := p\<rparr>) = core t" "core (t\<lparr>mount_handled := b\<rparr>) = core t"
  "core (t\<lparr>t_args := as\<rparr>) = core t" "core (t\<lparr>logged := b\<rparr>) = core t" "core (t\<lparr>last_entry := n\<rparr>) = core t"
  "core (t\<lparr>t_creds := c\<rparr>) = core t" "core (t\<lparr>t_exe := p\<rparr>) = core t"
  "core (t\<lparr>chown_dev := a\<rparr>) = core t" "core (t\<lparr>chown_ino := a\<rparr>) = core t" "core (t\<lparr>chown_cur_uid := u\<rparr>) = core t"
  "core (t\<lparr>chown_cur_gid := u\<rparr>) = core t" "core (t\<lparr>chown_uid := u\<rparr>) = core t" "core (t\<lparr>chown_gid := u\<rparr>) = core t"
  by (simp_all add: core_def book_def)

text \<open>What a step keeps: a part of the tracee that is none of a call's own fields, and what there is of the context
  besides the owner table.\<close>

locale kept_view =
  fixes part :: "tracee_t \<Rightarrow> 'a" and whole :: "emuroot_ctx \<Rightarrow> 'b" and view :: "sys \<Rightarrow> 'a \<times> 'b"
  assumes view_def: "view s = (part (s_tr s), whole (s_ctx s))"
    and whole_owners [simp]: "whole (c\<lparr>owners := d\<rparr>) = whole c"
    and part_upd [simp]:
      "part (t\<lparr>scratch_top := a\<rparr>) = part t" "part (t\<lparr>t_sysno := n\<rparr>) = part t" "part (t\<lparr>proc_link := b\<rparr>) = part t"
      "part (t\<lparr>proc_link_exe := b\<rparr>) = part t" "part (t\<lparr>pending_exe := p\<rparr>) = part t" "part (t\<lparr>chown_valid := b\<rparr>) = part t"
      "part (t\<lparr>t_created := p\<rparr>) = part t" "part (t\<lparr>mount_handled := b\<rparr>) = part t"
      "part (t\<lparr>t_args := as\<rparr>) = part t" "part (t\<lparr>logged := b\<rparr>) = part t" "part (t\<lparr>t_exe := p\<rparr>) = part t"
      "part (t\<lparr>chown_dev := a\<rparr>) = part t" "part (t\<lparr>chown_ino := a\<rparr>) = part t" "part (t\<lparr>chown_cur_uid := u\<rparr>) = part t"
      "part (t\<lparr>chown_cur_gid := u\<rparr>) = part t" "part (t\<lparr>chown_uid := u\<rparr>) = part t" "part (t\<lparr>chown_gid := u\<rparr>) = part t"
begin

lemma kept_upd [simp]:
  "view (s\<lparr>s_mem := m\<rparr>) = view s" "view (s\<lparr>s_regs := r\<rparr>) = view s" "view (s\<lparr>s_kregs := r\<rparr>) = view s"
  "view (s\<lparr>s_host := h\<rparr>) = view s" "view (s\<lparr>s_cache := c\<rparr>) = view s"
  "view (put_regs C s) = view s" "view (set_arg C n v s) = view s" "view (set_ret C v s) = view s"
  "view (fail_closed C n s) = view s"
  by (simp_all add: view_def fail_closed_def set_ret_def)

lemma kept_owners [simp]: "s_ctx s = c \<Longrightarrow> view (s\<lparr>s_ctx := c\<lparr>owners := d\<rparr>\<rparr>) = view s"
  by (auto simp: view_def)

lemma kept_upd_tr [simp]: "part (f (s_tr s)) = part (s_tr s) \<Longrightarrow> view (upd_tr f s) = view s"
  by (simp add: view_def)

lemma kept_tr: "s_tr s' = s_tr s \<Longrightarrow> s_ctx s' = s_ctx s \<Longrightarrow> view s' = view s"
  by (simp add: view_def)

lemma kept_scratch: "scratch n s = (a, s') \<Longrightarrow> view s' = view s"
  by (auto simp: scratch_def emuroot_scratch_def view_def Let_def split: prod.splits if_splits)

lemma kept_write_at: "write_at a bs s = (ok, s') \<Longrightarrow> view s' = view s"
  by (auto simp: write_at_def split: prod.splits)

subsection \<open>Steps at entry\<close>

lemma kept_point_at_copy [simp]: "view (point_at_copy C n h s) = view s"
proof -
  obtain a s1 where sc: "scratch (length h + 1) s = (a, s1)" by fastforce
  obtain ok s2 where w: "write_at a (str_bytes h @ [0]) s1 = (ok, s2)" by fastforce
  show ?thesis using kept_scratch [OF sc] kept_write_at [OF w] unfolding point_at_copy_def sc prod.case w by simp
qed

lemma kept_grant_access [simp]: "view (emuroot_grant_access C n w h s) = view s"
  by (rule kept_tr) simp_all

lemma kept_rewrite_path_arg [simp]: "view (rewrite_path_arg C n slot f w s) = view s"
  by (simp add: rewrite_path_arg_def Let_def split: option.split prod.split)

lemma kept_rewrite_sockaddr [simp]: "view (rewrite_sockaddr C as ls s) = view s"
proof -
  have w: "view (case write_at a bs s1 of (ok, u) \<Rightarrow> if ok then put_regs C (set_arg C k v (set_arg C as a u)) else fail_closed C as u) = view s"
    if "scratch SUN_SIZE s = (a, s1)" for a bs s1 k v
    using kept_scratch [OF that] kept_write_at [of a bs s1] by (cases "write_at a bs s1") simp
  obtain a s1 where sc: "scratch SUN_SIZE s = (a, s1)" by fastforce
  show ?thesis using w [OF sc] kept_scratch [OF sc]
    unfolding rewrite_sockaddr_def Let_def by (simp add: sc split: prod.split)
qed

lemma kept_note_creation [simp]: "view (emuroot_note_creation C n d s) = view s"
  by (simp add: emuroot_note_creation_def Let_def)

lemma kept_neutralize_id [simp]: "view (neutralize_id_change C a s) = view s"
  by (rule kept_tr) simp_all

lemma kept_note_chown [simp]: "view (note_chown C n d s) = view s"
  by (cases "chown_stat C n d s") (simp_all add: note_chown_def Let_def del: if_split)

lemma kept_identity [simp]: "view (emuroot_identity_entry C n a s) = view s"
  by (simp add: emuroot_identity_entry_def Let_def)

lemma kept_neutralize [simp]: "view (neutralize C slot r s) = view s"
proof -
  obtain a s1 where sc: "scratch 2 s = (a, s1)" by fastforce
  obtain ok s2 where w: "write_at a (str_bytes ''/'' @ [0]) s1 = (ok, s2)" by fastforce
  show ?thesis using kept_scratch [OF sc] kept_write_at [OF w] by (simp add: neutralize_def sc w)
qed

lemma kept_loader_argv0: "loader_has_argv0 p s = (ok, s') \<Longrightarrow> view s' = view s"
  by (auto simp: loader_has_argv0_def Let_def split: option.splits if_splits)

lemma kept_through_loader: "through_loader i s x = (s', x') \<Longrightarrow> view s' = view s"
  unfolding through_loader_def Let_def
  by (auto dest!: kept_loader_argv0 split: prod.splits if_split_asm simp del: fst_conv snd_conv)

lemma kept_exec_loop: "exec_loop d s x = (s', x') \<Longrightarrow> view s' = view s"
  by (induction d s x rule: exec_loop.induct)
    (auto simp: exec_loop.simps Let_def split: option.splits dest: kept_through_loader)

lemma kept_place_exec: "place_exec C p a x s = (r, s') \<Longrightarrow> view s' = view s"
  unfolding place_exec_def Let_def
  by (auto split: prod.splits if_split_asm dest!: kept_scratch kept_write_at)

lemma kept_rewrite_exec: "emuroot_rewrite_exec C p a s = (r, s') \<Longrightarrow> view s' = view s"
  unfolding emuroot_rewrite_exec_def Let_def
  by (auto split: option.splits if_split_asm prod.splits dest!: kept_exec_loop kept_place_exec)

lemma kept_entry_paths [simp]: "view (entry_paths C n d s) = view s"
  by (simp add: entry_paths_def Let_def)

lemma kept_entry_call [simp]: "view (entry_call C n s) = view s"
proof -
  obtain r s' where e: "(if is_sys C ''execve'' n then emuroot_rewrite_exec C 1 2 s else (0, s)) = (r, s')" by fastforce
  then have "view s' = view s" using kept_rewrite_exec [of C 1 2 s] by (auto split: if_splits)
  then show ?thesis by (simp add: entry_call_def e Let_def split: option.split)
qed

subsection \<open>Steps at exit\<close>

lemma kept_write_to [simp]: "view (write_to a bs s) = view s"
  by (rule kept_tr) simp_all

lemma kept_fake_owner [simp]: "view (fake_owner b l s) = view s"
  by (simp add: fake_owner_def Let_def split: option.split prod.split)

lemma kept_set_result [simp]: "view (set_result C r s) = view s"
  by (simp add: set_result_def)

lemma kept_exit_chown: "exit_chown ret s = (r, s') \<Longrightarrow> view s' = view s"
  by (auto simp: exit_chown_def Let_def split: if_splits)

lemma kept_exit_created [simp]: "view (exit_created ret s) = view s"
  by (simp add: exit_created_def Let_def split: option.split)

lemma kept_exit_getcwd [simp]: "view (exit_getcwd C ret s) = view s"
  by (auto simp: exit_getcwd_def Let_def split: option.split prod.split dest: kept_write_at)

lemma kept_map_proc_link [simp]: "view (map_proc_link C n s) = view s"
proof -
  have w: "view (case write_at b bs s of (ok, u) \<Rightarrow> if ok then u\<lparr>s_kregs := k u\<rparr> else u) = view s" for b bs k
    using kept_write_at [of b bs s] by (cases "write_at b bs s") simp
  show ?thesis unfolding map_proc_link_def Let_def by (simp only: w if_distrib [of "view"] if_cancel split: option.split) simp
qed

lemma kept_exit_uname [simp]: "view (exit_uname C ret s) = view s"
  by (simp add: exit_uname_def Let_def)

end

text \<open>Where bindings and the root in waiting do not matter the whole entry handler is such a step.\<close>

locale kept_by_entry = kept_view +
  assumes whole_bindings [simp]: "whole (c\<lparr>bindings := bs\<rparr>) = whole c"
    and part_pending [simp]: "part (t\<lparr>pending_root := p\<rparr>) = part t"
begin

lemma whole_mount [simp]: "whole (add_mount h host gt ht c) = whole c" "whole (snd (emuroot_unbind c gt)) = whole c"
  by (auto simp: add_mount_def emuroot_bind_def set_mount_def emuroot_unbind_def Let_def status_defs split: prod.split option.split)

lemma kept_ctx [simp]: "whole c = whole (s_ctx s) \<Longrightarrow> view (s\<lparr>s_ctx := c\<rparr>) = view s"
  by (simp add: view_def)

lemma kept_emulate [simp]:
  "view (emulate_chroot C n d s) = view s" "view (emulate_mount C n s) = view s" "view (emulate_umount C n s) = view s"
  by (simp_all add: emulate_chroot_def emulate_mount_def emulate_umount_def Let_def split: option.split)

lemma kept_emulate_mounts: "emuroot_emulate_mounts C n a s = (b, s') \<Longrightarrow> view s' = view s"
  by (auto simp: emuroot_emulate_mounts_def Let_def split: if_splits option.splits action.splits)

lemma kept_reset [simp]: "view (entry_reset C s) = view s"
  by (simp add: entry_reset_def)

lemma kept_on_entry [simp]: "view (emuroot_on_entry C s) = view s"
  by (simp add: emuroot_on_entry_def Let_def kept_emulate_mounts split: prod.split)

end

text \<open>Where credentials and root do not matter either, so is the exit handler.\<close>

locale kept_by_both = kept_by_entry +
  assumes part_exit [simp]: "part (t\<lparr>t_creds := c\<rparr>) = part t" "part (t\<lparr>t_root := p\<rparr>) = part t"
begin

lemma kept_exit_ids: "exit_ids C a ret s = (r, s') \<Longrightarrow> view s' = view s"
proof (cases "cred_op_of a (t_args (s_tr s)) s")
  case None
  then show "exit_ids C a ret s = (r, s') \<Longrightarrow> view s' = view s"
    by (cases a) (auto simp: exit_ids_def put_ids_def Let_def split: if_splits dest: kept_exit_chown)
next
  case (Some op)
  then show "exit_ids C a ret s = (r, s') \<Longrightarrow> view s' = view s"
    by (auto simp: exit_ids_def Let_def split: prod.splits)
qed

lemma kept_exit_action [simp]: "view (exit_action C a ret s) = view s"
  by (auto simp: exit_action_def exit_chroot_def Let_def dest: kept_exit_ids split: prod.split)

lemma kept_on_exit [simp]: "view (emuroot_on_exit C s) = view s"
  by (simp add: emuroot_on_exit_def Let_def split: option.split)

end

interpretation outl: kept_view core "\<lambda>c. c\<lparr>owners := None\<rparr>" outline
  by unfold_locales (simp_all add: outline_def)

lemma outline_upd_tr [simp]: "core (f (s_tr s)) = core (s_tr s) \<Longrightarrow> outline (upd_tr f s) = outline s"
  by (rule outl.kept_upd_tr)

lemma outline_exit_ids: "exit_ids C a ret s = (r, s') \<Longrightarrow> outline s' = outline s"
proof (cases "cred_op_of a (t_args (s_tr s)) s")
  case None
  then show "exit_ids C a ret s = (r, s') \<Longrightarrow> outline s' = outline s"
    by (cases a) (auto simp: exit_ids_def put_ids_def Let_def split: if_splits dest: outl.kept_exit_chown)
next
  case (Some op)
  then show "exit_ids C a ret s = (r, s') \<Longrightarrow> outline s' = outline s"
    by (auto simp: exit_ids_def Let_def split: prod.splits)
qed

text \<open>At exit only the root in waiting takes effect.\<close>

definition take_root :: "tracee_t \<Rightarrow> tracee_t" where
  "take_root t = t\<lparr>t_root := snprintf PATH_LEN (pending_root t), pending_root := []\<rparr>"

definition chroot_done :: "cfg \<Rightarrow> sys \<Rightarrow> bool" where
  "chroot_done C s \<longleftrightarrow> emuroot_action_of (c_nr C) (c_lp64 C) (t_sysno (s_tr s)) = Some A_CHROOT \<and> pending_root (s_tr s) \<noteq> []"

lemma outline_exit_action:
  "outline (exit_action C a ret s) =
     (if a = A_CHROOT \<and> pending_root (s_tr s) \<noteq> [] then outline (upd_tr take_root s) else outline s)"
proof -
  obtain r s' where e: "exit_ids C a ret s = (r, s')" by fastforce
  have t: "(\<lambda>t. t\<lparr>t_root := snprintf PATH_LEN (pending_root t), pending_root := []\<rparr>) = take_root"
    by (simp add: take_root_def fun_eq_iff)
  show ?thesis
  proof (cases "a = A_CHROOT \<and> pending_root (s_tr s) \<noteq> []")
    case True
    then show ?thesis by (simp add: exit_action_def exit_chroot_def t Let_def)
  next
    case False
    then show ?thesis using outline_exit_ids [OF e] by (auto simp: exit_action_def Let_def e)
  qed
qed

lemma core_created: "core (s_tr (exit_created ret s)) = core (s_tr s) \<and> t_sysno (s_tr (exit_created ret s)) = t_sysno (s_tr s)"
  by (simp add: exit_created_def Let_def split: option.split)

lemma outline_on_exit:
  "outline (emuroot_on_exit C s) = (if chroot_done C s then outline (upd_tr take_root s) else outline s)"
proof -
  have t: "core (take_root t) = core (take_root t')" if "core t = core t'" for t t'
    using that by (simp add: core_def take_root_def book_def)
  let ?s = "exit_created (sint (s_regs s (r_ret (c_arch C)))) s"
  have "outline (upd_tr take_root ?s) = outline (upd_tr take_root s)" for ret
    using t [of "s_tr ?s" "s_tr s"] core_created [of "sint (s_regs s (r_ret (c_arch C)))" s] outl.kept_exit_created [of "sint (s_regs s (r_ret (c_arch C)))" s]
    by (simp add: outline_def)
  moreover have "pending_root (s_tr ?s) = pending_root (s_tr s)" "t_sysno (s_tr ?s) = t_sysno (s_tr s)"
    using core_created [of "sint (s_regs s (r_ret (c_arch C)))" s] by (simp_all add: core_def)
  ultimately show ?thesis
    by (auto simp: emuroot_on_exit_def chroot_done_def outline_exit_action Let_def split: option.split)
qed

subsection \<open>The calls that change the name space\<close>

text \<open>A new call forgets the root in waiting; then a fake root's \<^verbatim>\<open>chroot\<close>, \<^verbatim>\<open>mount\<close> or \<^verbatim>\<open>umount\<close> may set it, or
  change the bindings.\<close>

definition entry_action :: "cfg \<Rightarrow> sys \<Rightarrow> action option" where
  "entry_action C s = emuroot_action_of (c_nr C) (c_lp64 C) (sint (s_regs s (r_sysno (c_arch C))))"

definition entry_identity :: "cfg \<Rightarrow> sys \<Rightarrow> sys" where
  "entry_identity C s =
     emuroot_identity_entry C (sint (s_regs s (r_sysno (c_arch C)))) (entry_action C s) (entry_reset C s)"

lemma outline_entry_reset:
  "outline (entry_reset C s) = ((book (s_tr s), t_root (s_tr s), []), (s_ctx s)\<lparr>owners := None\<rparr>)"
  by (simp add: entry_reset_def outline_def core_def book_def)

lemma outline_on_entry:
  "outline (emuroot_on_entry C s) =
     (if has_fake_ids (s_ctx s)
      then outline (snd (emuroot_emulate_mounts C (sint (s_regs s (r_sysno (c_arch C)))) (entry_action C s) (entry_identity C s)))
      else outline (entry_reset C s))"
  by (simp add: emuroot_on_entry_def entry_action_def entry_identity_def entry_reset_def Let_def split: prod.split)

lemma outline_emulate_chroot:
  "outline (emulate_chroot C n d s) =
     (case emuroot_host_path_arg C s n (ps_slot1 d) True of
        Some host \<Rightarrow> if guest_dir_exists (s_host s) host
          then outline (upd_tr (\<lambda>t. t\<lparr>pending_root := snprintf PATH_LEN (canonical (s_host s) host)\<rparr>) s) else outline s
      | None \<Rightarrow> outline s)"
  by (simp add: emulate_chroot_def split: option.split)

lemma outline_emulate_mount:
  "outline (emulate_mount C n s) =
     (case (emuroot_guest_path_arg C s n 2, mount_source C n s) of
        (Some (gt, ht), Some host) \<Rightarrow> outline (s\<lparr>s_ctx := add_mount (s_host s) host gt ht (s_ctx s)\<rparr>)
      | _ \<Rightarrow> outline s)"
  by (simp add: emulate_mount_def Let_def split: option.split prod.split)

lemma outline_emulate_umount:
  "outline (emulate_umount C n s) =
     (case emuroot_guest_path_arg C s n 1 of
        Some (gt, ht) \<Rightarrow> outline (s\<lparr>s_ctx := snd (emuroot_unbind (s_ctx s) gt)\<rparr>)
      | None \<Rightarrow> outline s)"
  by (simp add: emulate_umount_def split: option.split prod.split)

subsection \<open>The root of the context\<close>

definition root_view :: "sys \<Rightarrow> int \<times> string" where
  "root_view s = (t_pid (s_tr s), ctx_root (s_ctx s))"

interpretation root_kept: kept_by_both t_pid ctx_root root_view
  by unfold_locales (simp_all add: root_view_def)

lemma handler_root:
  "ctx_root (s_ctx (emuroot_on_exit C s)) = ctx_root (s_ctx s)"
  "ctx_root (s_ctx (emuroot_on_entry C s)) = ctx_root (s_ctx s)"
  using root_kept.kept_on_exit [of C s] root_kept.kept_on_entry [of C s] unfolding root_view_def by simp_all

subsection \<open>The loop's own fields\<close>

lemma book_outline: "book (s_tr s) = fst (fst (outline s))"
  by (simp add: outline_def core_def)

lemma book_upd [simp]: "book (t\<lparr>pending_root := p\<rparr>) = book t" "book (take_root t) = book t" "book (t\<lparr>t_root := p\<rparr>) = book t"
  "book (t\<lparr>t_creds := c\<rparr>) = book t" "book (t\<lparr>t_exe := p\<rparr>) = book t" "book (t\<lparr>last_entry := n\<rparr>) = book t"
  by (simp_all add: book_def take_root_def)

lemma book_emulate: "book (s_tr (snd (emuroot_emulate_mounts C n a s))) = book (s_tr s)"
proof -
  have "book (s_tr (emulate_chroot C n d s)) = book (s_tr s)" for d
    unfolding book_outline [of "emulate_chroot C n d s"] outline_emulate_chroot
    by (simp add: outline_def core_def split: option.split)
  moreover have "book (s_tr (emulate_mount C n s)) = book (s_tr s)"
    unfolding book_outline [of "emulate_mount C n s"] outline_emulate_mount
    by (simp add: outline_def core_def split: option.split prod.split)
  moreover have "book (s_tr (emulate_umount C n s)) = book (s_tr s)"
    unfolding book_outline [of "emulate_umount C n s"] outline_emulate_umount
    by (simp add: outline_def core_def split: option.split prod.split)
  ultimately show ?thesis
    by (simp add: emuroot_emulate_mounts_def Let_def split: option.split action.split)
qed

lemma book_on_entry: "book (s_tr (emuroot_on_entry C s)) = book (s_tr s)"
proof -
  have "book (s_tr (entry_identity C s)) = book (s_tr s)"
    unfolding book_outline [of "entry_identity C s"] by (simp add: entry_identity_def outline_entry_reset)
  then have "fst (fst (outline (snd (emuroot_emulate_mounts C n a (entry_identity C s))))) = book (s_tr s)" for n a
    using book_emulate [of C n a "entry_identity C s"] by (simp add: book_outline)
  then show ?thesis
    unfolding book_outline [of "emuroot_on_entry C s"] outline_on_entry by (simp add: outline_entry_reset)
qed

lemma book_on_exit: "book (s_tr (emuroot_on_exit C s)) = book (s_tr s)"
  unfolding book_outline [of "emuroot_on_exit C s"] outline_on_exit by (simp add: outline_def core_def)

end
