(* ===== verification/Ptrace.thy ===== *)
theory Ptrace
  imports Frame
begin

text \<open>
  \<^verbatim>\<open>ptrace.c\<close>: the table of traced processes, the handling of one stop, and the event loop. A stop brings
  what the tracer reads at it: the registers (\<open>None\<close> when \<open>regs_get\<close> fails), the event message, the
  process's memory and the host. A tracee pointer is its position in the table: pointers are used only
  until the next removal.
\<close>

record tracee_table_t =
  tt_v :: "tracee_t list"
  tt_cap :: nat

fun position :: "('a \<Rightarrow> bool) \<Rightarrow> 'a list \<Rightarrow> nat option" where
  "position P [] = None"
| "position P (x # xs) = (if P x then Some 0 else map_option Suc (position P xs))"

definition tracee_find :: "tracee_table_t \<Rightarrow> int \<Rightarrow> nat option" where
  "tracee_find tab pid = position (\<lambda>t. t_pid t = pid) (tt_v tab)"

definition tracee_inherit :: "tracee_t \<Rightarrow> tracee_t \<Rightarrow> tracee_t" where
  "tracee_inherit child parent =
     child\<lparr>t_creds := t_creds parent, t_exe := t_exe parent, t_root := t_root parent\<rparr>"

text \<open>\<open>mem n\<close> is whether \<open>n\<close> bytes are granted; a table entry is a pointer, a tracee the whole structure.\<close>

definition sizeof_tracee :: nat where "sizeof_tracee = 20808"

definition tracee_add :: "(nat \<Rightarrow> bool) \<Rightarrow> emuroot_ctx \<Rightarrow> int \<Rightarrow> tracee_t option \<Rightarrow> tracee_table_t \<Rightarrow>
    nat option \<times> tracee_table_t" where
  "tracee_add mem ctx pid parent tab =
     (let n = length (tt_v tab);
          cap = (if n = tt_cap tab then if tt_cap tab \<noteq> 0 then tt_cap tab * 2 else 64 else tt_cap tab)
      in if n = tt_cap tab \<and> \<not> mem (cap * 8) then (None, tab)
         else let tab = tab\<lparr>tt_cap := cap\<rparr>
         in if \<not> mem sizeof_tracee then (None, tab)
            else let t = zero_tracee\<lparr>t_pid := pid, t_root := snprintf PATH_LEN (ctx_root ctx), fresh := True\<rparr>;
                     t = (case parent of Some p \<Rightarrow> tracee_inherit t p
                          | None \<Rightarrow> t\<lparr>t_creds := creds_init (fake_uid ctx) (fake_gid ctx)\<rparr>)
                 in (Some n, tab\<lparr>tt_v := tt_v tab @ [t]\<rparr>))"

text \<open>The last entry takes the place of the removed one.\<close>

definition tracee_remove :: "nat \<Rightarrow> tracee_table_t \<Rightarrow> tracee_table_t" where
  "tracee_remove i tab = tab\<lparr>tt_v := butlast ((tt_v tab)[i := last (tt_v tab)])\<rparr>"

subsection \<open>One stop\<close>

record tracer =
  tr_ctx :: emuroot_ctx
  tr_tab :: tracee_table_t
  tr_cache :: "(string \<times> bool) list"

record stop =
  sp_pid :: int
  sp_status :: u32
  sp_regs :: "emuroot_regs_t option"
  sp_msg :: "u64 option"
  sp_mem :: mem
  sp_host :: host_t

definition WIFEXITED :: "u32 \<Rightarrow> bool" where "WIFEXITED st \<longleftrightarrow> st AND 0x7f = 0"
definition WEXITSTATUS :: "u32 \<Rightarrow> int" where "WEXITSTATUS st = sint (drop_bit 8 (st AND 0xff00))"
definition WTERMSIG :: "u32 \<Rightarrow> int" where "WTERMSIG st = sint (st AND 0x7f)"
definition WIFSIGNALED :: "u32 \<Rightarrow> bool" where
  "WIFSIGNALED st \<longleftrightarrow> sint (ucast ((st AND 0x7f) + 1) :: 8 word) div 2 > 0"
definition WIFSTOPPED :: "u32 \<Rightarrow> bool" where "WIFSTOPPED st \<longleftrightarrow> st AND 0xff = 0x7f"
definition WSTOPSIG :: "u32 \<Rightarrow> int" where "WSTOPSIG st = WEXITSTATUS st"

definition SIGKILL :: int where "SIGKILL = 9"
definition SIGTRAP :: int where "SIGTRAP = 5"
definition SIGSTOP :: int where "SIGSTOP = 19"
definition PTRACE_EVENT_FORK :: int where "PTRACE_EVENT_FORK = 1"
definition PTRACE_EVENT_VFORK :: int where "PTRACE_EVENT_VFORK = 2"
definition PTRACE_EVENT_CLONE :: int where "PTRACE_EVENT_CLONE = 3"
definition PTRACE_EVENT_SECCOMP :: int where "PTRACE_EVENT_SECCOMP = 7"

lemmas sig_defs = SIGTRAP_def SIGSTOP_def PTRACE_EVENT_FORK_def PTRACE_EVENT_VFORK_def PTRACE_EVENT_CLONE_def
  PTRACE_EVENT_SECCOMP_def

text \<open>What a handler leaves in the stopped process: its registers and memory.\<close>

type_synonym effect = "(emuroot_regs_t \<times> mem) option"

definition tracees :: "tracer \<Rightarrow> tracee_t list" where
  "tracees T = tt_v (tr_tab T)"

definition upd_tracee :: "nat \<Rightarrow> (tracee_t \<Rightarrow> tracee_t) \<Rightarrow> tracer \<Rightarrow> tracer" where
  "upd_tracee i f T = T\<lparr>tr_tab := (tr_tab T)\<lparr>tt_v := (tracees T)[i := f (tracees T ! i)]\<rparr>\<rparr>"

definition with_regs :: "(sys \<Rightarrow> sys) \<Rightarrow> stop \<Rightarrow> nat \<Rightarrow> tracer \<Rightarrow> effect \<times> tracer" where
  "with_regs handler st i T =
     (case sp_regs st of
        None \<Rightarrow> (None, T)
      | Some r \<Rightarrow>
          let s = handler \<lparr>s_ctx = tr_ctx T, s_tr = tracees T ! i, s_regs = r, s_kregs = r, s_mem = sp_mem st,
                    s_host = sp_host st, s_cache = tr_cache T\<rparr>
          in (Some (s_kregs s, s_mem s), upd_tracee i (\<lambda>_. s_tr s) (T\<lparr>tr_ctx := s_ctx s, tr_cache := s_cache s\<rparr>)))"

definition note_entry :: "cfg \<Rightarrow> sys \<Rightarrow> sys" where
  "note_entry C s = upd_tr (\<lambda>t. t\<lparr>last_entry := sint (s_regs s (r_sysno (c_arch C)))\<rparr>) s"

text \<open>A fork event: the child's number is the event message, 0 when that cannot be read.\<close>

definition fork_event :: "stop \<Rightarrow> nat \<Rightarrow> tracer \<Rightarrow> tracer" where
  "fork_event st i T =
     (let child = (case sp_msg st of Some m \<Rightarrow> sint (ucast m :: u32) | None \<Rightarrow> 0); t = tracees T ! i
      in case tracee_find (tr_tab T) child of
           Some c \<Rightarrow> upd_tracee c (\<lambda>c. tracee_inherit c t) T
         | None \<Rightarrow> T\<lparr>tr_tab := snd (tracee_add (h_calloc (sp_host st)) (tr_ctx T) child (Some t) (tr_tab T))\<rparr>)"

definition handle_stop :: "cfg \<Rightarrow> bool \<Rightarrow> stop \<Rightarrow> nat \<Rightarrow> tracer \<Rightarrow> int \<times> effect \<times> tracer" where
  "handle_stop C seccomp_mode st i T =
     (let sig = WSTOPSIG (sp_status st); event = sint (signed_drop_bit 16 (sp_status st)); t = tracees T ! i
      in if sig = 0x85 then
           if \<not> seccomp_mode then
             (case (if in_syscall t then with_regs (emuroot_on_exit C) st i T
                    else with_regs (emuroot_on_entry C \<circ> note_entry C) st i T) of
                (e, T) \<Rightarrow> (0, e, upd_tracee i (\<lambda>t. t\<lparr>in_syscall := \<not> in_syscall t\<rparr>) T))
           else if awaiting_exit t then
             (case with_regs (emuroot_on_exit C) st i T of
                (e, T) \<Rightarrow> (0, e, upd_tracee i (\<lambda>t. t\<lparr>awaiting_exit := False\<rparr>) T))
           else (0, None, T)
         else if event = PTRACE_EVENT_SECCOMP then
           (case with_regs (emuroot_on_entry C) st i T of
              (e, T) \<Rightarrow> (0, e, upd_tracee i (\<lambda>t. t\<lparr>awaiting_exit := True\<rparr>) T))
         else if event = PTRACE_EVENT_FORK \<or> event = PTRACE_EVENT_VFORK \<or> event = PTRACE_EVENT_CLONE then
           (0, None, fork_event st i T)
         else if sig = SIGSTOP \<and> fresh t then (0, None, upd_tracee i (\<lambda>t. t\<lparr>fresh := False\<rparr>) T)
         else if sig \<noteq> SIGTRAP then (sig, None, T)
         else (0, None, T))"

subsection \<open>The event loop\<close>

text \<open>What \<^verbatim>\<open>waitpid\<close> and the signal flag say: a signal asks the tracer to stop, the wait was interrupted,
  it failed, or a process has a status.\<close>

datatype wait_result = Stop_signal int | Interrupted | Wait_failed | Event stop

datatype request = PTRACE_CONT int int | PTRACE_SYSCALL int int

text \<open>The tracee a status is about: one not seen before its parent's fork event is added.\<close>

definition tracee_for :: "stop \<Rightarrow> tracer \<Rightarrow> nat option \<times> tracer" where
  "tracee_for st T =
     (case tracee_find (tr_tab T) (sp_pid st) of
        Some i \<Rightarrow> (Some i, T)
      | None \<Rightarrow>
          (case tracee_add (h_calloc (sp_host st)) (tr_ctx T) (sp_pid st) None (tr_tab T) of
             (i, tab) \<Rightarrow> (i, T\<lparr>tr_tab := tab\<rparr>)))"

text \<open>One pass of the loop: the code it ends with, the process it resumes, the state.\<close>

type_synonym pass = "int option \<times> (request \<times> effect) option \<times> tracer"

definition loop_step :: "cfg \<Rightarrow> bool \<Rightarrow> int \<Rightarrow> wait_result \<Rightarrow> tracer \<Rightarrow> pass" where
  "loop_step C seccomp_mode root_pid w T =
     (case w of
        Stop_signal n \<Rightarrow> (Some (128 + n), None, T)
      | Interrupted \<Rightarrow> (None, None, T)
      | Wait_failed \<Rightarrow> (Some EMUROOT_ERR_SYSTEM, None, T)
      | Event st \<Rightarrow>
          let pid = sp_pid st; status = sp_status st
          in case tracee_for st T of
               (None, T) \<Rightarrow> (None, None, T)
             | (Some i, T) \<Rightarrow>
                 if WIFEXITED status \<or> WIFSIGNALED status then
                   if pid = root_pid then
                     (Some (if WIFEXITED status then WEXITSTATUS status else 128 + WTERMSIG status), None, T)
                   else (None, None, T\<lparr>tr_tab := tracee_remove i (tr_tab T)\<rparr>)
                 else if \<not> WIFSTOPPED status then (None, None, T)
                 else (case handle_stop C seccomp_mode st i T of
                         (forward, e, T) \<Rightarrow>
                           (None, Some (if seccomp_mode \<and> \<not> awaiting_exit (tracees T ! i)
                                        then PTRACE_CONT pid forward else PTRACE_SYSCALL pid forward, e), T)))"

text \<open>The loop over what the waits return; \<open>None\<close>: it still waits after these.\<close>

fun event_loop :: "cfg \<Rightarrow> bool \<Rightarrow> int \<Rightarrow> wait_result list \<Rightarrow> tracer \<Rightarrow> (int \<times> tracer) option" where
  "event_loop C seccomp_mode root_pid [] T = None"
| "event_loop C seccomp_mode root_pid (w # ws) T =
     (case loop_step C seccomp_mode root_pid w T of
        (Some rc, _, T) \<Rightarrow> Some (rc, T)
      | (None, _, T) \<Rightarrow> event_loop C seccomp_mode root_pid ws T)"

subsection \<open>The whole run\<close>

text \<open>Canonical host paths, and where each binding is attached.\<close>

definition canon_binding :: "(string \<Rightarrow> string option) \<Rightarrow> binding_t \<Rightarrow> binding_t" where
  "canon_binding realpath b =
     (case realpath (b_host b) of Some c \<Rightarrow> b\<lparr>b_host := snprintf PATH_LEN c\<rparr> | None \<Rightarrow> b)"

definition attach_binding :: "string \<Rightarrow> binding_t \<Rightarrow> binding_t" where
  "attach_binding root b =
     (let m = snprintf PATH_LEN (root @ (if b_guest b = ''/'' then [] else b_guest b))
      in b\<lparr>b_mount := m, b_mount_len := length m\<rparr>)"

definition canonical_ctx :: "(string \<Rightarrow> string option) \<Rightarrow> emuroot_ctx \<Rightarrow> emuroot_ctx" where
  "canonical_ctx realpath ctx =
     (let root = (case (if ctx_root ctx \<noteq> [] then realpath (ctx_root ctx) else None) of
                    Some c \<Rightarrow> snprintf PATH_LEN c | None \<Rightarrow> ctx_root ctx);
          root = (if root = ''/'' then [] else root)
      in ctx\<lparr>ctx_root := root, bindings := map (attach_binding root \<circ> canon_binding realpath) (bindings ctx)\<rparr>)"

text \<open>What starting the guest meets: the results of the calls made on the way. \<open>bt_setopt\<close> is whether
  \<^verbatim>\<open>PTRACE_SETOPTIONS\<close> accepts the options.\<close>

record boot =
  bt_host :: host_t
  bt_supported :: bool
  bt_no_seccomp :: bool
  bt_no_exitkill :: bool
  bt_pipe :: bool
  bt_fork :: "int option"
  bt_traceme :: bool
  bt_same_parent :: bool
  bt_chdir :: "string \<Rightarrow> bool"
  bt_filter :: "int list \<Rightarrow> bool"
  bt_answer_sent :: bool
  bt_setopt :: "u64 \<Rightarrow> bool"
  bt_save :: bool

text \<open>The child up to its \<^verbatim>\<open>raise(SIGSTOP)\<close>: \<open>None\<close> when it exits with 127, else whether the filter is on.\<close>

definition guest_start :: "cfg \<Rightarrow> boot \<Rightarrow> string \<Rightarrow> bool option" where
  "guest_start C bt root =
     (if \<not> bt_traceme bt then None
      else if \<not> bt_same_parent bt then None
      else if root \<noteq> [] \<and> \<not> bt_chdir bt root then None
      else let installed = bt_supported bt \<and> \<not> bt_no_seccomp bt \<and> bt_filter bt (traced_syscalls (c_nr C) (c_lp64 C))
           in if \<not> bt_answer_sent bt then None else Some installed)"

definition ptrace_options :: "bool \<Rightarrow> u64" where
  "ptrace_options seccomp_mode = 1 OR 2 OR 4 OR 8 OR (if seccomp_mode then 0x80 else 0)"

definition EXITKILL :: u64 where "EXITKILL = 0x100000"

text \<open>The result of a run: the code returned, the processes killed at the end or on the way out, the context and
  what was written to the ids file.\<close>

record run_result =
  rr_rc :: int
  rr_killed :: "int list"
  rr_ctx :: emuroot_ctx
  rr_saved :: "string option"

definition give_up :: "int \<Rightarrow> int list \<Rightarrow> emuroot_ctx \<Rightarrow> run_result" where
  "give_up rc killed ctx = \<lparr>rr_rc = rc, rr_killed = killed, rr_ctx = ctx, rr_saved = None\<rparr>"

definition emuroot_run_ptrace :: "cfg \<Rightarrow> boot \<Rightarrow> emuroot_ctx \<Rightarrow> wait_result list \<Rightarrow> run_result option" where
  "emuroot_run_ptrace C bt ctx waits =
     (let ctx = canonical_ctx (h_realpath (bt_host bt)) ctx;
          ctx = (if ids_file ctx \<noteq> [] then
                   ctx\<lparr>owners := emuroot_owners_load (h_calloc (bt_host bt)) (owners ctx)
                      (map_option (map (char_of \<circ> unat)) (h_read (bt_host bt) (ids_file ctx)))\<rparr>
                 else ctx)
      in if \<not> bt_pipe bt then Some (give_up EMUROOT_ERR_SYSTEM [] ctx)
         else (case bt_fork bt of
           None \<Rightarrow> Some (give_up EMUROOT_ERR_SYSTEM [] ctx)
         | Some root_pid \<Rightarrow>
             let seccomp_mode = (guest_start C bt (ctx_root ctx) = Some True);
                 options = ptrace_options seccomp_mode;
                 exitkill = \<not> bt_no_exitkill bt \<and> bt_setopt bt (options OR EXITKILL)
             in if \<not> exitkill \<and> \<not> bt_setopt bt options then Some (give_up EMUROOT_ERR_UNSUPPORTED [root_pid] ctx)
                else (case tracee_add (h_calloc (bt_host bt)) ctx root_pid None \<lparr>tt_v = [], tt_cap = 0\<rparr> of
                  (None, _) \<Rightarrow> Some (give_up EMUROOT_ERR_SYSTEM [] ctx)
                | (Some i, tab) \<Rightarrow>
                    map_option (\<lambda>(rc, T).
                        \<lparr>rr_rc = rc, rr_killed = map t_pid (tracees T), rr_ctx = tr_ctx T,
                          rr_saved = (if ids_file (tr_ctx T) \<noteq> [] then emuroot_owners_save (bt_save bt) (owners (tr_ctx T)) else None)\<rparr>)
                      (event_loop C seccomp_mode root_pid waits
                        (upd_tracee i (\<lambda>t. t\<lparr>fresh := False\<rparr>) \<lparr>tr_ctx = ctx, tr_tab = tab, tr_cache = []\<rparr>)))))"

subsection \<open>The handlers keep the loop's own fields\<close>

text \<open>What the loop relies on in a handler.\<close>

locale stop_handler =
  fixes handler :: "sys \<Rightarrow> sys"
  assumes keeps_book: "book (s_tr (handler s)) = book (s_tr s)"
begin

lemma with_regs_books:
  "i < length (tracees T) \<Longrightarrow> map book (tracees (snd (with_regs handler st i T))) = map book (tracees T)"
  by (simp add: with_regs_def upd_tracee_def tracees_def keeps_book map_update Let_def split: option.split)
    (simp add: list_update_same_conv nth_map [symmetric] del: nth_map)

end

interpretation entry: stop_handler "emuroot_on_entry C" for C
  by unfold_locales (rule book_on_entry)

interpretation noted_entry: stop_handler "emuroot_on_entry C \<circ> note_entry C" for C
  by unfold_locales (simp add: book_on_entry note_entry_def)

interpretation exit: stop_handler "emuroot_on_exit C" for C
  by unfold_locales (rule book_on_exit)

subsection \<open>The table as a map\<close>

definition table_wf :: "tracee_table_t \<Rightarrow> bool" where
  "table_wf tab \<longleftrightarrow> distinct (map t_pid (tt_v tab)) \<and> length (tt_v tab) \<le> tt_cap tab"

definition procs :: "tracee_table_t \<Rightarrow> int \<rightharpoonup> tracee_t" where
  "procs tab = map_of (map (\<lambda>t. (t_pid t, t)) (tt_v tab))"

lemma position_Some: "position P xs = Some i \<Longrightarrow> i < length xs \<and> P (xs ! i)"
  by (induction xs arbitrary: i) (auto split: if_splits)

lemma position_None: "position P xs = None \<longleftrightarrow> (\<forall>x \<in> set xs. \<not> P x)"
  by (induction xs) auto

lemma procs_Some: "table_wf tab \<Longrightarrow> procs tab p = Some t \<longleftrightarrow> t \<in> set (tt_v tab) \<and> t_pid t = p"
  unfolding procs_def table_wf_def by (subst map_of_eq_Some_iff) (auto simp: comp_def)

lemma procs_find:
  assumes "table_wf tab" and "tracee_find tab p = Some i"
  shows "i < length (tt_v tab)" "t_pid (tt_v tab ! i) = p" "procs tab p = Some (tt_v tab ! i)"
  using position_Some [OF assms(2) [unfolded tracee_find_def]] assms(1) by (auto simp: procs_Some)

lemma procs_None: "procs tab p = None \<longleftrightarrow> (\<forall>t \<in> set (tt_v tab). t_pid t \<noteq> p)"
  by (force simp: procs_def map_of_eq_None_iff)

lemma procs_find_None: "tracee_find tab p = None \<longleftrightarrow> procs tab p = None"
  by (simp add: tracee_find_def position_None procs_None)

text \<open>A map is determined by its entries.\<close>

lemma procs_eqI:
  assumes "table_wf tab" and "\<And>p t. m p = Some t \<longleftrightarrow> t \<in> set (tt_v tab) \<and> t_pid t = p"
  shows "procs tab = m"
proof
  fix p
  have "procs tab p = Some t \<longleftrightarrow> m p = Some t" for t
    using procs_Some [OF assms(1), of p t] assms(2) [of p t] by simp
  then show "procs tab p = m p" by (cases "m p"; cases "procs tab p") auto
qed

text \<open>The tracee a new process starts as.\<close>

definition new_tracee :: "emuroot_ctx \<Rightarrow> int \<Rightarrow> tracee_t option \<Rightarrow> tracee_t" where
  "new_tracee ctx pid parent =
     (let t = zero_tracee\<lparr>t_pid := pid, t_root := snprintf PATH_LEN (ctx_root ctx), fresh := True\<rparr>
      in case parent of Some p \<Rightarrow> tracee_inherit t p
         | None \<Rightarrow> t\<lparr>t_creds := creds_init (fake_uid ctx) (fake_gid ctx)\<rparr>)"

lemma new_tracee_book [simp]: "book (new_tracee ctx pid parent) = (pid, False, False, True)" "t_pid (new_tracee ctx pid parent) = pid"
  by (simp_all add: new_tracee_def tracee_inherit_def book_def zero_tracee_def Let_def split: option.split)

lemma table_add:
  assumes wf: "table_wf tab" and new: "procs tab pid = None" and mem: "\<And>n. mem n" and add: "tracee_add mem ctx pid parent tab = (r, tab')"
  shows "table_wf tab'" "procs tab' = (procs tab)(pid \<mapsto> new_tracee ctx pid parent)" "r = tracee_find tab' pid"
    "tt_v tab' = tt_v tab @ [new_tracee ctx pid parent]" "r = Some (length (tt_v tab))"
proof -
  show v: "tt_v tab' = tt_v tab @ [new_tracee ctx pid parent]" and r: "r = Some (length (tt_v tab))"
    using add mem by (auto simp: tracee_add_def new_tracee_def Let_def split: if_splits)
  have cap: "length (tt_v tab') \<le> tt_cap tab'"
    using add mem wf by (auto simp: tracee_add_def table_wf_def Let_def split: if_splits)
  have fresh: "\<forall>t \<in> set (tt_v tab). t_pid t \<noteq> pid" using new by (simp add: procs_None)
  then show wf': "table_wf tab'" using wf cap by (auto simp: table_wf_def v)
  show "procs tab' = (procs tab)(pid \<mapsto> new_tracee ctx pid parent)"
    by (rule procs_eqI [OF wf']) (use fresh procs_Some [OF wf] in \<open>auto simp: v\<close>)
  have pos: "position (\<lambda>t. t_pid t = pid) (xs @ [x]) = Some (length xs)" if "\<forall>t \<in> set xs. t_pid t \<noteq> pid" "t_pid x = pid" for xs x
    using that by (induction xs) auto
  show "r = tracee_find tab' pid" using fresh pos [of "tt_v tab" "new_tracee ctx pid parent"] by (simp add: tracee_find_def v r)
qed

lemma butlast_update_last:
  assumes "distinct (map f xs)" and "i < length xs"
  shows "set (butlast (xs[i := last xs])) = set xs - {xs ! i}" "distinct (map f (butlast (xs[i := last xs])))"
proof -
  obtain ys y where xs: "xs = ys @ [y]" using assms(2) by (cases xs rule: rev_cases) auto
  have "set (butlast (xs[i := last xs])) = set xs - {xs ! i} \<and> distinct (map f (butlast (xs[i := last xs])))"
  proof (cases "i < length ys")
    case True
    have d: "distinct ys" "f y \<notin> f ` set ys" "y \<notin> set ys" using assms(1) by (auto simp: xs distinct_map)
    have "set (ys[i := y]) = insert y (set ys - {ys ! i})" using True d(1) by (simp add: set_update_distinct)
    moreover have "distinct (map f (ys[i := y]))"
      using assms(1) True d(2) by (simp add: xs map_update distinct_list_update)
    ultimately show ?thesis using True d(3) by (auto simp: xs nth_append list_update_append butlast_append nth_mem)
  next
    case False
    then show ?thesis using assms by (auto simp: xs nth_append list_update_append distinct_map less_Suc_eq)
  qed
  then show "set (butlast (xs[i := last xs])) = set xs - {xs ! i}" "distinct (map f (butlast (xs[i := last xs])))" by blast+
qed

lemma table_remove:
  assumes wf: "table_wf tab" and i: "tracee_find tab p = Some i"
  shows "table_wf (tracee_remove i tab)" "procs (tracee_remove i tab) = (procs tab)(p := None)"
proof -
  note f = procs_find [OF wf i]
  have d: "distinct (map t_pid (tt_v tab))" using wf by (simp add: table_wf_def)
  note b = butlast_update_last [OF d f(1)]
  show wf': "table_wf (tracee_remove i tab)"
    using wf b(2) by (auto simp: table_wf_def tracee_remove_def)
  have "t_pid t = p \<longleftrightarrow> t = tt_v tab ! i" if "t \<in> set (tt_v tab)" for t
    using d f(1,2) that by (metis distinct_map inj_on_def nth_mem)
  then show "procs (tracee_remove i tab) = (procs tab)(p := None)"
    by (intro procs_eqI [OF wf']) (auto simp: tracee_remove_def b(1) procs_Some [OF wf])
qed

lemma table_update:
  assumes wf: "table_wf (tr_tab T)" and i: "tracee_find (tr_tab T) p = Some i" and f: "t_pid (f (tracees T ! i)) = p"
  shows "table_wf (tr_tab (upd_tracee i f T))" "procs (tr_tab (upd_tracee i f T)) = (procs (tr_tab T))(p \<mapsto> f (tracees T ! i))"
    "tracee_find (tr_tab (upd_tracee i f T)) q = tracee_find (tr_tab T) q"
proof -
  let ?v = "tracees T" and ?T = "upd_tracee i f T"
  note g = procs_find [OF wf i, folded tracees_def]
  have v: "tt_v (tr_tab ?T) = ?v[i := f (?v ! i)]" "tt_cap (tr_tab ?T) = tt_cap (tr_tab T)"
    by (simp_all add: upd_tracee_def tracees_def)
  have m: "map t_pid (?v[i := f (?v ! i)]) = map t_pid ?v"
    using f g(1,2) by (simp add: map_update list_update_same_conv)
  show wf': "table_wf (tr_tab ?T)" using wf m by (simp add: table_wf_def v tracees_def)
  have d: "distinct ?v" "distinct (map t_pid ?v)" using wf by (auto simp: table_wf_def tracees_def distinct_map)
  have "t_pid t = p \<longleftrightarrow> t = ?v ! i" if "t \<in> set ?v" for t
    using d(2) g(1,2) that by (metis distinct_map inj_on_def nth_mem)
  moreover have s: "set (tt_v (tr_tab ?T)) = insert (f (?v ! i)) (set ?v - {?v ! i})"
    unfolding v by (rule set_update_distinct [OF d(1) g(1)])
  ultimately show "procs (tr_tab ?T) = (procs (tr_tab T))(p \<mapsto> f (?v ! i))"
    using f by (intro procs_eqI [OF wf']) (auto simp: s procs_Some [OF wf] tracees_def [symmetric])
  have "position (\<lambda>t. t_pid t = q) xs = position (\<lambda>t. t_pid t = q) ys" if "map t_pid xs = map t_pid ys" for xs ys
    using that by (induction xs ys rule: list_induct2') auto
  then show "tracee_find (tr_tab ?T) q = tracee_find (tr_tab T) q"
    using m by (simp add: tracee_find_def v) (simp add: tracees_def)
qed

subsection \<open>The protocol the loop follows\<close>

text \<open>Per process: inside a call (plain mode), waiting for a call's exit (seccomp mode), new.\<close>

type_synonym books = "int \<rightharpoonup> bool \<times> bool \<times> bool"

definition books :: "tracer \<Rightarrow> books" where
  "books T = map_option (snd \<circ> book) \<circ> procs (tr_tab T)"

definition ends :: "stop \<Rightarrow> bool" where
  "ends st \<longleftrightarrow> WIFEXITED (sp_status st) \<or> WIFSIGNALED (sp_status st)"

definition event_of :: "stop \<Rightarrow> int" where
  "event_of st = sint (signed_drop_bit 16 (sp_status st))"

definition is_fork :: "stop \<Rightarrow> bool" where
  "is_fork st \<longleftrightarrow> event_of st \<in> {PTRACE_EVENT_FORK, PTRACE_EVENT_VFORK, PTRACE_EVENT_CLONE}"

definition syscall_stop :: "stop \<Rightarrow> bool" where
  "syscall_stop st \<longleftrightarrow> WSTOPSIG (sp_status st) = 0x85"

definition child_of :: "stop \<Rightarrow> int" where
  "child_of st = (case sp_msg st of Some m \<Rightarrow> sint (ucast m :: u32) | None \<Rightarrow> 0)"

definition seen :: "int \<Rightarrow> books \<Rightarrow> books" where
  "seen p m = (if m p = None then m(p \<mapsto> (False, False, True)) else m)"

fun stop_book :: "bool \<Rightarrow> stop \<Rightarrow> bool \<times> bool \<times> bool \<Rightarrow> bool \<times> bool \<times> bool" where
  "stop_book seccomp_mode st (inside, awaiting, new) =
     (if syscall_stop st then if seccomp_mode then (inside, False, new) else (\<not> inside, awaiting, new)
      else if event_of st = PTRACE_EVENT_SECCOMP then (inside, True, new)
      else if is_fork st then (inside, awaiting, new)
      else if WSTOPSIG (sp_status st) = SIGSTOP then (inside, awaiting, False)
      else (inside, awaiting, new))"

definition stop_books :: "bool \<Rightarrow> stop \<Rightarrow> books \<Rightarrow> books" where
  "stop_books seccomp_mode st m =
     (let m = seen (sp_pid st) m
      in if ends st then m(sp_pid st := None)
         else if \<not> WIFSTOPPED (sp_status st) then m
         else let m = m(sp_pid st \<mapsto> stop_book seccomp_mode st (the (m (sp_pid st))))
         in if \<not> syscall_stop st \<and> event_of st \<noteq> PTRACE_EVENT_SECCOMP \<and> is_fork st then seen (child_of st) m else m)"

fun wait_books :: "bool \<Rightarrow> wait_result \<Rightarrow> books \<Rightarrow> books" where
  "wait_books seccomp_mode (Event st) m = stop_books seccomp_mode st m"
| "wait_books seccomp_mode _ m = m"

text \<open>Runs of the loop, and what they assume of the allocator.\<close>

inductive runs :: "cfg \<Rightarrow> bool \<Rightarrow> int \<Rightarrow> tracer \<Rightarrow> wait_result list \<Rightarrow> tracer \<Rightarrow> bool"
  for C seccomp_mode root_pid T0 where
  runs_start: "runs C seccomp_mode root_pid T0 [] T0"
| runs_pass: "runs C seccomp_mode root_pid T0 ws T \<Longrightarrow> loop_step C seccomp_mode root_pid w T = (None, r, T') \<Longrightarrow>
    runs C seccomp_mode root_pid T0 (ws @ [w]) T'"

fun granted :: "wait_result \<Rightarrow> bool" where
  "granted (Event st) \<longleftrightarrow> h_calloc (sp_host st) = (\<lambda>n. True)"
| "granted _ \<longleftrightarrow> True"

lemma event_loop_runs:
  "runs C sm root T0 ws T \<Longrightarrow> event_loop C sm root (ws @ ws') T0 = event_loop C sm root ws' T"
  by (induction arbitrary: ws' rule: runs.induct) simp_all

lemma books_add:
  assumes "table_wf (tr_tab T)" and "procs (tr_tab T) pid = None" and "mem = (\<lambda>n. True)"
    and "tracee_add mem ctx pid parent (tr_tab T) = (r, tab)"
  shows "table_wf tab" "books (T\<lparr>tr_tab := tab\<rparr>) = seen pid (books T)" "r = tracee_find tab pid" "r \<noteq> None"
proof -
  note a = table_add [OF assms(1,2) _ assms(4)]
  show "table_wf tab" "r = tracee_find tab pid" using a(1,3) assms(3) by simp_all
  show "r \<noteq> None" using a(5) assms(3) by simp
  show "books (T\<lparr>tr_tab := tab\<rparr>) = seen pid (books T)"
    using a(2) assms(2,3) by (auto simp: books_def seen_def fun_eq_iff)
qed

lemma books_update:
  assumes "table_wf (tr_tab T)" and "tracee_find (tr_tab T) p = Some i" and "t_pid (f (tracees T ! i)) = p"
  shows "table_wf (tr_tab (upd_tracee i f T))" "books (upd_tracee i f T) = (books T)(p \<mapsto> snd (book (f (tracees T ! i))))"
    "tracee_find (tr_tab (upd_tracee i f T)) q = tracee_find (tr_tab T) q"
  using table_update [where f = f, OF assms] by (auto simp: books_def fun_eq_iff)

lemma books_found:
  assumes "table_wf (tr_tab T)" and "tracee_find (tr_tab T) p = Some i"
  shows "books T p = Some (snd (book (tracees T ! i)))" "t_pid (tracees T ! i) = p" "i < length (tracees T)"
  using procs_find [OF assms] by (simp_all add: books_def tracees_def)

lemma tracee_for_books:
  assumes wf: "table_wf (tr_tab T)" and mem: "granted (Event st)" and t: "tracee_for st T = (r, T1)"
  shows "\<exists>i. r = Some i \<and> tracee_find (tr_tab T1) (sp_pid st) = Some i" "table_wf (tr_tab T1)"
    "books T1 = seen (sp_pid st) (books T)"
proof -
  have "(\<exists>i. r = Some i \<and> tracee_find (tr_tab T1) (sp_pid st) = Some i) \<and> table_wf (tr_tab T1) \<and>
    books T1 = seen (sp_pid st) (books T)"
  proof (cases "tracee_find (tr_tab T) (sp_pid st)")
    case None
    obtain r' tab where a: "tracee_add (h_calloc (sp_host st)) (tr_ctx T) (sp_pid st) None (tr_tab T) = (r', tab)" by fastforce
    note b = books_add [OF wf None [unfolded procs_find_None] _ a]
    show ?thesis using b mem t None a by (auto simp: tracee_for_def not_None_eq)
  next
    case (Some i)
    then have "T1 = T" "r = Some i" using t by (simp_all add: tracee_for_def)
    then show ?thesis using wf Some books_found [OF wf Some] by (simp add: seen_def)
  qed
  then show "\<exists>i. r = Some i \<and> tracee_find (tr_tab T1) (sp_pid st) = Some i" "table_wf (tr_tab T1)"
    "books T1 = seen (sp_pid st) (books T)" by blast+
qed

context stop_handler begin

lemma with_regs_table:
  assumes wf: "table_wf (tr_tab T)" and i: "tracee_find (tr_tab T) p = Some i" and w: "with_regs handler st i T = (e, T')"
  shows "table_wf (tr_tab T')" "books T' = books T" "tracee_find (tr_tab T') p = Some i" "book (tracees T' ! i) = book (tracees T ! i)"
proof -
  note b = books_found [OF wf i]
  have "table_wf (tr_tab T') \<and> books T' = books T \<and> tracee_find (tr_tab T') p = Some i"
  proof (cases "sp_regs st")
    case None
    then show ?thesis using w wf i by (simp add: with_regs_def)
  next
    case (Some r)
    let ?before = "\<lparr>s_ctx = tr_ctx T, s_tr = tracees T ! i, s_regs = r, s_kregs = r, s_mem = sp_mem st, s_host = sp_host st, s_cache = tr_cache T\<rparr>"
    let ?s = "handler ?before"
    let ?T = "T\<lparr>tr_ctx := s_ctx ?s, tr_cache := s_cache ?s\<rparr>"
    have T': "T' = upd_tracee i (\<lambda>_. s_tr ?s) ?T" using w Some by (simp add: with_regs_def Let_def)
    have k: "book (s_tr ?s) = book (tracees T ! i)" using keeps_book [of ?before] by simp
    have t: "tr_tab ?T = tr_tab T" "tracees ?T = tracees T" "books ?T = books T" by (simp_all add: tracees_def books_def)
    have p: "t_pid (s_tr ?s) = p" using k b(2) by (simp add: book_def)
    note u = books_update [of ?T p i "\<lambda>_. s_tr ?s", unfolded t, OF wf i p]
    have "(books T)(p \<mapsto> snd (book (s_tr ?s))) = books T" using k b(1) by auto
    then show ?thesis using u i unfolding T' by simp
  qed
  then show wf': "table_wf (tr_tab T')" and bs: "books T' = books T" and f: "tracee_find (tr_tab T') p = Some i" by blast+
  show "book (tracees T' ! i) = book (tracees T ! i)"
    using books_found [OF wf' f] b bs by (auto simp: book_def)
qed

end

lemma fork_event_books:
  assumes wf: "table_wf (tr_tab T)" and i: "tracee_find (tr_tab T) p = Some i" and mem: "granted (Event st)"
    and T': "T' = fork_event st i T"
  shows "table_wf (tr_tab T')" "books T' = seen (child_of st) (books T)"
proof -
  have "table_wf (tr_tab T') \<and> books T' = seen (child_of st) (books T)"
  proof (cases "tracee_find (tr_tab T) (child_of st)")
    case None
    obtain r tab where a: "tracee_add (h_calloc (sp_host st)) (tr_ctx T) (child_of st) (Some (tracees T ! i)) (tr_tab T) = (r, tab)" by fastforce
    have "T' = T\<lparr>tr_tab := tab\<rparr>" using T' None a by (simp add: fork_event_def child_of_def Let_def)
    then show ?thesis using books_add [OF wf None [unfolded procs_find_None] _ a] mem by simp
  next
    case (Some c)
    have T'': "T' = upd_tracee c (\<lambda>c. tracee_inherit c (tracees T ! i)) T"
      using T' Some by (simp add: fork_event_def child_of_def Let_def)
    note b = books_found [OF wf Some]
    have "book (tracee_inherit c t) = book c" for c t by (simp add: tracee_inherit_def)
    moreover have "t_pid (tracee_inherit (tracees T ! c) (tracees T ! i)) = child_of st" using b(2) by (simp add: tracee_inherit_def)
    note u = books_update [OF wf Some, where f = "\<lambda>c. tracee_inherit c (tracees T ! i)", OF this]
    ultimately show ?thesis using u(1,2) b(1) by (auto simp: T'' seen_def)
  qed
  then show "table_wf (tr_tab T')" "books T' = seen (child_of st) (books T)" by blast+
qed

lemma upd_book:
  assumes wf: "table_wf (tr_tab T)" and i: "tracee_find (tr_tab T) p = Some i" and b: "book (tracees T ! i) = (p, b0)"
    and f: "book (f (tracees T ! i)) = (p, b1)"
  shows "table_wf (tr_tab (upd_tracee i f T))" "books (upd_tracee i f T) = (books T)(p \<mapsto> b1)"
    "tracee_find (tr_tab (upd_tracee i f T)) p = Some i"
proof -
  have "t_pid (f (tracees T ! i)) = p" using f by (simp add: book_def)
  note u = books_update [where f = f, OF wf i this]
  show "table_wf (tr_tab (upd_tracee i f T))" "books (upd_tracee i f T) = (books T)(p \<mapsto> b1)"
    "tracee_find (tr_tab (upd_tracee i f T)) p = Some i"
    using u f i by simp_all
qed

lemma handle_stop_books:
  assumes wf: "table_wf (tr_tab T)" and i: "tracee_find (tr_tab T) (sp_pid st) = Some i" and mem: "granted (Event st)"
    and h: "handle_stop C sm st i T = (sig, e, T')"
  shows "table_wf (tr_tab T')" "books T' =
      (let m = (books T)(sp_pid st \<mapsto> stop_book sm st (the (books T (sp_pid st))))
       in if \<not> syscall_stop st \<and> event_of st \<noteq> PTRACE_EVENT_SECCOMP \<and> is_fork st then seen (child_of st) m else m)"
proof -
  let ?p = "sp_pid st"
  obtain a b n where bk: "book (tracees T ! i) = (?p, a, b, n)" and t: "in_syscall (tracees T ! i) = a"
      "awaiting_exit (tracees T ! i) = b" "fresh (tracees T ! i) = n"
    using books_found(2) [OF wf i] by (simp add: book_def)
  have bs: "books T ?p = Some (a, b, n)" using books_found(1) [OF wf i] bk by simp
  have same: "(books T)(?p \<mapsto> (a, b, n)) = books T" using bs by auto
  have after: "table_wf (tr_tab (upd_tracee i f U)) \<and> books (upd_tracee i f U) = (books T)(?p \<mapsto> b1)"
    if "stop_handler hd" "with_regs hd st i T = (e, U)" "\<And>t. book t = (?p, a, b, n) \<Longrightarrow> book (f t) = (?p, b1)" for hd e U f b1
  proof -
    note w = stop_handler.with_regs_table [OF that(1) wf i that(2)]
    have "book (tracees U ! i) = (?p, a, b, n)" using w(4) bk by simp
    then show ?thesis using upd_book [OF w(1,3) _ that(3)] w(2) by simp
  qed
  note entry = after [OF entry.stop_handler_axioms] and noted = after [OF noted_entry.stop_handler_axioms]
    and exit = after [OF exit.stop_handler_axioms]
  have "table_wf (tr_tab T') \<and> books T' =
      (let m = (books T)(?p \<mapsto> stop_book sm st (the (books T ?p)))
       in if \<not> syscall_stop st \<and> event_of st \<noteq> PTRACE_EVENT_SECCOMP \<and> is_fork st then seen (child_of st) m else m)"
  proof (cases "syscall_stop st")
    case True
    then have s: "WSTOPSIG (sp_status st) = 0x85" by (simp add: syscall_stop_def)
    show ?thesis
    proof (cases "\<not> sm \<or> b")
      case False
      then have "T' = T" using h s t by (simp add: handle_stop_def Let_def)
      then show ?thesis using False True wf bs same by (simp add: fun_upd_idem)
    next
      case alive: True
      let ?f = "if sm then (\<lambda>t. t\<lparr>awaiting_exit := False\<rparr>) else (\<lambda>t. t\<lparr>in_syscall := (\<not> in_syscall t)\<rparr>)"
      define hd where "hd = (if sm \<or> a then emuroot_on_exit C else emuroot_on_entry C \<circ> note_entry C)"
      have sh: "stop_handler hd"
        using exit.stop_handler_axioms noted_entry.stop_handler_axioms by (simp add: hd_def)
      obtain e1 U where w: "with_regs hd st i T = (e1, U)" by fastforce
      have "e1 = e \<and> T' = upd_tracee i ?f U"
        using h w s t alive by (cases sm; cases a) (simp_all add: handle_stop_def hd_def Let_def)
      then have U: "T' = upd_tracee i ?f U" "with_regs hd st i T = (e, U)" "stop_handler hd" using w sh by simp_all
      have "book (?f t) = (?p, stop_book sm st (a, b, n))" if "book t = (?p, a, b, n)" for t
        using that True by (auto simp: book_def)
      from after [OF U(3,2) this] show ?thesis using True bs by (simp add: U(1))
    qed
  next
    case not_sys: False
    then have s: "WSTOPSIG (sp_status st) \<noteq> 0x85" by (simp add: syscall_stop_def)
    show ?thesis
    proof (cases "event_of st = PTRACE_EVENT_SECCOMP")
      case True
      then obtain U where U: "with_regs (emuroot_on_entry C) st i T = (e, U)" "T' = upd_tracee i (\<lambda>t. t\<lparr>awaiting_exit := True\<rparr>) U"
        using h s by (auto simp: handle_stop_def event_of_def Let_def split: prod.splits)
      have "book (t\<lparr>awaiting_exit := True\<rparr>) = (?p, a, True, n)" if "book t = (?p, a, b, n)" for t
        using that by (auto simp: book_def)
      from entry [OF U(1) this] show ?thesis using not_sys True bs by (simp add: U(2))
    next
      case not_seccomp: False
      show ?thesis
      proof (cases "is_fork st")
        case True
        then have "T' = fork_event st i T"
          using h s not_seccomp by (auto simp: handle_stop_def event_of_def is_fork_def Let_def)
        then show ?thesis using fork_event_books [OF wf i mem] not_sys not_seccomp True bs by (simp add: fun_upd_idem)
      next
        case False
        have fr: "book (t\<lparr>fresh := False\<rparr>) = (?p, a, b, False)" if "book t = (?p, a, b, n)" for t
          using that by (auto simp: book_def)
        have "T' = (if WSTOPSIG (sp_status st) = SIGSTOP \<and> n then upd_tracee i (\<lambda>t. t\<lparr>fresh := False\<rparr>) T else T)"
          using h s not_seccomp False t by (auto simp: handle_stop_def event_of_def is_fork_def Let_def split: if_splits)
        then show ?thesis
          using upd_book [where f = "\<lambda>t. t\<lparr>fresh := False\<rparr>", OF wf i bk fr [OF bk]] not_sys not_seccomp False wf bs by (cases n) (auto simp: fun_upd_idem Let_def)
      qed
    qed
  qed
  then show "table_wf (tr_tab T')" "books T' =
      (let m = (books T)(?p \<mapsto> stop_book sm st (the (books T ?p)))
       in if \<not> syscall_stop st \<and> event_of st \<noteq> PTRACE_EVENT_SECCOMP \<and> is_fork st then seen (child_of st) m else m)"
    by blast+
qed

lemma loop_step_books:
  assumes wf: "table_wf (tr_tab T)" and mem: "granted w" and l: "loop_step C sm root w T = (None, r, T')"
  shows "table_wf (tr_tab T') \<and> books T' = wait_books sm w (books T)"
proof (cases w)
  case (Event st)
  obtain i T1 where f: "tracee_for st T = (Some i, T1)" and wf1: "table_wf (tr_tab T1)"
    and b1: "books T1 = seen (sp_pid st) (books T)" and i: "tracee_find (tr_tab T1) (sp_pid st) = Some i"
    using tracee_for_books [OF wf mem [unfolded Event]] by (cases "tracee_for st T") fastforce
  show ?thesis
  proof (cases "ends st")
    case True
    then have "T' = T1\<lparr>tr_tab := tracee_remove i (tr_tab T1)\<rparr>"
      using l Event f by (auto simp: loop_step_def ends_def Let_def split: if_splits)
    then show ?thesis using table_remove [OF wf1 i] True Event b1 [symmetric]
      by (auto simp: stop_books_def books_def fun_eq_iff Let_def)
  next
    case False
    show ?thesis
    proof (cases "WIFSTOPPED (sp_status st)")
      case True
      obtain sig e where h: "handle_stop C sm st i T1 = (sig, e, T')"
        using l Event f False True by (auto simp: loop_step_def ends_def Let_def split: prod.splits)
      show ?thesis using handle_stop_books [OF wf1 i mem [unfolded Event] h] False True Event b1
        by (simp add: stop_books_def Let_def)
    next
      case no: False
      then have "T' = T1" using l Event f False by (auto simp: loop_step_def ends_def Let_def)
      then show ?thesis using wf1 b1 Event False no by (simp add: stop_books_def Let_def)
    qed
  qed
qed (use l wf in \<open>auto simp: loop_step_def\<close>)

lemma runs_books:
  assumes "runs C sm root T0 ws T" and "table_wf (tr_tab T0)" and "\<forall>w \<in> set ws. granted w"
  shows "table_wf (tr_tab T) \<and> books T = fold (wait_books sm) ws (books T0)"
  using assms(1,3)
proof (induction rule: runs.induct)
  case runs_start
  show ?case using assms(2) by simp
next
  case (runs_pass ws T w r T')
  then show ?case using loop_step_books [of T w C sm root r T'] by simp
qed

text \<open>C13: the loop keeps its table and follows the protocol. While memory is granted, every pass, whatever the
  order in which stops, exits and fork events of the processes arrive, keeps the table's process numbers
  distinct and within its capacity, and changes the loop's own fields of each process (inside a call, awaiting an
  exit, new) exactly as the protocol automaton \<open>wait_books\<close> says: a stop of one process changes those of no
  other, and the entry and exit handlers change none.\<close>

theorem loop_follows_protocol:
  assumes "runs C sm root T0 ws T" and "table_wf (tr_tab T0)" and "\<forall>w \<in> set ws. granted w"
  shows "table_wf (tr_tab T) \<and> books T = fold (wait_books sm) ws (books T0)"
  by (rule runs_books [OF assms])

subsection \<open>Which handler a stop goes to\<close>

text \<open>Whether process \<open>p\<close> is inside a call the tracer has seen enter.\<close>

fun phase :: "bool \<Rightarrow> int \<Rightarrow> wait_result \<Rightarrow> bool \<Rightarrow> bool" where
  "phase seccomp_mode p (Event st) inside =
     (if sp_pid st \<noteq> p then inside
      else if ends st then False
      else if \<not> WIFSTOPPED (sp_status st) then inside
      else if syscall_stop st then \<not> seccomp_mode \<and> \<not> inside
      else if event_of st = PTRACE_EVENT_SECCOMP then seccomp_mode \<or> inside
      else inside)"
| "phase seccomp_mode p _ inside = inside"

definition inside_of :: "bool \<Rightarrow> books \<Rightarrow> int \<Rightarrow> bool" where
  "inside_of seccomp_mode m p = (case m p of None \<Rightarrow> False | Some (a, b, n) \<Rightarrow> if seccomp_mode then b else a)"

lemma inside_seen [simp]: "inside_of sm (seen q m) p = inside_of sm m p"
  by (simp add: inside_of_def seen_def)

lemma inside_upd:
  "inside_of sm (m(q \<mapsto> x)) p = (if p = q then inside_of sm [q \<mapsto> x] q else inside_of sm m p)"
  "inside_of sm (m(q := None)) p = (p \<noteq> q \<and> inside_of sm m p)"
  by (simp_all add: inside_of_def)

lemma inside_stop_book:
  assumes "m q = Some x"
  shows "inside_of sm [q \<mapsto> stop_book sm st x] q =
    (if syscall_stop st then \<not> sm \<and> \<not> inside_of sm m q
     else if event_of st = PTRACE_EVENT_SECCOMP then sm \<or> inside_of sm m q else inside_of sm m q)"
  using assms by (cases x) (simp add: inside_of_def)

lemma inside_wait: "inside_of sm (wait_books sm w m) p = phase sm p w (inside_of sm m p)"
proof (cases w)
  case (Event st)
  let ?q = "sp_pid st" and ?m = "seen (sp_pid st) m"
  obtain x where x: "?m ?q = Some x" by (cases "m ?q") (auto simp: seen_def)
  note i = inside_stop_book [of ?m ?q x sm st, OF x, unfolded inside_seen]
  consider "ends st" | "\<not> ends st" "\<not> WIFSTOPPED (sp_status st)" | "\<not> ends st" "WIFSTOPPED (sp_status st)" by blast
  then show ?thesis
  proof cases
    case 1
    then show ?thesis by (simp add: Event stop_books_def inside_upd Let_def)
  next
    case 2
    then show ?thesis by (simp add: Event stop_books_def Let_def)
  next
    case 3
    let ?m1 = "?m(?q \<mapsto> stop_book sm st x)"
    have "inside_of sm (wait_books sm w m) p = inside_of sm ?m1 p" using 3 x by (simp add: Event stop_books_def Let_def)
    also have "\<dots> = (if p = ?q then inside_of sm [?q \<mapsto> stop_book sm st x] ?q else inside_of sm m p)"
      unfolding inside_upd(1) [of sm ?m] inside_seen ..
    finally show ?thesis using 3 i by (cases "p = ?q") (simp_all add: Event)
  qed
qed simp_all

lemma inside_run: "inside_of sm (fold (wait_books sm) ws m) p = fold (phase sm p) ws (inside_of sm m p)"
  by (induction ws arbitrary: m) (simp_all add: inside_wait)

text \<open>The state of the tracer when the loop begins: the table holds the guest's first process.\<close>

definition started :: "int \<Rightarrow> tracer \<Rightarrow> bool" where
  "started root_pid T \<longleftrightarrow> table_wf (tr_tab T) \<and> map book (tracees T) = [(root_pid, False, False, False)]"

lemma started_books:
  assumes "started root T" shows "books T = [root \<mapsto> (False, False, False)]" "table_wf (tr_tab T)"
proof -
  show "table_wf (tr_tab T)" using assms by (simp add: started_def)
  obtain t where t: "tt_v (tr_tab T) = [t]" "book t = (root, False, False, False)"
    using assms by (cases "tt_v (tr_tab T)") (auto simp: started_def tracees_def)
  then have "t_pid t = root" by (simp add: book_def)
  then show "books T = [root \<mapsto> (False, False, False)]" using t by (simp add: books_def procs_def fun_eq_iff)
qed

text \<open>C8: every call's entry and exit are told apart. Whatever has happened since the start, interleaved in any
  way, the stop of a process is given to the exit handler exactly when the process is inside a call by its own
  stops alone (\<open>phase\<close>: in plain mode each of its syscall stops toggles this; with the seccomp filter the
  filter's event enters and the next syscall stop leaves), and otherwise to the entry handler when it is an
  entry; a process whose number is reused after an exit starts outside.\<close>

theorem stop_goes_to_right_handler:
  assumes "runs C sm root T0 ws T" and "started root T0" and "\<forall>w \<in> set ws. granted w"
    and "tracee_find (tr_tab T) (sp_pid st) = Some i" and "inside = fold (phase sm (sp_pid st)) ws False"
  shows "fst (snd (handle_stop C sm st i T)) =
    (if syscall_stop st then
       if inside then fst (with_regs (emuroot_on_exit C) st i T)
       else if sm then None else fst (with_regs (emuroot_on_entry C \<circ> note_entry C) st i T)
     else if event_of st = PTRACE_EVENT_SECCOMP then fst (with_regs (emuroot_on_entry C) st i T)
     else None)"
proof -
  note r = runs_books [OF assms(1) started_books(2) [OF assms(2)] assms(3)]
  note f = books_found [OF conjunct1 [OF r] assms(4)]
  have "inside_of sm (books T) (sp_pid st) = fold (phase sm (sp_pid st)) ws (inside_of sm (books T0) (sp_pid st))"
    using r by (simp add: inside_run)
  moreover have "inside_of sm (books T0) (sp_pid st) = False"
    using started_books(1) [OF assms(2)] by (simp add: inside_of_def)
  ultimately have "inside = (if sm then awaiting_exit (tracees T ! i) else in_syscall (tracees T ! i))"
    using f(1) assms(5) by (simp add: inside_of_def book_def)
  then show ?thesis
    by (simp add: handle_stop_def syscall_stop_def event_of_def Let_def split: prod.split)
qed

subsection \<open>The end of a run\<close>

text \<open>What ends the loop, and with which code.\<close>

fun ends_loop :: "int \<Rightarrow> wait_result \<Rightarrow> bool" where
  "ends_loop root_pid (Event st) \<longleftrightarrow> sp_pid st = root_pid \<and> ends st"
| "ends_loop root_pid (Stop_signal n) \<longleftrightarrow> True"
| "ends_loop root_pid Wait_failed \<longleftrightarrow> True"
| "ends_loop root_pid Interrupted \<longleftrightarrow> False"

fun exit_code :: "wait_result \<Rightarrow> int" where
  "exit_code (Event st) = (if WIFEXITED (sp_status st) then WEXITSTATUS (sp_status st) else 128 + WTERMSIG (sp_status st))"
| "exit_code (Stop_signal n) = 128 + n"
| "exit_code _ = EMUROOT_ERR_SYSTEM"

text \<open>The processes there are: those that had a stop or were announced by a fork event, and were not reaped.\<close>

fun alive_step :: "wait_result \<Rightarrow> int set \<Rightarrow> int set" where
  "alive_step (Event st) S =
     (if ends st then S - {sp_pid st}
      else if WIFSTOPPED (sp_status st) \<and> \<not> syscall_stop st \<and> event_of st \<noteq> PTRACE_EVENT_SECCOMP \<and> is_fork st
        then insert (child_of st) (insert (sp_pid st) S)
      else insert (sp_pid st) S)"
| "alive_step _ S = S"

lemma dom_seen [simp]: "dom (seen p m) = insert p (dom m)"
  by (auto simp: seen_def)

lemma dom_wait: "dom (wait_books sm w m) = alive_step w (dom m)"
  by (cases w) (auto simp: stop_books_def Let_def)

lemma dom_run: "dom (fold (wait_books sm) ws m) = fold alive_step ws (dom m)"
  by (induction ws arbitrary: m) (simp_all add: dom_wait)

lemma dom_books: "dom (books T) = set (map t_pid (tracees T))"
  using procs_None [of "tr_tab T"] by (auto simp: books_def dom_def tracees_def)

lemma loop_goes_on:
  assumes "\<not> ends_loop root w" and "granted w" and "table_wf (tr_tab T)"
  shows "\<exists>r T'. loop_step C sm root w T = (None, r, T')"
proof (cases w)
  case (Event st)
  obtain i T1 where "tracee_for st T = (Some i, T1)"
    using tracee_for_books(1) [OF assms(3,2) [unfolded Event]] by (cases "tracee_for st T") fastforce
  then show ?thesis using assms(1) Event
    by (cases "handle_stop C sm st i T1") (auto simp: loop_step_def ends_def Let_def)
qed (use assms(1) in \<open>simp_all add: loop_step_def\<close>)

lemma runs_exist:
  assumes "\<forall>w \<in> set ws. \<not> ends_loop root w \<and> granted w" and "table_wf (tr_tab T0)"
  shows "\<exists>T. runs C sm root T0 ws T"
  using assms(1)
proof (induction ws rule: rev_induct)
  case Nil
  then show ?case using runs_start by blast
next
  case (snoc w ws)
  then obtain T where T: "runs C sm root T0 ws T" by auto
  then have "table_wf (tr_tab T)" using runs_books [OF T assms(2)] snoc.prems by simp
  then show ?case using loop_goes_on [of root w T C sm] snoc.prems runs_pass [OF T] by auto
qed

lemma loop_ends:
  assumes "ends_loop root w" and "granted w" and "table_wf (tr_tab T)"
  shows "\<exists>r T'. loop_step C sm root w T = (Some (exit_code w), r, T') \<and>
    dom (books T') = dom (books T) \<union> (case w of Event st \<Rightarrow> {sp_pid st} | _ \<Rightarrow> {})"
proof (cases w)
  case (Event st)
  obtain i T1 where t: "tracee_for st T = (Some i, T1)" "books T1 = seen (sp_pid st) (books T)"
    using tracee_for_books(1,3) [OF assms(3,2) [unfolded Event]] by (cases "tracee_for st T") fastforce
  then show ?thesis using assms(1) Event by (auto simp: loop_step_def ends_def Let_def)
qed (use assms(1) in \<open>simp_all add: loop_step_def\<close>)

lemma first_started:
  assumes "tracee_add mem ctx root None \<lparr>tt_v = [], tt_cap = 0\<rparr> = (r, tab)" and "mem = (\<lambda>n. True)"
  shows "r = Some 0" "started root (upd_tracee 0 (\<lambda>t. t\<lparr>fresh := False\<rparr>) \<lparr>tr_ctx = ctx, tr_tab = tab, tr_cache = []\<rparr>)"
proof -
  have w: "table_wf \<lparr>tt_v = [], tt_cap = 0\<rparr>" "procs \<lparr>tt_v = [], tt_cap = 0\<rparr> root = None"
    by (simp_all add: table_wf_def procs_def)
  note a = table_add [OF w _ assms(1)]
  show "r = Some 0" using a(5) assms(2) by simp
  have v: "tt_v tab = [new_tracee ctx root None]" "table_wf tab" using a(1,4) assms(2) by simp_all
  have "book (t\<lparr>fresh := False\<rparr>) = (root, False, False, False)" if "book t = (root, False, False, True)" for t
    using that by (simp add: book_def)
  then show "started root (upd_tracee 0 (\<lambda>t. t\<lparr>fresh := False\<rparr>) \<lparr>tr_ctx = ctx, tr_tab = tab, tr_cache = []\<rparr>)"
    using v by (simp add: started_def upd_tracee_def tracees_def table_wf_def)
qed

text \<open>C9: a run ends, with the guest's status, and leaves no process behind. Once the guest is being traced and
  memory is granted, the run goes on through any interleaving of the processes' events and returns at the
  first of: the exit of the guest's first process (with its exit status, or 128 plus the signal that killed it),
  a signal to the tracer (128 plus the signal), or a failed wait; and the processes it then kills are exactly
  those that were seen or announced and not reaped. A fork event whose message cannot be read announces
  process 0, so the final kill then goes to the tracer's own process group.\<close>

theorem run_ends_and_kills:
  assumes boot: "bt_pipe bt" "bt_fork bt = Some root" "\<forall>opts. bt_setopt bt opts" "h_calloc (bt_host bt) = (\<lambda>n. True)"
    and ws: "\<forall>w \<in> set ws. \<not> ends_loop root w \<and> granted w" and w: "ends_loop root w" "granted w"
  shows "\<exists>rr. emuroot_run_ptrace C bt ctx (ws @ w # ws') = Some rr \<and> rr_rc rr = exit_code w \<and>
    set (rr_killed rr) = fold alive_step ws {root} \<union> (case w of Event st \<Rightarrow> {sp_pid st} | _ \<Rightarrow> {})"
proof -
  define c where "c = canonical_ctx (h_realpath (bt_host bt)) ctx"
  define c' where "c' = (if ids_file c \<noteq> [] then
                   c\<lparr>owners := emuroot_owners_load (h_calloc (bt_host bt)) (owners c)
                      (map_option (map (char_of \<circ> unat)) (h_read (bt_host bt) (ids_file c)))\<rparr>
                 else c)"
  define sm where "sm = (guest_start C bt (ctx_root c') = Some True)"
  obtain r tab where a: "tracee_add (h_calloc (bt_host bt)) c' root None \<lparr>tt_v = [], tt_cap = 0\<rparr> = (r, tab)" by fastforce
  define T0 where "T0 = upd_tracee 0 (\<lambda>t. t\<lparr>fresh := False\<rparr>) \<lparr>tr_ctx = c', tr_tab = tab, tr_cache = []\<rparr>"
  note st = first_started [OF a boot(4), folded T0_def]
  note sb = started_books [OF st(2)]
  obtain T where T: "runs C sm root T0 ws T" using runs_exist [OF ws sb(2)] by blast
  have g: "\<forall>w \<in> set ws. granted w" using ws by blast
  note rb = runs_books [OF T sb(2) g]
  obtain x T' where l: "loop_step C sm root w T = (Some (exit_code w), x, T')"
    "dom (books T') = dom (books T) \<union> (case w of Event st \<Rightarrow> {sp_pid st} | _ \<Rightarrow> {})"
    using loop_ends [OF w conjunct1 [OF rb]] by blast
  have e: "event_loop C sm root (ws @ w # ws') T0 = Some (exit_code w, T')"
    using event_loop_runs [OF T] l(1) by simp
  have "emuroot_run_ptrace C bt ctx (ws @ w # ws') = map_option (\<lambda>(rc, T).
      \<lparr>rr_rc = rc, rr_killed = map t_pid (tracees T), rr_ctx = tr_ctx T,
        rr_saved = (if ids_file (tr_ctx T) \<noteq> [] then emuroot_owners_save (bt_save bt) (owners (tr_ctx T)) else None)\<rparr>)
      (event_loop C sm root (ws @ w # ws') T0)"
    unfolding emuroot_run_ptrace_def Let_def c_def [symmetric] c'_def [symmetric] sm_def [symmetric]
    using boot(1-3) st(1) by (simp add: a T0_def)
  moreover have "set (map t_pid (tracees T')) = fold alive_step ws {root} \<union> (case w of Event st \<Rightarrow> {sp_pid st} | _ \<Rightarrow> {})"
    unfolding dom_books [symmetric] using l(2) rb sb(1) by (simp add: dom_run)
  ultimately show ?thesis using e by simp
qed

text \<open>A run whose first process forks, with an event message nobody can read, and exits with 7.\<close>

definition demo_status :: "u32 \<Rightarrow> stop" where
  "demo_status status = \<lparr>sp_pid = 50, sp_status = status, sp_regs = None, sp_msg = None, sp_mem = demo_mem, sp_host = demo_host\<rparr>"

definition demo_boot :: boot where
  "demo_boot = \<lparr>bt_host = demo_host, bt_supported = True, bt_no_seccomp = False, bt_no_exitkill = False, bt_pipe = True,
     bt_fork = Some 50, bt_traceme = True, bt_same_parent = True, bt_chdir = (\<lambda>_. True), bt_filter = (\<lambda>_. True),
     bt_answer_sent = True, bt_setopt = (\<lambda>_. True), bt_save = True\<rparr>"

theorem run_ends_and_kills_witness:
  "\<exists>rr. emuroot_run_ptrace demo_cfg demo_boot zero_ctx [Event (demo_status 0x1057F), Event (demo_status 0x700)] = Some rr \<and>
     rr_rc rr = 7 \<and> set (rr_killed rr) = {50, 0}"
proof -
  let ?f = "demo_status 0x1057F" and ?x = "demo_status 0x700"
  have e: "ends ?x" "\<not> ends ?f" "WIFSTOPPED (sp_status ?f)" "\<not> syscall_stop ?f" "event_of ?f = 1" "exit_code (Event ?x) = 7"
    by code_simp+
  have g: "granted (Event ?f)" "granted (Event ?x)" by (simp_all add: demo_status_def demo_host_def Let_def)
  have p: "sp_pid ?f = 50" "sp_pid ?x = 50" "child_of ?f = 0" "is_fork ?f"
    using e(5) by (simp_all add: demo_status_def child_of_def is_fork_def sig_defs)
  have b: "bt_pipe demo_boot" "bt_fork demo_boot = Some 50" "\<forall>o'. bt_setopt demo_boot o'" "h_calloc (bt_host demo_boot) = (\<lambda>n. True)"
    by (simp_all add: demo_boot_def demo_host_def Let_def)
  have "\<forall>w \<in> set [Event ?f]. \<not> ends_loop 50 w \<and> granted w" "ends_loop 50 (Event ?x)"
    using e g p by simp_all
  from run_ends_and_kills [OF b this(1,2) g(2), of demo_cfg zero_ctx "[]"] show ?thesis
    using e p by (auto simp: sig_defs insert_commute)
qed

theorem stop_goes_to_right_handler_witness:
  "let T0 = \<lparr>tr_ctx = zero_ctx, tr_tab = \<lparr>tt_v = [zero_tracee\<lparr>t_pid := 50\<rparr>], tt_cap = 64\<rparr>, tr_cache = []\<rparr>;
       st = demo_status 0x857F
   in fst (snd (handle_stop demo_cfg False st 0 T0)) = fst (with_regs (emuroot_on_entry demo_cfg \<circ> note_entry demo_cfg) st 0 T0)"
proof -
  let ?T = "\<lparr>tr_ctx = zero_ctx, tr_tab = \<lparr>tt_v = [zero_tracee\<lparr>t_pid := 50\<rparr>], tt_cap = 64\<rparr>, tr_cache = []\<rparr>"
  let ?st = "demo_status 0x857F"
  have "started 50 ?T" by (simp add: started_def table_wf_def tracees_def book_def zero_tracee_def)
  moreover have "tracee_find (tr_tab ?T) (sp_pid ?st) = Some 0" by (simp add: tracee_find_def demo_status_def)
  moreover have "syscall_stop ?st" by code_simp
  ultimately show ?thesis
    using stop_goes_to_right_handler [OF runs_start [of demo_cfg False 50 ?T], of ?st 0 False] by (simp add: Let_def)
qed

theorem loop_follows_protocol_witness:
  "\<exists>T'. runs demo_cfg False 50 \<lparr>tr_ctx = zero_ctx, tr_tab = \<lparr>tt_v = [zero_tracee\<lparr>t_pid := 50\<rparr>], tt_cap = 64\<rparr>, tr_cache = []\<rparr>
      [Event (demo_status 0x1057F), Event (demo_status 0x857F)] T' \<and>
     table_wf (tr_tab T') \<and> books T' 50 = Some (True, False, False) \<and> books T' 0 = Some (False, False, True)"
proof -
  let ?T = "\<lparr>tr_ctx = zero_ctx, tr_tab = \<lparr>tt_v = [zero_tracee\<lparr>t_pid := 50\<rparr>], tt_cap = 64\<rparr>, tr_cache = []\<rparr>"
  let ?f = "demo_status 0x1057F" and ?s = "demo_status 0x857F"
  have e: "\<not> ends ?f" "\<not> ends ?s" "WIFSTOPPED (sp_status ?f)" "WIFSTOPPED (sp_status ?s)" "\<not> syscall_stop ?f" "syscall_stop ?s"
    "event_of ?f = 1" "WSTOPSIG (sp_status ?f) = 5"
    by code_simp+
  have g: "granted (Event ?f)" "granted (Event ?s)" by (simp_all add: demo_status_def demo_host_def Let_def)
  have p: "sp_pid ?f = 50" "sp_pid ?s = 50" "child_of ?f = 0" "is_fork ?f"
    using e(7) by (simp_all add: demo_status_def child_of_def is_fork_def sig_defs)
  have st: "started 50 ?T" by (simp add: started_def table_wf_def tracees_def book_def zero_tracee_def)
  note b = started_books [OF st]
  have ws: "\<forall>w \<in> set [Event ?f, Event ?s]. \<not> ends_loop 50 w \<and> granted w" using e g by simp
  then obtain T' where T': "runs demo_cfg False 50 ?T [Event ?f, Event ?s] T'" using runs_exist [OF _ b(2)] by blast
  have "table_wf (tr_tab T') \<and> books T' = fold (wait_books False) [Event ?f, Event ?s] (books ?T)"
    using loop_follows_protocol [OF T' b(2)] ws by blast
  then have "table_wf (tr_tab T') \<and> books T' 50 = Some (True, False, False) \<and> books T' 0 = Some (False, False, True)"
    unfolding b(1) by (simp add: stop_books_def e p seen_def Let_def sig_defs)
  then show ?thesis using T' by blast
qed

subsection \<open>A new process, and a guest that cannot start\<close>

lemma position_append: "\<forall>x \<in> set xs. \<not> P x \<Longrightarrow> P y \<Longrightarrow> position P (xs @ [y]) = Some (length xs)"
  by (induction xs) auto

lemma position_append_found: "position P xs = Some i \<Longrightarrow> position P (xs @ ys) = Some i"
  by (induction xs arbitrary: i) (auto split: if_splits)

lemma inherit_new: "tracee_inherit ((new_tracee ctx c None)\<lparr>fresh := False\<rparr>) t = (new_tracee ctx c (Some t))\<lparr>fresh := False\<rparr>"
  by (simp add: new_tracee_def tracee_inherit_def Let_def)

definition plain_stop :: "stop \<Rightarrow> int \<Rightarrow> bool" where
  "plain_stop st sig \<longleftrightarrow> \<not> ends st \<and> WIFSTOPPED (sp_status st) \<and> WSTOPSIG (sp_status st) = sig"

lemma pass_state:
  "tracee_for x V = (Some k, V') \<Longrightarrow> \<not> ends x \<Longrightarrow> WIFSTOPPED (sp_status x) \<Longrightarrow>
    snd (snd (loop_step C sm root (Event x) V)) = snd (snd (handle_stop C sm x k V'))"
  by (simp add: loop_step_def ends_def Let_def split: prod.split)

lemma fork_stop: "plain_stop f SIGTRAP \<Longrightarrow> is_fork f \<Longrightarrow> handle_stop C sm f k V = (0, None, fork_event f k V)"
  by (auto simp: handle_stop_def plain_stop_def event_of_def is_fork_def sig_defs Let_def)

lemma first_stop: "plain_stop st SIGSTOP \<Longrightarrow> event_of st = 0 \<Longrightarrow> fresh (tracees V ! k) \<Longrightarrow>
    handle_stop C sm st k V = (0, None, upd_tracee k (\<lambda>t. t\<lparr>fresh := False\<rparr>) V)"
  by (auto simp: handle_stop_def plain_stop_def event_of_def sig_defs Let_def)

lemma new_fresh: "fresh (new_tracee ctx q parent)"
  using new_tracee_book(1) [of ctx q parent] by (simp add: book_def)

text \<open>C21: it does not matter which is seen first, a fork or the child. When a process forks, the parent's fork event
  and the child's initial stop may be reported in either order; the tracer is left in the same state, and the
  child has its parent's credentials, root and program.\<close>

theorem fork_and_child_commute:
  assumes wf: "table_wf (tr_tab T)" and p: "tracee_find (tr_tab T) (sp_pid f) = Some i" and c: "tracee_find (tr_tab T) (sp_pid st) = None"
    and f: "plain_stop f SIGTRAP" "is_fork f" "child_of f = sp_pid st" and st: "plain_stop st SIGSTOP" "event_of st = 0"
    and mem: "granted (Event f)" "granted (Event st)"
    and a: "loop_step C sm root (Event f) T = (rc1, r1, T1)" "loop_step C sm root (Event st) T1 = (rc2, r2, T2)"
    and b: "loop_step C sm root (Event st) T = (rc3, r3, T3)" "loop_step C sm root (Event f) T3 = (rc4, r4, T4)"
  shows "T4 = T2 \<and> (\<exists>t. procs (tr_tab T2) (sp_pid st) = Some t \<and> t_creds t = t_creds (tracees T ! i) \<and>
    t_root t = t_root (tracees T ! i) \<and> t_exe t = t_exe (tracees T ! i) \<and> \<not> fresh t)"
proof -
  let ?v = "tracees T" and ?c = "sp_pid st" and ?n = "length (tracees T)" and ?t = "tracees T ! i"
  define cap where "cap = (if ?n = tt_cap (tr_tab T) then if tt_cap (tr_tab T) \<noteq> 0 then tt_cap (tr_tab T) * 2 else 64 else tt_cap (tr_tab T))"
  define U where "U = (\<lambda>v. T\<lparr>tr_tab := \<lparr>tt_v = v, tt_cap = cap\<rparr>\<rparr>)"
  have Ueq: "tracees (U v) = v" "upd_tracee k g (U v) = U (v[k := g (v ! k)])" "tr_tab (U v) = \<lparr>tt_v = v, tt_cap = cap\<rparr>" for v k g
    by (auto simp: U_def upd_tracee_def tracees_def)
  have add: "tracee_add h (tr_ctx T) q par (tr_tab T) = (Some ?n, tr_tab (U (?v @ [new_tracee (tr_ctx T) q par])))" if "h = (\<lambda>n. True)" for h q par
    using that by (auto simp: tracee_add_def new_tracee_def cap_def U_def tracees_def Let_def)
  note fp = procs_find [OF wf p, folded tracees_def] and pass = pass_state [where C = C and sm = sm and root = root]
  have none: "\<forall>t \<in> set ?v. t_pid t \<noteq> ?c" using c by (simp add: tracee_find_def position_None tracees_def)
  have fnd: "tracee_find \<lparr>tt_v = ?v @ [x], tt_cap = cap\<rparr> (sp_pid f) = Some i" for x
    using p position_append_found by (simp add: tracee_find_def tracees_def)
  have fnc: "tracee_find \<lparr>tt_v = ?v @ [x], tt_cap = cap\<rparr> ?c = Some ?n" if "t_pid x = ?c" for x
    using position_append [of ?v "\<lambda>t. t_pid t = ?c" x] none that by (simp add: tracee_find_def)
  let ?N = "\<lambda>par. new_tracee (tr_ctx T) ?c par"
  have ni: "(?v @ [x]) ! i = ?t" for x using fp(1) by (simp add: nth_append)
  \<comment> \<open>the fork event first\<close>
  have "tracee_for f T = (Some i, T)" using p by (simp add: tracee_for_def)
  from pass [OF this] f(1) have "T1 = fork_event f i T" using a(1) fork_stop [OF f(1,2)] by (simp add: plain_stop_def)
  then have T1: "T1 = U (?v @ [?N (Some ?t)])"
    using c f(3) mem(1) add [of "h_calloc (sp_host f)"] by (simp add: fork_event_def child_of_def Let_def U_def)
  have "tracee_for st T1 = (Some ?n, T1)" using fnc by (simp add: tracee_for_def T1 Ueq)
  from pass [OF this] st(1) have T2: "T2 = U (?v @ [(?N (Some ?t))\<lparr>fresh := False\<rparr>])"
    using a(2) first_stop [OF st, of T1 ?n] new_fresh by (simp add: plain_stop_def T1 Ueq)
  \<comment> \<open>the child first\<close>
  have "tracee_for st T = (Some ?n, U (?v @ [?N None]))"
    using c mem(2) add [of "h_calloc (sp_host st)"] by (simp add: tracee_for_def U_def)
  from pass [OF this] st(1) have T3: "T3 = U (?v @ [(?N None)\<lparr>fresh := False\<rparr>])"
    using b(1) first_stop [OF st, of "U (?v @ [?N None])" ?n] new_fresh by (simp add: plain_stop_def Ueq)
  have "tracee_for f T3 = (Some i, T3)" using fnd by (simp add: tracee_for_def T3 Ueq)
  from pass [OF this] f(1) have "T4 = fork_event f i T3" using b(2) fork_stop [OF f(1,2)] by (simp add: plain_stop_def)
  then have "T4 = U (?v @ [tracee_inherit ((?N None)\<lparr>fresh := False\<rparr>) ?t])"
    using fnc [of "(?N None)\<lparr>fresh := False\<rparr>"] f(3) ni by (simp add: fork_event_def child_of_def Let_def T3 Ueq)
  then have "T4 = T2" by (simp add: T2 inherit_new)
  moreover have "procs (tr_tab T2) ?c = Some ((?N (Some ?t))\<lparr>fresh := False\<rparr>)"
    using none by (auto simp: T2 Ueq procs_def map_add_Some_iff map_of_eq_None_iff)
  ultimately show ?thesis by (simp add: new_tracee_def tracee_inherit_def Let_def)
qed

text \<open>Process 50, a fake root with another root directory, forks process 51.\<close>

definition demo_tracer :: tracer where
  "demo_tracer = \<lparr>tr_ctx = zero_ctx, tr_tab = \<lparr>tt_v = [zero_tracee\<lparr>t_pid := 50, t_root := ''/srv''\<rparr>], tt_cap = 64\<rparr>, tr_cache = []\<rparr>"

theorem fork_and_child_commute_witness:
  "let f = (demo_status 0x1057F)\<lparr>sp_msg := Some 51\<rparr>; st = (demo_status 0x137F)\<lparr>sp_pid := 51\<rparr>;
       step = (\<lambda>x T. snd (snd (loop_step demo_cfg False 50 (Event x) T)))
   in step st (step f demo_tracer) = step f (step st demo_tracer) \<and>
     map_option t_root (procs (tr_tab (step f (step st demo_tracer))) 51) = Some ''/srv''"
proof -
  let ?f = "(demo_status 0x1057F)\<lparr>sp_msg := Some 51\<rparr>" and ?st = "(demo_status 0x137F)\<lparr>sp_pid := 51\<rparr>"
  have wf: "table_wf (tr_tab demo_tracer)" by (simp add: table_wf_def demo_tracer_def)
  have p: "tracee_find (tr_tab demo_tracer) (sp_pid ?f) = Some 0" "tracee_find (tr_tab demo_tracer) (sp_pid ?st) = None"
    "t_root (tracees demo_tracer ! 0) = ''/srv''" "sp_pid ?st = 51"
    by (simp_all add: tracee_find_def demo_tracer_def demo_status_def tracees_def)
  have f: "plain_stop ?f SIGTRAP" "is_fork ?f" "child_of ?f = sp_pid ?st" "plain_stop ?st SIGSTOP" "event_of ?st = 0"
    by code_simp+
  have g: "granted (Event ?f)" "granted (Event ?st)" by (simp_all add: demo_status_def demo_host_def Let_def)
  let ?step = "\<lambda>x T. loop_step demo_cfg False 50 (Event x) T"
  obtain rc1 r1 T1 where a1: "?step ?f demo_tracer = (rc1, r1, T1)" by (rule prod_cases3)
  obtain rc2 r2 T2 where a2: "?step ?st T1 = (rc2, r2, T2)" by (rule prod_cases3)
  obtain rc3 r3 T3 where b1: "?step ?st demo_tracer = (rc3, r3, T3)" by (rule prod_cases3)
  obtain rc4 r4 T4 where b2: "?step ?f T3 = (rc4, r4, T4)" by (rule prod_cases3)
  from fork_and_child_commute [OF wf p(1,2) f g a1 a2 b1 b2] p(3,4) show ?thesis
    unfolding Let_def a1 a2 b1 b2 snd_conv by auto
qed

text \<open>C31: a guest that cannot enter its root is run without one. When the child gives up before its first stop
  because it cannot change into the root directory, no ptrace option can be set on it any more; the run then
  reports a kernel that cannot trace (and its last act is to kill the number of a process it has already
  waited for), which makes \<^verbatim>\<open>emuroot_run\<close> fall back to the backend that intercepts nothing: the status the
  caller gets is that of the program run on the host's own root.\<close>

theorem failed_start_runs_unconfined:
  assumes "bt_pipe bt" and "bt_fork bt = Some root" and c: "c = canonical_ctx (h_realpath (bt_host bt)) ctx"
    and "ctx_root c \<noteq> []" and "\<not> bt_chdir bt (ctx_root c)"
    and gone: "guest_start C bt (ctx_root c) = None \<Longrightarrow> \<forall>opts. \<not> bt_setopt bt opts"
  shows "\<exists>rr. emuroot_run_ptrace C bt ctx waits = Some rr \<and> rr_killed rr = [root] \<and>
    emuroot_run (Some ctx) (Some program) EMUROOT_BACKEND_PTRACE (rr_rc rr) envonly_rc = envonly_rc"
proof -
  have "guest_start C bt (ctx_root c) = None" using assms(4,5) by (simp add: guest_start_def)
  from gone [OF this] have "\<not> bt_setopt bt opts" for opts by blast
  then show ?thesis using assms(1,2) unfolding emuroot_run_ptrace_def Let_def c [symmetric]
    by (auto simp: give_up_def emuroot_run_def)
qed

theorem failed_start_runs_unconfined_witness:
  "\<exists>rr. emuroot_run_ptrace demo_cfg (demo_boot\<lparr>bt_chdir := (\<lambda>_. False), bt_setopt := (\<lambda>_. False)\<rparr>) (zero_ctx\<lparr>ctx_root := ''/no''\<rparr>) []
     = Some rr \<and> rr_killed rr = [50] \<and>
     emuroot_run (Some (zero_ctx\<lparr>ctx_root := ''/no''\<rparr>)) (Some ''sh'') EMUROOT_BACKEND_PTRACE (rr_rc rr) 0 = 0"
proof -
  let ?b = "demo_boot\<lparr>bt_chdir := (\<lambda>_. False), bt_setopt := (\<lambda>_. False)\<rparr>"
  let ?c = "canonical_ctx (h_realpath (bt_host ?b)) (zero_ctx\<lparr>ctx_root := ''/no''\<rparr>)"
  have "ctx_root ?c = ''/no''"
    by (simp add: canonical_ctx_def demo_boot_def demo_host_def PATH_LEN_def Let_def)
  then show ?thesis
    using failed_start_runs_unconfined [of ?b 50 ?c "zero_ctx\<lparr>ctx_root := ''/no''\<rparr>" demo_cfg "[]" "''sh''" 0]
    by (simp add: demo_boot_def)
qed

end
