(* ===== verification/Runs.thy ===== *)
theory Runs
  imports Ptrace
begin

text \<open>
  What stays true in every run of the tracer's loop. A run is \<open>runs\<close> of \<^verbatim>\<open>Ptrace\<close>: passes of \<open>loop_step\<close> from the
  state \<open>loop_start\<close> \<^verbatim>\<open>emuroot_run_ptrace\<close> enters the loop with. The locale \<open>run_invariant\<close> asks of a condition on the
  context and on each process that a new process and a child have it, that the loop's own fields do not matter and that both
  handlers keep it; the condition then holds of the whole table at every moment of every run.
\<close>

definition loop_start :: "emuroot_ctx \<Rightarrow> int \<Rightarrow> tracer" where
  "loop_start ctx pid = \<lparr>tr_ctx = ctx, tr_tab = \<lparr>tt_v = [(new_tracee ctx pid None)\<lparr>fresh := False\<rparr>], tt_cap = 64\<rparr>, tr_cache = []\<rparr>"

lemma loop_start_eq:
  assumes "tracee_add (\<lambda>n. True) ctx pid None \<lparr>tt_v = [], tt_cap = 0\<rparr> = (Some i, tab)"
  shows "upd_tracee i (\<lambda>t. t\<lparr>fresh := False\<rparr>) \<lparr>tr_ctx = ctx, tr_tab = tab, tr_cache = []\<rparr> = loop_start ctx pid"
  using assms by (auto simp: tracee_add_def loop_start_def new_tracee_def upd_tracee_def tracees_def Let_def)

text \<open>The stopped process as the handlers get it, and the stops that are entries.\<close>

definition stopped :: "stop \<Rightarrow> nat \<Rightarrow> tracer \<Rightarrow> emuroot_regs_t \<Rightarrow> sys" where
  "stopped st i T r = \<lparr>s_ctx = tr_ctx T, s_tr = tracees T ! i, s_regs = r, s_kregs = r, s_mem = sp_mem st,
     s_host = sp_host st, s_cache = tr_cache T\<rparr>"

definition at_entry :: "bool \<Rightarrow> stop \<Rightarrow> tracee_t \<Rightarrow> bool" where
  "at_entry seccomp_mode st t \<longleftrightarrow>
     (if syscall_stop st then \<not> seccomp_mode \<and> \<not> in_syscall t else event_of st = PTRACE_EVENT_SECCOMP)"

text \<open>A pass whose stop, if it is an entry, fits.\<close>

definition fitting :: "(sys \<Rightarrow> bool) \<Rightarrow> bool \<Rightarrow> wait_result \<Rightarrow> tracer \<Rightarrow> bool" where
  "fitting fits seccomp_mode w T \<longleftrightarrow>
     (\<forall>st i T1 r. w = Event st \<and> tracee_for st T = (Some i, T1) \<and> sp_regs st = Some r \<and>
        at_entry seccomp_mode st (tracees T1 ! i) \<longrightarrow> fits (stopped st i T1 r))"

lemma fitting_any [simp]: "fitting (\<lambda>s. True) sm w T"
  by (simp add: fitting_def)

lemma tracee_for_index:
  assumes "tracee_for st T = (Some i, T1)" shows "i < length (tracees T1)"
proof (cases "tracee_find (tr_tab T) (sp_pid st)")
  case None
  then show ?thesis using assms by (auto simp: tracee_for_def tracee_add_def tracees_def Let_def split: if_splits)
next
  case (Some j)
  then show ?thesis using assms position_Some [of _ "tt_v (tr_tab T)" j] by (auto simp: tracee_for_def tracee_find_def tracees_def)
qed

lemma remove_subset: "j < length (tracees T) \<Longrightarrow> set (tracees (T\<lparr>tr_tab := tracee_remove j (tr_tab T)\<rparr>)) \<subseteq> set (tracees T)"
proof -
  have "set (butlast (xs[j := last xs])) \<subseteq> set xs" if "j < length xs" for xs :: "tracee_t list"
    using set_update_subset_insert [of xs j "last xs"] that last_in_set [of xs] by (fastforce dest: in_set_butlastD)
  then show "j < length (tracees T) \<Longrightarrow> ?thesis" by (simp add: tracees_def tracee_remove_def)
qed

locale run_invariant =
  fixes C :: cfg and good :: "emuroot_ctx \<Rightarrow> bool" and ok :: "tracee_t \<Rightarrow> bool" and fits :: "sys \<Rightarrow> bool"
  assumes ok_new: "good ctx \<Longrightarrow> ok (new_tracee ctx p None)"
    and ok_child: "ok u \<Longrightarrow> ok (new_tracee ctx p (Some u))"
    and ok_inherit: "ok t \<Longrightarrow> ok u \<Longrightarrow> ok (tracee_inherit t u)"
    and ok_loop: "ok (t\<lparr>in_syscall := b\<rparr>) = ok t" "ok (t\<lparr>awaiting_exit := b\<rparr>) = ok t"
      "ok (t\<lparr>fresh := b\<rparr>) = ok t" "ok (t\<lparr>last_entry := n\<rparr>) = ok t"
    and fits_noted: "fits (note_entry C s) = fits s"
    and ok_entry: "good (s_ctx s) \<Longrightarrow> ok (s_tr s) \<Longrightarrow> fits s \<Longrightarrow>
      good (s_ctx (emuroot_on_entry C s)) \<and> ok (s_tr (emuroot_on_entry C s))"
    and ok_exit: "good (s_ctx s) \<Longrightarrow> ok (s_tr s) \<Longrightarrow>
      good (s_ctx (emuroot_on_exit C s)) \<and> ok (s_tr (emuroot_on_exit C s))"
begin

definition holds :: "tracer \<Rightarrow> bool" where
  "holds T \<longleftrightarrow> good (tr_ctx T) \<and> (\<forall>t \<in> set (tracees T). ok t)"

lemma holds_upd:
  assumes "holds T" and "i < length (tracees T)" and "\<And>t. ok t \<Longrightarrow> ok (f t)"
  shows "holds (upd_tracee i f T)"
  using assms by (auto simp: holds_def upd_tracee_def tracees_def dest!: subsetD [OF set_update_subset_insert])

lemma holds_add:
  assumes h: "holds T" and a: "tracee_add mem (tr_ctx T) p parent (tr_tab T) = (r, tab)"
    and u: "\<forall>u. parent = Some u \<longrightarrow> u \<in> set (tracees T)"
  shows "holds (T\<lparr>tr_tab := tab\<rparr>)"
proof -
  have n: "ok (new_tracee (tr_ctx T) p parent)"
    using h u ok_new ok_child by (cases parent) (auto simp: holds_def)
  have "tab = tr_tab T \<or> tt_v tab = tt_v (tr_tab T) \<or> tt_v tab = tt_v (tr_tab T) @ [new_tracee (tr_ctx T) p parent]"
    using a by (auto simp: tracee_add_def new_tracee_def Let_def split: if_splits)
  then show ?thesis using h n by (auto simp: holds_def tracees_def)
qed

lemma holds_for: "holds T \<Longrightarrow> tracee_for st T = (r, T1) \<Longrightarrow> holds T1"
  using holds_add [of T _ "sp_pid st" None] by (auto simp: tracee_for_def split: option.splits prod.splits)

lemma holds_stopped: "holds T \<Longrightarrow> i < length (tracees T) \<Longrightarrow> good (s_ctx (stopped st i T r)) \<and> ok (s_tr (stopped st i T r))"
  by (simp add: holds_def stopped_def)

lemma holds_with_regs:
  assumes h: "holds T" and i: "i < length (tracees T)" and w: "with_regs hdl st i T = (e, T')"
    and k: "\<And>r. sp_regs st = Some r \<Longrightarrow> good (s_ctx (hdl (stopped st i T r))) \<and> ok (s_tr (hdl (stopped st i T r)))"
  shows "holds T' \<and> length (tracees T') = length (tracees T)"
proof (cases "sp_regs st")
  case None
  then show ?thesis using w h by (simp add: with_regs_def)
next
  case (Some r)
  let ?s = "hdl (stopped st i T r)"
  have T': "T' = upd_tracee i (\<lambda>_. s_tr ?s) (T\<lparr>tr_ctx := s_ctx ?s, tr_cache := s_cache ?s\<rparr>)"
    using w Some by (simp add: with_regs_def stopped_def Let_def)
  have v: "tracees T' = (tracees T)[i := s_tr ?s]" "tr_ctx T' = s_ctx ?s" by (simp_all add: T' upd_tracee_def tracees_def)
  show ?thesis using k [OF Some] h by (auto simp: holds_def v dest!: subsetD [OF set_update_subset_insert])
qed

lemma holds_fork:
  assumes h: "holds T" and i: "i < length (tracees T)"
  shows "holds (fork_event st i T)"
proof (cases "tracee_find (tr_tab T) (child_of st)")
  case None
  obtain r tab where a: "tracee_add (h_calloc (sp_host st)) (tr_ctx T) (child_of st) (Some (tracees T ! i)) (tr_tab T) = (r, tab)" by fastforce
  have "fork_event st i T = T\<lparr>tr_tab := tab\<rparr>" using None a by (simp add: fork_event_def child_of_def Let_def)
  then show ?thesis using holds_add [OF h a] i by simp
next
  case (Some k)
  have "k < length (tracees T)" using Some position_Some [of _ "tt_v (tr_tab T)" k] by (simp add: tracee_find_def tracees_def)
  then have "holds (upd_tracee k (\<lambda>x. tracee_inherit x (tracees T ! i)) T)"
    using h i by (intro holds_upd) (auto simp: holds_def intro: ok_inherit)
  then show ?thesis using Some by (simp add: fork_event_def child_of_def Let_def)
qed

lemma holds_stop:
  assumes h: "holds T" and i: "i < length (tracees T)" and s: "handle_stop C sm st i T = (sig, e, T')"
    and f: "\<And>r. sp_regs st = Some r \<Longrightarrow> at_entry sm st (tracees T ! i) \<Longrightarrow> fits (stopped st i T r)"
  shows "holds T'"
proof -
  have fin: "holds (upd_tracee i f U)" if "holds U \<and> length (tracees U) = length (tracees T)" "\<And>t. ok t \<Longrightarrow> ok (f t)" for f U
    using that i by (intro holds_upd) simp_all
  note b = holds_stopped [OF h i]
  have ex: "holds U \<and> length (tracees U) = length (tracees T)" if "with_regs (emuroot_on_exit C) st i T = (e', U)" for e' U
    by (rule holds_with_regs [OF h i that]) (use b ok_exit in blast)
  have en: "holds U \<and> length (tracees U) = length (tracees T)"
    if "with_regs (emuroot_on_entry C) st i T = (e', U)" "at_entry sm st (tracees T ! i)" for e' U
    by (rule holds_with_regs [OF h i that(1)]) (use b ok_entry f that(2) in blast)
  have noted: "good (s_ctx (note_entry C s)) = good (s_ctx s)" "ok (s_tr (note_entry C s)) = ok (s_tr s)" for s
    by (simp_all add: note_entry_def ok_loop)
  have no: "holds U \<and> length (tracees U) = length (tracees T)"
    if "with_regs (emuroot_on_entry C \<circ> note_entry C) st i T = (e', U)" "at_entry sm st (tracees T ! i)" for e' U
    by (rule holds_with_regs [OF h i that(1)]) (use b ok_entry f that(2) noted fits_noted in simp)
  have ae: "WSTOPSIG (sp_status st) = 0x85 \<Longrightarrow> \<not> sm \<Longrightarrow> \<not> in_syscall (tracees T ! i) \<Longrightarrow> at_entry sm st (tracees T ! i)"
    "WSTOPSIG (sp_status st) \<noteq> 0x85 \<Longrightarrow> sint (signed_drop_bit 16 (sp_status st)) = PTRACE_EVENT_SECCOMP \<Longrightarrow> at_entry sm st (tracees T ! i)"
    by (simp_all add: at_entry_def syscall_stop_def event_of_def)
  show ?thesis
    using s ex en no ae h holds_fork [OF h i] i
    by (auto simp: handle_stop_def Let_def ok_loop split: if_splits prod.splits intro!: fin holds_upd simp del: comp_apply)
qed

lemma holds_pass:
  assumes h: "holds T" and l: "loop_step C sm root w T = (rc, q, T')" and f: "fitting fits sm w T"
  shows "holds T'"
proof (cases w)
  case (Event st)
  obtain r T1 where t: "tracee_for st T = (r, T1)" by fastforce
  note h1 = holds_for [OF h t]
  show ?thesis
  proof (cases r)
    case None
    then show ?thesis using l Event t h1 by (simp add: loop_step_def Let_def)
  next
    case (Some i)
    have i: "i < length (tracees T1)" using tracee_for_index t Some by blast
    have rm: "holds (T1\<lparr>tr_tab := tracee_remove i (tr_tab T1)\<rparr>)"
      using h1 remove_subset [OF i] by (auto simp: holds_def)
    have st: "holds T2" if "handle_stop C sm st i T1 = (s, e, T2)" for s e T2
      by (rule holds_stop [OF h1 i that]) (use f Event t Some in \<open>auto simp: fitting_def\<close>)
    show ?thesis using l Event t Some h1 rm st
      by (auto simp: loop_step_def Let_def split: if_splits prod.splits)
  qed
qed (use l h in \<open>auto simp: loop_step_def\<close>)

lemma holds_start: "good ctx \<Longrightarrow> holds (loop_start ctx root)"
  using ok_new by (simp add: holds_def loop_start_def tracees_def ok_loop)

lemma holds_run: "runs C sm root T0 ws T \<Longrightarrow> holds T0 \<Longrightarrow> (\<And>w T. fitting fits sm w T) \<Longrightarrow> holds T"
  by (induction rule: runs.induct) (auto intro: holds_pass)

end

end
