(* ===== verification/Confine.thy ===== *)
theory Confine
  imports Runs
begin

text \<open>
  Confinement of a whole run. \<open>under S p\<close>: the path \<open>p\<close> starts, component by component, with one of the
  directories \<open>S\<close> (lists of components) the session was given: its root, the hosts of its bindings and the
  pseudo file systems a \<^verbatim>\<open>mount\<close> may show. Translation only produces such paths, and whatever the processes do
  (\<^verbatim>\<open>chroot\<close>, \<^verbatim>\<open>mount\<close>, \<^verbatim>\<open>umount\<close>, forks, in any interleaving), every root and every binding the tracer
  holds stays one, so every path a call leaves to the kernel is one. Last, the same from the configuration on: the context
  of the caller, its names made canonical, to the loop.
\<close>

definition under :: "string list set \<Rightarrow> string \<Rightarrow> bool" where
  "under S p \<longleftrightarrow> (p = [] \<or> hd p = SLASH) \<and> (\<exists>ds \<in> S. \<exists>cs. comps p = ds @ cs)"

definition tree :: "string list set \<Rightarrow> string \<Rightarrow> bool" where
  "tree S d \<longleftrightarrow> under S d \<and> normal (comps d) \<and> clean d \<and> length d < PATH_LEN"

subsection \<open>Translation stays under the trees\<close>

lemma comps_more:
  assumes "q = [] \<or> hd q = SLASH \<or> ends_slash p"
  shows "comps (p @ q) = comps p @ comps q"
proof (cases "q = [] \<or> hd q = SLASH")
  case True
  then show ?thesis by (rule comps_append)
next
  case False
  then obtain p' where p: "p = p' @ [SLASH]"
    using assms by (metis append_butlast_last_id ends_slash_def)
  have "comps (p' @ SLASH # q) = comps p' @ comps q" "comps (p' @ [SLASH]) = comps p'"
    using comps_append [of "SLASH # q" p'] comps_append [of "[SLASH]" p'] by simp_all
  then show ?thesis by (simp add: p)
qed

lemma under_append: "under S p \<Longrightarrow> q = [] \<or> hd q = SLASH \<or> ends_slash p \<Longrightarrow> under S (p @ q)"
proof -
  assume u: "under S p" and q: "q = [] \<or> hd q = SLASH \<or> ends_slash p"
  then obtain ds cs where "ds \<in> S" "comps p = ds @ cs" by (auto simp: under_def)
  then have "comps (p @ q) = ds @ (cs @ comps q)" using comps_more [OF q] by simp
  moreover have "p @ q = [] \<or> hd (p @ q) = SLASH" using u q by (cases p) (auto simp: under_def ends_slash_def)
  ultimately show "under S (p @ q)" using \<open>ds \<in> S\<close> unfolding under_def by blast
qed

lemma under_take: "under S p \<Longrightarrow> q = [] \<or> hd q = SLASH \<or> ends_slash p \<Longrightarrow> length p \<le> n \<Longrightarrow> under S (take n (p @ q))"
  using under_append [of S p "take (n - length p) q"] by (cases q; cases "n - length p") auto

lemma under_or_slash [simp]: "under S (or_slash p) \<longleftrightarrow> under S p"
  by (auto simp: under_def or_slash_def)

lemma under_host_part [simp]: "under S (host_part b) \<longleftrightarrow> under S (b_host b)"
  by (auto simp: under_def host_part_def)

lemma has_prefix_rest: "has_prefix s pre n \<Longrightarrow> clean s \<Longrightarrow> drop n s = [] \<or> hd (drop n s) = SLASH"
  by (auto simp: has_prefix_def c_at_def clean_def hd_drop_conv_nth split: if_splits dest: nth_mem)

definition trees_ok :: "string list set \<Rightarrow> emuroot_ctx \<Rightarrow> string \<Rightarrow> bool" where
  "trees_ok S ctx root \<longleftrightarrow> tree S root \<and> (\<forall>b \<in> set (bindings ctx). tree S (b_host b) \<and> clean (b_guest b))"

lemma map_under:
  assumes ok: "trees_ok S ctx root" and g: "clean g" "hd g = SLASH" "g \<noteq> []"
  shows "under S (map_to_host ctx root PATH_LEN g)"
proof -
  have root: "under S root" "length root < PATH_LEN" "clean root" using ok by (simp_all add: trees_ok_def tree_def)
  have host: "under S (b_host b)" "length (host_part b) < PATH_LEN" if "b \<in> set (bindings ctx)" for b
    using ok that by (auto simp: trees_ok_def tree_def host_part_def)
  have cut: "under S (take n (host_part b @ r))" if "b \<in> set (bindings ctx)" "r = [] \<or> hd r = SLASH" "PATH_LEN - 1 \<le> n" for b r n
    using under_take [of S "host_part b" r n] host [OF that(1)] that(2,3) by auto
  let ?out = "snprintf PATH_LEN (root @ g)"
  have out: "under S ?out" "clean ?out"
    using under_take [of S root g "PATH_LEN - 1"] root g by (auto simp: snprintf_def)
  show ?thesis
  proof (cases "pick (guest_match g) b_guest_len None (rev (bindings ctx))")
    case (Some b)
    then have b: "b \<in> set (bindings ctx)" "guest_match g b" using pick_in [OF Some] by auto
    let ?r = "drop (if b_guest b = ''/'' then 0 else b_guest_len b) g"
    have "?r = [] \<or> hd ?r = SLASH" using b(2) g has_prefix_rest [of g] by (auto simp: guest_match_def)
    from cut [OF b(1) this] show ?thesis using Some by (simp add: map_to_host_def snprintf_def Let_def del: take_append)
  next
    case None
    show ?thesis
    proof (cases "pick (mount_match ?out) b_mount_len None (rev (bindings ctx))")
      case (Some b)
      then have b: "b \<in> set (bindings ctx)" "mount_match ?out b" using pick_in [OF Some] by auto
      let ?r = "drop (b_mount_len b) ?out"
      have "has_prefix ?out (b_mount b) (b_mount_len b)" using b(2) by (simp add: mount_match_def)
      note r = cut [OF b(1) has_prefix_rest [OF this out(2)]]
      have m: "min (PATH_LEN - 1) (2 * PATH_LEN - 1) = PATH_LEN - 1" by simp
      have t: "snprintf PATH_LEN (take (PATH_LEN - 1) (snprintf (2 * PATH_LEN) x)) = take (PATH_LEN - 1) x" for x :: string
        unfolding snprintf_def take_take m by simp
      then show ?thesis using None Some r [OF order.refl] by (simp add: map_to_host_def t Let_def del: take_append)
    next
      case none: None
      then show ?thesis using None out by (simp add: map_to_host_def Let_def)
    qed
  qed
qed

lemma finish_under:
  assumes "under S (m cur)" and "length (m cur) < PATH_LEN"
  shows "under S (finish m (cur, p, t, h))"
proof -
  let ?host = "if p \<noteq> [] then take (PATH_LEN - 1) (m cur @ (if ends_slash (m cur) then [] else ''/'') @ drop (strspn p ''/'') p) else m cur"
  have "under S ?host"
    using under_take [OF assms(1), of "(if ends_slash (m cur) then [] else ''/'') @ drop (strspn p ''/'') p" "PATH_LEN - 1"] assms
    by auto
  then show ?thesis using under_append [of S ?host "''/''"] by (auto simp: finish_def Let_def)
qed

lemma c_strings_trees: "trees_ok S ctx root \<Longrightarrow> \<forall>h l. rl h = Some l \<longrightarrow> clean l \<Longrightarrow> c_strings ctx root rl"
  by (auto simp: trees_ok_def tree_def c_strings_def clean_def)

lemma walk_guest:
  assumes cs: "c_strings ctx root rl" and g: "clean guest"
    and w: "walk m rl f (''/'', snprintf (2 * PATH_LEN) guest, ends_slash guest, 0) = (cur, p, t, h)"
  shows "clean cur" "hd cur = SLASH" "cur \<noteq> []"
proof -
  have rl: "\<forall>h l. rl h = Some l \<longrightarrow> clean l" using cs by (simp add: c_strings_def clean_def)
  have "clean_state (walk m rl f (''/'', snprintf (2 * PATH_LEN) guest, ends_slash guest, 0))"
    by (rule walk_clean [OF rl]) (simp add: clean_state_def g)
  then show "clean cur" by (simp add: w clean_state_def)
  have "walk_exit m rl f (cur, p, t, h)" using walk_shape [OF walk_inv_start, of m rl f] w by metis
  then obtain cs where "cur = path_of cs" by (auto simp: walk_exit_def)
  then show "hd cur = SLASH" "cur \<noteq> []" using path_of_slash [of cs] by auto
qed

lemma translate_under:
  assumes ok: "trees_ok S ctx root" and rl: "\<forall>h l. rl h = Some l \<longrightarrow> clean l" and g: "clean guest" "c_at guest 0 = SLASH"
  shows "under S (snd (emuroot_translate_path ctx rl root guest f PATH_LEN))"
proof (cases "root = [] \<and> bindings ctx = []")
  case True
  then have "[] \<in> S" using ok by (auto simp: trees_ok_def tree_def under_def)
  moreover obtain r where "guest = SLASH # r" using g(2) by (auto simp: c_at_slash_conv)
  then have "hd (snprintf PATH_LEN guest) = SLASH" by (simp add: snprintf_def PATH_LEN_def)
  ultimately show ?thesis using True
    by (auto simp: emuroot_translate_path_def emuroot_translate_path_ex_def under_def intro!: bexI [of _ "[]"])
next
  case False
  let ?m = "map_to_host ctx root PATH_LEN"
  obtain cur p t h where w: "walk ?m rl f (''/'', snprintf (2 * PATH_LEN) guest, ends_slash guest, 0) = (cur, p, t, h)"
    by (rule prod_cases4)
  note c = walk_guest [OF c_strings_trees [OF ok rl] g(1) w]
  have "under S (finish ?m (cur, p, t, h))" by (rule finish_under [where m = ?m, OF map_under [OF ok c] length_map_to_host])
  moreover have "length (finish ?m (cur, p, t, h)) < PATH_LEN" by (rule length_finish [OF length_map_to_host])
  ultimately show ?thesis using False g(2) w by (auto simp: emuroot_translate_path_def emuroot_translate_path_ex_def Let_def)
qed

subsection \<open>What the tracer holds\<close>

definition space_ok :: "string list set \<Rightarrow> sys \<Rightarrow> bool" where
  "space_ok S s \<longleftrightarrow> trees_ok S (s_ctx s) (t_root (s_tr s)) \<and>
     (pending_root (s_tr s) \<noteq> [] \<longrightarrow> tree S (pending_root (s_tr s)))"

lemma space_ok_outline: "outline s' = outline s \<Longrightarrow> space_ok S s' = space_ok S s"
proof -
  assume o: "outline s' = outline s"
  have "bindings (s_ctx s') = bindings (s_ctx s)"
    using arg_cong [OF o, of "\<lambda>x. bindings (snd x)"] by (simp add: outline_def)
  with o show ?thesis by (simp add: outline_def core_def space_ok_def trees_ok_def)
qed

definition pseudo :: "string list" where
  "pseudo = [''/proc'', ''/sys'', ''/dev'', ''/dev/pts'']"

text \<open>The host answers with C strings shorter than \<^verbatim>\<open>PATH_MAX\<close>, and the pseudo file systems are mounted at their
  own places.\<close>

definition host_ok :: "host_t \<Rightarrow> bool" where
  "host_ok h \<longleftrightarrow> (\<forall>p l. h_readlink h p = Some l \<longrightarrow> clean l) \<and>
     (\<forall>p c. h_realpath h p = Some c \<longrightarrow> clean c \<and> length c < PATH_LEN) \<and>
     (\<forall>d \<in> set pseudo. \<forall>c. h_realpath h d = Some c \<longrightarrow> c_at c 0 = SLASH \<and> comps c = comps d)"

text \<open>The path argument, resolved: absolute, without dot components left, and its own canonical path.\<close>

definition settles :: "cfg \<Rightarrow> sys \<Rightarrow> nat \<Rightarrow> bool" where
  "settles C s slot \<longleftrightarrow>
     (\<forall>host. emuroot_host_path_arg C s (path_sysno C s) slot True = Some host \<longrightarrow>
        c_at host 0 = SLASH \<and> normal (comps host) \<and>
        (\<forall>c. h_realpath (s_host s) host = Some c \<longrightarrow> c_at c 0 = SLASH \<and> comps c = comps host))"

definition orderly_call :: "cfg \<Rightarrow> sys \<Rightarrow> bool" where
  "orderly_call C s \<longleftrightarrow>
     (case entry_action C s of
        Some A_CHROOT \<Rightarrow> (case emuroot_find_path_syscall (c_nr C) (path_sysno C s) of Some d \<Rightarrow> settles C s (ps_slot1 d) | None \<Rightarrow> True)
      | Some A_MOUNT \<Rightarrow> get_arg C s 4 AND MS_BIND \<noteq> 0 \<longrightarrow> settles C s 1
      | _ \<Rightarrow> True)"

lemma host_arg_cong:
  assumes "same_space s s'" "s_regs s' = s_regs s" "s_mem s' = s_mem s"
  shows "emuroot_host_path_arg C s' n slot f = emuroot_host_path_arg C s n slot f"
    "emuroot_guest_path_arg C s' n slot = emuroot_guest_path_arg C s n slot"
proof -
  have a: "get_arg C s' k = get_arg C s k" for k by (simp add: get_arg_def assms(2))
  have "read_str_at s' = read_str_at s" by (simp add: read_str_at_def fun_eq_iff assms(3))
  then have g: "given_path C s' slot = given_path C s slot" unfolding given_path_def a by (simp only:)
  have ab: "absolute_guest_path C s' fs p z = absolute_guest_path C s fs p z" for fs p z
    by (rule absolute_same_space [OF assms(1)]) (simp add: a)
  show "emuroot_host_path_arg C s' n slot f = emuroot_host_path_arg C s n slot f"
    unfolding emuroot_host_path_arg_def g ab translate_same_space [OF assms(1)] ..
  have e: "s_ctx s' = s_ctx s" "h_readlink (s_host s') = h_readlink (s_host s)" "t_root (s_tr s') = t_root (s_tr s)"
    using assms(1) by (simp_all add: same_space_def)
  show "emuroot_guest_path_arg C s' n slot = emuroot_guest_path_arg C s n slot"
    unfolding emuroot_guest_path_arg_def g ab e ..
qed

lemma canonical_tree:
  assumes h: "host_ok h" and p: "under S p" "normal (comps p)" "clean p" "length p < PATH_LEN" "p \<noteq> []"
    and c: "\<forall>c. h_realpath h p = Some c \<longrightarrow> c_at c 0 = SLASH \<and> comps c = comps p"
  shows "tree S (canonical h p) \<and> canonical h p \<noteq> [] \<and> length (canonical h p) < PATH_LEN"
proof (cases "h_realpath h p")
  case None
  then show ?thesis using p by (simp add: canonical_def tree_def)
next
  case (Some x)
  then have x: "c_at x 0 = SLASH" "comps x = comps p" "clean x" "length x < PATH_LEN" using c h by (auto simp: host_ok_def)
  then have "under S x" "x \<noteq> []" using p(1) by (auto simp: under_def c_at_slash_conv)
  then show ?thesis using Some x p(2) by (simp add: canonical_def tree_def)
qed

lemma host_arg_tree:
  assumes ok: "space_ok S s" and h: "host_ok (s_host s)" and st: "settles C s slot"
    and a: "emuroot_host_path_arg C s (path_sysno C s) slot True = Some host"
  shows "tree S (canonical (s_host s) host) \<and> canonical (s_host s) host \<noteq> [] \<and> length (canonical (s_host s) host) < PATH_LEN"
proof -
  note c = st [unfolded settles_def, rule_format, OF a]
  have ok': "trees_ok S (s_ctx s) (t_root (s_tr s))" and rl: "\<forall>p l. h_readlink (s_host s) p = Some l \<longrightarrow> clean l"
    using ok h by (simp_all add: space_ok_def host_ok_def)
  obtain given where g: "given_path C s slot = Some given" using a by (auto simp: emuroot_host_path_arg_def split: option.splits)
  then have gc: "clean given" "given \<noteq> []"
    using str_at_clean by (auto simp: given_path_def read_str_at_eq PATH_LEN_def Let_def split: if_splits option.splits)
  have "\<exists>guest. absolute_guest_path C s (dirfd_slot C (path_sysno C s) slot) given (2 * PATH_LEN) = Some guest \<and>
      host = snd (translate s guest True PATH_LEN)"
  proof (cases "absolute_guest_path C s (dirfd_slot C (path_sysno C s) slot) given (2 * PATH_LEN)")
    case None
    then have "c_at given 0 \<noteq> SLASH" by (auto simp: absolute_guest_path_def)
    moreover have "host = snprintf PATH_LEN given" using a g None by (simp add: emuroot_host_path_arg_def)
    then have "c_at host 0 = c_at given 0" by (cases given) (simp_all add: snprintf_def PATH_LEN_def)
    ultimately show ?thesis using c by simp
  next
    case (Some guest)
    then show ?thesis using a g by (simp add: emuroot_host_path_arg_def)
  qed
  then obtain guest where ab: "absolute_guest_path C s (dirfd_slot C (path_sysno C s) slot) given (2 * PATH_LEN) = Some guest"
    and host: "host = snd (translate s guest True PATH_LEN)" by blast
  note cs = c_strings_trees [OF ok' rl]
  note gl = absolute_clean [OF cs gc(1) ab]
  have "clean host" "length host < PATH_LEN"
    using translate_clean [OF cs gl] length_translate unfolding host translate_def by blast+
  moreover have "under S host"
  proof (cases "c_at guest 0 = SLASH")
    case True
    then show ?thesis unfolding host translate_def by (rule translate_under [OF ok' rl gl])
  next
    case False
    then have "host = snprintf PATH_LEN guest"
      by (simp add: host translate_def emuroot_translate_path_def emuroot_translate_path_ex_def)
    then have "c_at host 0 = c_at guest 0" by (cases guest) (simp_all add: snprintf_def PATH_LEN_def)
    then show ?thesis using False c by simp
  qed
  moreover have "host \<noteq> []" using c by auto
  ultimately show ?thesis using canonical_tree [OF h] c by blast
qed

subsection \<open>The handlers keep it\<close>

lemma guest_arg_clean:
  assumes ok: "trees_ok S (s_ctx s) (t_root (s_tr s))" and h: "host_ok (s_host s)"
    and a: "emuroot_guest_path_arg C s n slot = Some (gt, ht)"
  shows "clean gt"
proof -
  have rl: "\<forall>p l. h_readlink (s_host s) p = Some l \<longrightarrow> clean l" using h by (simp add: host_ok_def)
  note cs = c_strings_trees [OF ok rl]
  obtain given path rw where g: "given_path C s slot = Some given"
    and ab: "absolute_guest_path C s (dirfd_slot C n slot) given (2 * PATH_LEN) = Some path"
    and t: "emuroot_translate_path_ex (s_ctx s) (h_readlink (s_host s)) (t_root (s_tr s)) path True PATH_LEN PATH_LEN = (rw, ht, gt)"
    using a by (auto simp: emuroot_guest_path_arg_def split: option.splits prod.splits)
  have "clean given"
    using g str_at_clean by (auto simp: given_path_def read_str_at_eq PATH_LEN_def Let_def split: if_splits option.splits)
  note p = absolute_clean [OF cs this ab]
  obtain cur q x y where w: "walk (map_to_host (s_ctx s) (t_root (s_tr s)) PATH_LEN) (h_readlink (s_host s)) True
      (''/'', snprintf (2 * PATH_LEN) path, ends_slash path, 0) = (cur, q, x, y)" by (rule prod_cases4)
  have "clean cur" by (rule walk_guest(1) [OF cs p w])
  then show ?thesis using t p w by (auto simp: emuroot_translate_path_ex_def Let_def split: if_splits)
qed

lemma add_mount_trees:
  assumes ok: "trees_ok S c root" and t: "tree S (canonical h host)" "clean gt"
  shows "trees_ok S (add_mount h host gt ht c) root"
proof (cases "emuroot_bind (Some c) (Some (canonical h host)) (Some gt)")
  case (Pair rc c')
  show ?thesis
  proof (cases "rc = EMUROOT_OK")
    case True
    then obtain d where d: "c' = Some d" using Pair by (auto simp: emuroot_bind_def status_defs split: if_splits)
    note b = emuroot_bind_OK(1) [OF Pair [unfolded True d]]
    have "b_host b' = b_host b \<and> b_guest b' = b_guest b \<Longrightarrow> tree S (b_host b) \<and> clean (b_guest b) \<Longrightarrow>
      tree S (b_host b') \<and> clean (b_guest b')" for b b' :: binding_t by simp
    then show ?thesis using ok t Pair True by (auto simp: add_mount_def d b set_mount_def trees_ok_def Let_def)
  next
    case False
    then have "c' = Some c" using Pair by (auto simp: emuroot_bind_def status_defs split: if_splits)
    then show ?thesis using ok Pair False by (simp add: add_mount_def)
  qed
qed

lemma unbind_trees: "trees_ok S c root \<Longrightarrow> trees_ok S (snd (emuroot_unbind c gt)) root"
  by (auto simp: trees_ok_def emuroot_unbind_def split: option.split dest!: drop_first_subset)

lemma mount_source_tree:
  assumes ok: "space_ok S s" and h: "host_ok (s_host s)" and S: "{[''proc''], [''sys''], [''dev'']} \<subseteq> S"
    and st: "get_arg C s 4 AND MS_BIND \<noteq> 0 \<longrightarrow> settles C s 1" and m: "mount_source C (path_sysno C s) s = Some host"
  shows "tree S (canonical (s_host s) host)"
proof (cases "get_arg C s 4 AND MS_BIND = 0")
  case False
  then have "emuroot_host_path_arg C s (path_sysno C s) 1 True = Some host" "settles C s 1"
    using m st by (auto simp: mount_source_def Let_def split: if_splits)
  then show ?thesis using host_arg_tree [OF ok h] by blast
next
  case True
  then have p: "host \<in> set pseudo"
    using m by (auto simp: mount_source_def pseudo_def Let_def split: if_splits option.splits)
  have c: "comps ''/proc'' = [''proc'']" "comps ''/sys'' = [''sys'']" "comps ''/dev'' = [''dev'']"
    "comps ''/dev/pts'' = [''dev''] @ [''pts'']" by code_simp+
  have "under S ''/proc''" "under S ''/sys''" "under S ''/dev''" "under S ''/dev/pts''"
    using S unfolding under_def c by (auto intro: bexI [of _ "[''dev'']"])
  moreover have "list_all (\<lambda>d. normal (comps d)) pseudo" by code_simp
  ultimately have "under S host \<and> normal (comps host) \<and> clean host \<and> length host < PATH_LEN \<and> host \<noteq> []"
    using p by (auto simp: pseudo_def PATH_LEN_def)
  moreover have "\<forall>c. h_realpath (s_host s) host = Some c \<longrightarrow> c_at c 0 = SLASH \<and> comps c = comps host"
    using h p by (simp add: host_ok_def)
  ultimately show ?thesis using canonical_tree [OF h] by blast
qed

lemma entry_reset_space: "space_ok S s \<Longrightarrow> space_ok S (entry_reset C s)"
  by (simp add: space_ok_def entry_reset_def)

lemma reset_same: "same_space s (entry_reset C s)" "s_regs (entry_reset C s) = s_regs s" "s_mem (entry_reset C s) = s_mem s"
  "s_host (entry_reset C s) = s_host s" "get_arg C (entry_reset C s) k = get_arg C s k" "path_sysno C (entry_reset C s) = path_sysno C s"
  by (simp_all add: same_space_def entry_reset_def get_arg_def path_sysno_def)

lemma settles_reset [simp]: "settles C (entry_reset C s) slot = settles C s slot"
  unfolding settles_def reset_same host_arg_cong(1) [OF reset_same(1-3)] ..

lemma chroot_space:
  assumes ok: "space_ok S s" and h: "host_ok (s_host s)" and st: "settles C s (ps_slot1 d)"
  shows "space_ok S (emulate_chroot C (path_sysno C s) d s)"
proof (cases "emuroot_host_path_arg C s (path_sysno C s) (ps_slot1 d) True")
  case None
  then show ?thesis using ok by (simp add: emulate_chroot_def)
next
  case (Some host)
  note t = host_arg_tree [OF ok h st Some]
  show ?thesis
  proof (cases "guest_dir_exists (s_host s) host")
    case True
    let ?u = "upd_tr (\<lambda>t. t\<lparr>pending_root := snprintf PATH_LEN (canonical (s_host s) host)\<rparr>) s"
    have "space_ok S ?u" using ok t by (simp add: space_ok_def)
    moreover have "outline (emulate_chroot C (path_sysno C s) d s) = outline ?u" using Some True by (simp add: outline_emulate_chroot)
    ultimately show ?thesis using space_ok_outline by blast
  next
    case False
    then show ?thesis using ok Some by (simp add: emulate_chroot_def)
  qed
qed

lemma mount_space:
  assumes ok: "space_ok S s" and h: "host_ok (s_host s)" and S: "{[''proc''], [''sys''], [''dev'']} \<subseteq> S"
    and st: "get_arg C s 4 AND MS_BIND \<noteq> 0 \<longrightarrow> settles C s 1"
  shows "space_ok S (emulate_mount C (path_sysno C s) s)"
proof -
  have tr: "trees_ok S (s_ctx s) (t_root (s_tr s))" using ok by (simp add: space_ok_def)
  have upd: "trees_ok S c (t_root (s_tr s)) \<Longrightarrow> space_ok S (s\<lparr>s_ctx := c\<rparr>)" for c using ok by (simp add: space_ok_def)
  show ?thesis
  proof (cases "emuroot_guest_path_arg C s (path_sysno C s) 2")
    case None
    then show ?thesis using ok by (simp add: emulate_mount_def)
  next
    case (Some g)
    obtain gt ht where g: "g = (gt, ht)" by fastforce
    note gc = guest_arg_clean [OF tr h Some [unfolded g]]
    show ?thesis
    proof (cases "mount_source C (path_sysno C s) s")
      case None
      then have "outline (emulate_mount C (path_sysno C s) s) = outline s" using Some g by (simp add: outline_emulate_mount)
      then show ?thesis using ok space_ok_outline by blast
    next
      case (Some host)
      let ?u = "s\<lparr>s_ctx := add_mount (s_host s) host gt ht (s_ctx s)\<rparr>"
      have "outline (emulate_mount C (path_sysno C s) s) = outline ?u"
        using Some \<open>emuroot_guest_path_arg C s (path_sysno C s) 2 = Some g\<close> g by (simp add: outline_emulate_mount)
      moreover have "space_ok S ?u" by (intro upd add_mount_trees [OF tr _ gc] mount_source_tree [OF ok h S st Some])
      ultimately show ?thesis using space_ok_outline by blast
    qed
  qed
qed

lemma umount_space:
  assumes ok: "space_ok S s" shows "space_ok S (emulate_umount C n s)"
proof (cases "emuroot_guest_path_arg C s n 1")
  case None
  then show ?thesis using ok by (simp add: emulate_umount_def)
next
  case (Some g)
  let ?u = "s\<lparr>s_ctx := snd (emuroot_unbind (s_ctx s) (fst g))\<rparr>"
  have "outline (emulate_umount C n s) = outline ?u" using Some by (simp add: outline_emulate_umount split: prod.split)
  moreover have "space_ok S ?u" using ok unbind_trees by (simp add: space_ok_def)
  ultimately show ?thesis using space_ok_outline by blast
qed

lemma entry_space:
  assumes ok: "space_ok S s" and h: "host_ok (s_host s)" and S: "{[''proc''], [''sys''], [''dev'']} \<subseteq> S" and o: "orderly_call C s"
  shows "space_ok S (emuroot_on_entry C s)"
proof (cases "has_fake_ids (s_ctx s)")
  case False
  then have "outline (emuroot_on_entry C s) = outline (entry_reset C s)" by (simp add: outline_on_entry)
  then show ?thesis using entry_reset_space [OF ok] space_ok_outline by blast
next
  case True
  let ?n = "path_sysno C s" and ?a = "entry_action C s" and ?u = "entry_identity C s"
  have e: "outline (emuroot_on_entry C s) = outline (snd (emuroot_emulate_mounts C ?n ?a ?u))"
    using True by (simp add: outline_on_entry path_sysno_def)
  have "outline ?u = outline (entry_reset C s)" by (simp add: entry_identity_def)
  then have u: "space_ok S ?u" using entry_reset_space [OF ok] space_ok_outline by blast
  have id: "?a \<in> {Some A_CHROOT, Some A_MOUNT, Some A_UMOUNT} \<Longrightarrow> ?u = entry_reset C s"
    by (auto simp: entry_identity_def emuroot_identity_entry_def neutralize_id_change_def)
  note r = entry_reset_space [OF ok, of C] and hr = h [folded reset_same(4) [of C s]]
  have "space_ok S (snd (emuroot_emulate_mounts C ?n ?a ?u))"
  proof (cases "?a \<in> {Some A_CHROOT, Some A_MOUNT, Some A_UMOUNT}")
    case False
    then show ?thesis using u by (auto simp: emuroot_emulate_mounts_def split: option.split action.split)
  next
    case True
    note i = id [OF True]
    from True consider (ch) "?a = Some A_CHROOT" | (mt) "?a = Some A_MOUNT" | (um) "?a = Some A_UMOUNT" by blast
    then show ?thesis
    proof cases
      case ch
      have "space_ok S (emulate_chroot C ?n d (entry_reset C s))" if "emuroot_find_path_syscall (c_nr C) ?n = Some d" for d
        using chroot_space [where d = d and C = C, OF r hr, unfolded reset_same(6)] o ch that by (simp add: orderly_call_def)
      then show ?thesis using ch r by (simp add: emuroot_emulate_mounts_def i Let_def split: option.split)
    next
      case mt
      have "get_arg C (entry_reset C s) 4 AND MS_BIND \<noteq> 0 \<longrightarrow> settles C (entry_reset C s) 1"
        using o mt by (simp add: orderly_call_def reset_same)
      from mount_space [OF r hr S this] show ?thesis using mt r by (simp add: emuroot_emulate_mounts_def i reset_same)
    next
      case um
      show ?thesis using um r umount_space [OF r] by (simp add: emuroot_emulate_mounts_def i)
    qed
  qed
  then show ?thesis using e space_ok_outline by blast
qed

lemma exit_space: "space_ok S s \<Longrightarrow> space_ok S (emuroot_on_exit C s)"
proof -
  assume ok: "space_ok S s"
  show ?thesis
  proof (cases "chroot_done C s")
    case True
    then have "space_ok S (upd_tr take_root s)"
      using ok by (auto simp: space_ok_def take_root_def chroot_done_def trees_ok_def tree_def)
    then show ?thesis using True outline_on_exit [of C s] space_ok_outline by metis
  next
    case False
    then show ?thesis using ok outline_on_exit [of C s] space_ok_outline by metis
  qed
qed

subsection \<open>Runs\<close>

definition context_ok :: "string list set \<Rightarrow> emuroot_ctx \<Rightarrow> bool" where
  "context_ok S ctx \<longleftrightarrow> {[''proc''], [''sys''], [''dev'']} \<subseteq> S \<and> trees_ok S ctx (ctx_root ctx)"

definition roots_ok :: "string list set \<Rightarrow> tracee_t \<Rightarrow> bool" where
  "roots_ok S t \<longleftrightarrow> tree S (t_root t) \<and> (pending_root t \<noteq> [] \<longrightarrow> tree S (pending_root t))"

definition confined :: "string list set \<Rightarrow> tracer \<Rightarrow> bool" where
  "confined S T \<longleftrightarrow> context_ok S (tr_ctx T) \<and> (\<forall>t \<in> set (tracees T). roots_ok S t)"

lemma space_ok_parts: "context_ok S (s_ctx s) \<Longrightarrow> space_ok S s \<longleftrightarrow> roots_ok S (s_tr s)"
  by (auto simp: space_ok_def context_ok_def roots_ok_def trees_ok_def)

lemma context_ok_space: "space_ok S s' \<Longrightarrow> ctx_root (s_ctx s') = ctx_root (s_ctx s) \<Longrightarrow> context_ok S (s_ctx s) \<Longrightarrow> context_ok S (s_ctx s')"
  by (auto simp: context_ok_def space_ok_def trees_ok_def)

lemma orderly_noted: "orderly_call C (note_entry C s) = orderly_call C s"
proof -
  have n: "same_space s (note_entry C s)" "s_regs (note_entry C s) = s_regs s" "s_mem (note_entry C s) = s_mem s"
    "s_host (note_entry C s) = s_host s" "get_arg C (note_entry C s) k = get_arg C s k" "path_sysno C (note_entry C s) = path_sysno C s" for k
    by (simp_all add: note_entry_def same_space_def get_arg_def path_sysno_def)
  have st: "settles C (note_entry C s) slot = settles C s slot" for slot
    unfolding settles_def n host_arg_cong(1) [OF n(1-3)] ..
  show ?thesis unfolding orderly_call_def entry_action_def n st ..
qed

interpretation conf: run_invariant C "context_ok S" "roots_ok S" "\<lambda>s. host_ok (s_host s) \<and> orderly_call C s" for C S
proof unfold_locales
  fix s :: sys
  assume c: "context_ok S (s_ctx s)" and r: "roots_ok S (s_tr s)"
  have sp: "space_ok S s" using space_ok_parts [OF c] r by simp
  have kept: "context_ok S (s_ctx s') \<and> roots_ok S (s_tr s')" if "space_ok S s'" "ctx_root (s_ctx s') = ctx_root (s_ctx s)" for s'
    using context_ok_space [OF that c] space_ok_parts that(1) by blast
  show "host_ok (s_host s) \<and> orderly_call C s \<Longrightarrow>
      context_ok S (s_ctx (emuroot_on_entry C s)) \<and> roots_ok S (s_tr (emuroot_on_entry C s))"
    using entry_space [OF sp] c by (intro kept) (auto simp: context_ok_def handler_root)
  show "context_ok S (s_ctx (emuroot_on_exit C s)) \<and> roots_ok S (s_tr (emuroot_on_exit C s))"
    using exit_space [OF sp] by (intro kept) (simp_all add: handler_root)
next
  show "(host_ok (s_host (note_entry C s)) \<and> orderly_call C (note_entry C s)) = (host_ok (s_host s) \<and> orderly_call C s)" for s :: sys
    by (simp add: orderly_noted) (simp add: note_entry_def)
qed (auto simp: roots_ok_def context_ok_def new_tracee_def tracee_inherit_def zero_tracee_def trees_ok_def tree_def Let_def)

lemma confined_holds: "confined S = conf.holds S"
  by (simp add: fun_eq_iff confined_def conf.holds_def)

text \<open>The passes whose \<^verbatim>\<open>chroot\<close> or bind mount, if they make one, settles.\<close>

definition orderly :: "cfg \<Rightarrow> bool \<Rightarrow> wait_result \<Rightarrow> tracer \<Rightarrow> bool" where
  "orderly C = fitting (orderly_call C)"

fun hosts_ok :: "wait_result \<Rightarrow> bool" where
  "hosts_ok (Event st) \<longleftrightarrow> host_ok (sp_host st)"
| "hosts_ok _ \<longleftrightarrow> True"

inductive orderly_runs :: "cfg \<Rightarrow> bool \<Rightarrow> int \<Rightarrow> tracer \<Rightarrow> wait_result list \<Rightarrow> tracer \<Rightarrow> bool"
  for C seccomp_mode root_pid T0 where
  orderly_start: "orderly_runs C seccomp_mode root_pid T0 [] T0"
| orderly_pass: "orderly_runs C seccomp_mode root_pid T0 ws T \<Longrightarrow> orderly C seccomp_mode w T \<Longrightarrow>
    loop_step C seccomp_mode root_pid w T = (None, r, T') \<Longrightarrow> orderly_runs C seccomp_mode root_pid T0 (ws @ [w]) T'"

lemma tracee_for_confined: "confined S T \<Longrightarrow> tracee_for st T = (oi, T1) \<Longrightarrow> confined S T1"
  unfolding confined_holds by (rule conf.holds_for)

lemma stopped_space: "confined S T \<Longrightarrow> i < length (tracees T) \<Longrightarrow> space_ok S (stopped st i T r)"
  using space_ok_parts [of S "stopped st i T r"] by (simp add: confined_def stopped_def)

lemma runs_confined: "orderly_runs C sm root T0 ws T \<Longrightarrow> confined S T0 \<Longrightarrow> \<forall>w \<in> set ws. hosts_ok w \<Longrightarrow> confined S T"
proof (induction rule: orderly_runs.induct)
  case (orderly_pass ws T w r T')
  then have "confined S T" "hosts_ok w" by simp_all
  moreover have "fitting (\<lambda>s. host_ok (s_host s) \<and> orderly_call C s) sm w T"
    using orderly_pass.hyps(2) \<open>hosts_ok w\<close> by (auto simp: orderly_def fitting_def stopped_def)
  ultimately show ?case using conf.holds_pass [OF _ orderly_pass.hyps(3)] by (simp add: confined_holds)
qed simp

subsection \<open>The state the loop begins in\<close>

definition session_trees :: "emuroot_ctx \<Rightarrow> string list set" where
  "session_trees ctx = insert (comps (ctx_root ctx)) ((\<lambda>b. comps (b_host b)) ` set (bindings ctx)) \<union>
     {[''proc''], [''sys''], [''dev'']}"

definition plain_dir :: "string \<Rightarrow> bool" where
  "plain_dir d \<longleftrightarrow> (d = [] \<or> hd d = SLASH) \<and> normal (comps d) \<and> clean d \<and> length d < PATH_LEN"

definition plain_session :: "emuroot_ctx \<Rightarrow> bool" where
  "plain_session ctx \<longleftrightarrow> plain_dir (ctx_root ctx) \<and> (\<forall>b \<in> set (bindings ctx). plain_dir (b_host b) \<and> clean (b_guest b))"

lemma tree_start: "plain_dir d \<Longrightarrow> comps d \<in> S \<Longrightarrow> tree S d"
  by (auto simp: plain_dir_def tree_def under_def intro!: bexI [of _ "comps d"])

lemma start_confined:
  assumes "plain_session ctx" shows "confined (session_trees ctx) (loop_start ctx pid)"
proof -
  have r: "tree (session_trees ctx) (ctx_root ctx)" "length (ctx_root ctx) < PATH_LEN"
    using assms by (auto simp: plain_session_def session_trees_def plain_dir_def intro: tree_start)
  have "\<forall>b \<in> set (bindings ctx). tree (session_trees ctx) (b_host b) \<and> clean (b_guest b)"
    using assms by (auto simp: plain_session_def session_trees_def intro!: tree_start)
  then show ?thesis using r
    by (auto simp: confined_def context_ok_def roots_ok_def session_trees_def trees_ok_def loop_start_def tracees_def new_tracee_def zero_tracee_def Let_def)
qed

subsection \<open>What the kernel is left with\<close>

text \<open>A path register: NULL, or a string under the trees; or the guest's own relative string, when what it names
  translates to itself.\<close>

definition safe_path :: "string list set \<Rightarrow> mem \<Rightarrow> u64 \<Rightarrow> string \<Rightarrow> string \<Rightarrow> bool" where
  "safe_path S m p given guest \<longleftrightarrow> p = 0 \<or>
     (\<exists>host. str_at m p PATH_LEN = Some host \<and> (under S host \<or> host = given \<and> c_at given 0 \<noteq> SLASH \<and> under S guest))"

lemma translate_False:
  assumes "translate s guest f PATH_LEN = (False, host)" and "t_root (s_tr s) \<noteq> [] \<or> bindings (s_ctx s) \<noteq> []" and "c_at guest 0 = SLASH"
  shows "host = guest"
proof -
  let ?m = "map_to_host (s_ctx s) (t_root (s_tr s)) PATH_LEN"
  let ?r = "walk ?m (h_readlink (s_host s)) f (''/'', snprintf (2 * PATH_LEN) guest, ends_slash guest, 0)"
  have "length (finish ?m ?r) < PATH_LEN" by (rule length_finish [OF length_map_to_host])
  then show ?thesis using assms by (auto simp: translate_def emuroot_translate_path_def emuroot_translate_path_ex_def Let_def)
qed

lemma shows_safe:
  assumes ok: "space_ok S s" and h: "host_ok (s_host s)" and active: "t_root (s_tr s) \<noteq> [] \<or> bindings (s_ctx s) \<noteq> []"
    and n: "names C u sysno slot given guest" "clean guest" "c_at guest 0 = SLASH" "length given < PATH_LEN"
    and p: "p = 0 \<or> read_str_at t p PATH_LEN = Some (shown s given guest f)"
  shows "safe_path S (s_mem t) p given guest"
proof (cases "p = 0")
  case False
  have tr: "trees_ok S (s_ctx s) (t_root (s_tr s))" and rl: "\<forall>p l. h_readlink (s_host s) p = Some l \<longrightarrow> clean l"
    using ok h by (simp_all add: space_ok_def host_ok_def)
  have u: "under S (snd (translate s guest f PATH_LEN))" unfolding translate_def by (rule translate_under [OF tr rl n(2,3)])
  obtain rw host where t: "translate s guest f PATH_LEN = (rw, host)" by fastforce
  have g: "c_at given 0 = SLASH \<Longrightarrow> given = guest" using n(1,4) by (auto simp: names_def absolute_guest_path_def)
  have "under S (shown s given guest f) \<or> shown s given guest f = given \<and> c_at given 0 \<noteq> SLASH \<and> under S guest"
    using u t g translate_False [of s guest f host] active n(3) by (cases rw) (auto simp: shown_def)
  then show ?thesis using p False by (auto simp: safe_path_def read_str_at_eq PATH_LEN_def)
qed (simp add: safe_path_def)

text \<open>The entry stop of a call in a run: the state the handler starts from.\<close>

lemma entry_in_run:
  assumes start: "plain_session ctx" and run: "orderly_runs C sm root (loop_start ctx root) ws T" and hosts: "\<forall>w \<in> set ws. hosts_ok w"
    and st: "tracee_for st T = (Some i, T1)" "sp_regs st = Some r" "at_entry sm st (tracees T1 ! i)" "host_ok (sp_host st)"
    and s: "s = stopped st i T1 r" and handled: "handle_stop C sm st i T1 = (sig, Some (kregs, mem), T2)"
  obtains n where "kregs = s_kregs (emuroot_on_entry C n)" "mem = s_mem (emuroot_on_entry C n)" "space_ok (session_trees ctx) s" "host_ok (s_host s)"
    "s_ctx n = s_ctx s" "s_host n = s_host s" "s_regs n = s_regs s" "s_kregs n = s_kregs s" "s_mem n = s_mem s"
    "t_root (s_tr n) = t_root (s_tr s)" "t_pid (s_tr n) = t_pid (s_tr s)" "s_kregs s = s_regs s"
proof -
  let ?S = "session_trees ctx"
  have "confined ?S T" by (rule runs_confined [OF run start_confined [OF start] hosts])
  then have c: "confined ?S T1" using tracee_for_confined st(1) by blast
  have ok: "space_ok ?S s" unfolding s by (rule stopped_space [OF c tracee_for_index [OF st(1)]])
  have hs: "s_host s = sp_host st" "s_kregs s = s_regs s" by (simp_all add: s stopped_def)
  define n where "n = (if syscall_stop st then note_entry C s else s)"
  have nf: "s_ctx n = s_ctx s" "s_host n = s_host s" "s_regs n = s_regs s" "s_kregs n = s_kregs s" "s_mem n = s_mem s"
    "t_root (s_tr n) = t_root (s_tr s)" "t_pid (s_tr n) = t_pid (s_tr s)" by (simp_all add: n_def note_entry_def)
  have eff: "kregs = s_kregs (emuroot_on_entry C n)" "mem = s_mem (emuroot_on_entry C n)"
    using handled st(2,3) s
    by (auto simp: handle_stop_def at_entry_def syscall_stop_def event_of_def with_regs_def n_def stopped_def Let_def split: if_splits)
  show ?thesis using that [OF eff ok _ nf hs(2)] st(4) hs(1) by simp
qed


subsection \<open>Programs\<close>

text \<open>The host path \<^verbatim>\<open>exec.c\<close> finds for an absolute guest path.\<close>

lemma host_path_of_under:
  assumes ok: "space_ok S s" and h: "host_ok (s_host s)" and p: "clean path" "c_at path 0 = SLASH"
  shows "under S (host_path_of s path PATH_LEN)"
proof -
  have "trees_ok S (s_ctx s) (t_root (s_tr s))" "\<forall>p l. h_readlink (s_host s) p = Some l \<longrightarrow> clean l"
    using ok h by (simp_all add: space_ok_def host_ok_def)
  from translate_under [OF this p] show ?thesis using p(2) by (simp add: host_path_of_def translate_def)
qed

lemma through_scripts_clean: "through_scripts s k path = Some p \<Longrightarrow> clean path \<Longrightarrow> clean p"
proof (induction k arbitrary: path)
  case (Suc k)
  then obtain i opt where i: "script_at s path = Some (i, opt)" "through_scripts s k (snprintf PATH_LEN i) = Some p"
    by (auto split: option.splits)
  then obtain head where "parse_shebang head = Some (i, opt)" by (auto simp: script_at_def split: option.splits)
  then have "clean i" using parse_shebang_ok by blast
  then have "clean (snprintf PATH_LEN i)" by (auto simp: clean_def snprintf_def dest: in_set_takeD)
  then show ?case using Suc.IH i(2) by blast
qed simp

text \<open>Every file in the chain of interpreters, and the loader of the last, is named by an absolute path.\<close>

definition absolute_chain :: "sys \<Rightarrow> string \<Rightarrow> bool" where
  "absolute_chain s path \<longleftrightarrow> (\<forall>k p. through_scripts s k path = Some p \<longrightarrow>
     c_at p 0 = SLASH \<and> (\<forall>i. loader_needed s (host_path_of s p PATH_LEN) = Some i \<longrightarrow> c_at i 0 = SLASH))"

lemma exec_target_under:
  assumes ok: "space_ok S s" and h: "host_ok (s_host s)" and a: "absolute_chain s path" "clean path"
    and l: "exec_loop MAX_SHEBANG_DEPTH s x = (s', x')" "x_path x = path"
  shows "under S (x_host x')"
proof -
  have t: "trees_ok S (s_ctx s) (t_root (s_tr s))" "\<forall>p l. h_readlink (s_host s) p = Some l \<longrightarrow> clean l"
    using ok h by (simp_all add: space_ok_def host_ok_def)
  have u: "under S (host_path_of s p PATH_LEN)" "under S (program_host s p)" if "through_scripts s k path = Some p" for k p
  proof -
    note p = through_scripts_clean [OF that a(2)] and c = a(1) [unfolded absolute_chain_def, rule_format, OF that]
    show "under S (host_path_of s p PATH_LEN)" using host_path_of_under [OF ok h p] c by blast
    show "under S (program_host s p)"
    proof (cases "loader_needed s (host_path_of s p PATH_LEN)")
      case None
      then show ?thesis using host_path_of_under [OF ok h p] c by (simp add: program_host_def Let_def)
    next
      case (Some i)
      then obtain f where "elf_interp f PATH_LEN = Some i" by (auto simp: loader_needed_def split: option.splits if_splits)
      then have "clean i" using elf_interp_ok by blast
      then have "under S (snd (translate s i True PATH_LEN))" using translate_under [OF t] c Some by (simp add: translate_def)
      then show ?thesis using Some by (simp add: program_host_def Let_def)
    qed
  qed
  have "0 < MAX_SHEBANG_DEPTH" by (simp add: MAX_SHEBANG_DEPTH_def)
  from exec_loop_target [OF l(1) this] show ?thesis unfolding l(2) using u by metis
qed

definition exec_sysno :: "cfg \<Rightarrow> int \<Rightarrow> bool" where
  "exec_sysno C n \<longleftrightarrow> is_sys C ''execve'' n \<and> emuroot_action_of (c_nr C) (c_lp64 C) n = Some A_EXECVE \<and>
     emuroot_find_path_syscall (c_nr C) n = None \<and> (\<forall>m \<in> {''bind'', ''connect'', ''sendto'', ''execveat''}. \<not> is_sys C m n)"

lemma entry_exec:
  assumes "exec_sysno C (path_sysno C s)"
  shows "emuroot_on_entry C s =
    (case emuroot_rewrite_exec C 1 2 (entry_reset C s) of
       (r, s') \<Rightarrow> if r \<noteq> 0 then s' else rewrite_path_arg C (path_sysno C s) 1 True 0 s')"
proof -
  let ?n = "path_sysno C s"
  have m: "emuroot_emulate_mounts C ?n (Some A_EXECVE) u = (False, u)" for u by (simp add: emuroot_emulate_mounts_def)
  have i: "emuroot_identity_entry C ?n (Some A_EXECVE) u = u" for u by (simp add: emuroot_identity_entry_def neutralize_id_change_def)
  have "emuroot_on_entry C s = entry_call C ?n (entry_reset C s)"
    using assms by (simp add: emuroot_on_entry_def path_sysno_def [symmetric] exec_sysno_def Let_def m i)
  then show ?thesis using assms by (simp add: entry_call_def exec_sysno_def Let_def cong: if_cong)
qed

text \<open>What the handler sees of an exec does not depend on the loop's own fields.\<close>

lemma path_given_same:
  assumes "same_space s u" and "s_regs u = s_regs s" "s_mem u = s_mem s" "scratch_top (s_tr u) = scratch_top (s_tr s)"
  shows "path_given C u n slot path guest k = path_given C s n slot path guest k"
proof -
  have ar: "get_arg C u j = get_arg C s j" for j by (simp add: get_arg_def assms(2))
  show ?thesis
    unfolding path_given_def names_def ar absolute_same_space [OF assms(1) disjI2 [OF disjI2 [OF ar]]] away_def read_str_at_def
      strict_openat2_def assms(2-4) ..
qed

lemma absolute_chain_same:
  assumes "same_space s u" "s_host u = s_host s"
  shows "absolute_chain u path = absolute_chain s path"
proof -
  have e: "s_ctx u = s_ctx s" "t_root (s_tr u) = t_root (s_tr s)" "t_pid (s_tr u) = t_pid (s_tr s)" "s_host u = s_host s"
    using assms by (simp_all add: same_space_def)
  have hp: "host_path_of u p z = host_path_of s p z" for p z
    by (simp add: host_path_of_def translate_same_space [OF assms(1)] readlink_buf_def cwd_link_def e)
  have ts: "through_scripts u k p = through_scripts s k p" for k p
    by (induction k arbitrary: p) (simp_all add: script_at_def hp e split: option.split)
  show ?thesis unfolding absolute_chain_def ts hp loader_needed_def e translate_same_space [OF assms(1)] ..
qed

text \<open>A path the exec handler leaves alone is redirected like that of any call.\<close>

lemma plain_exec_safe:
  assumes wf: "arch_wf (c_arch C)" and ok: "space_ok S u" "host_ok (s_host u)" and sy: "kregs_synced C u"
    and ac: "t_root (s_tr u) \<noteq> [] \<or> bindings (s_ctx u) \<noteq> []"
    and pg: "path_given C u n 1 path guest (2 * SLACK)" and g: "c_at guest 0 = SLASH"
  shows "safe_path S (s_mem (rewrite_path_arg C n 1 True 0 u)) (s_kregs (rewrite_path_arg C n 1 True 0 u) (reg_arg (c_arch C) 1)) path guest"
proof -
  have tr: "trees_ok S (s_ctx u) (t_root (s_tr u))" and rl: "\<forall>p l. h_readlink (s_host u) p = Some l \<longrightarrow> clean l"
    using ok by (simp_all add: space_ok_def host_ok_def)
  have cs: "c_strings (s_ctx u) (t_root (s_tr u)) (h_readlink (s_host u))" by (rule c_strings_trees [OF tr rl])
  have nm: "names C u n 1 path guest" using pg by (auto simp: path_given_def)
  note f = rewrite_path_arg_effect [OF wf _ cs ac sy, of 1 n path guest SLACK True 0]
  have one: "(1 :: nat) \<in> {1..6}" "path_given C u n 1 path guest (SLACK + SLACK)" using pg by (simp_all add: mult_2)
  note k = shown_path_kreg [OF wf f(3,5) [OF one] one(1) refl]
  show ?thesis
    using shows_safe [OF ok(1) _ ac nm names_clean(3) [OF nm cs] g names_clean(2) [OF nm cs] k] ok(2) by simp
qed


text \<open>Process 7 of a session with root \<^verbatim>\<open>/srv\<close> makes \<^verbatim>\<open>rename("/usr/x", "/usr/y")\<close> after a trap.\<close>

definition demo_session :: emuroot_ctx where
  "demo_session = zero_ctx\<lparr>ctx_root := ''/srv''\<rparr>"

definition demo_stop :: "u32 \<Rightarrow> stop" where
  "demo_stop status = \<lparr>sp_pid = 7, sp_status = status, sp_regs = Some (s_regs demo_rename), sp_msg = None, sp_mem = s_mem demo_rename,
     sp_host = demo_host\<lparr>h_realpath := (\<lambda>_. None)\<rparr>\<rparr>"


text \<open>The same process runs \<^verbatim>\<open>/usr/x\<close>, a script for \<^verbatim>\<open>/i\<close>.\<close>

definition demo_exec_stop :: "u32 \<Rightarrow> stop" where
  "demo_exec_stop status = (demo_stop status)\<lparr>sp_regs := Some ((s_regs demo_exec)(15 := 59)), sp_mem := s_mem demo_exec,
     sp_host := (s_host demo_exec)\<lparr>h_realpath := (\<lambda>_. None)\<rparr>\<rparr>"

lemma demo_script_chain:
  fixes s :: sys
  assumes h: "s_host s = (s_host demo_exec)\<lparr>h_realpath := (\<lambda>_. None)\<rparr>" and r: "t_root (s_tr s) = ''/srv''" "bindings (s_ctx s) = []"
  shows "absolute_chain s ''/usr/x''"
proof -
  have hp: "host_path_of s p PATH_LEN = snd (emuroot_translate_path zero_ctx (h_readlink demo_host) ''/srv'' p True PATH_LEN)" if "c_at p 0 = SLASH" for p
  proof -
    have "map_to_host (s_ctx s) ''/srv'' = map_to_host zero_ctx ''/srv''" using r(2) by (simp add: map_to_host_def fun_eq_iff zero_ctx_def Let_def)
    then show ?thesis using that r h
      by (simp add: host_path_of_def translate_def emuroot_translate_path_def emuroot_translate_path_ex_def demo_exec_def demo_script_def zero_ctx_def)
  qed
  have x: "host_path_of s ''/usr/x'' PATH_LEN = ''/srv/usr/x''" "host_path_of s ''/i'' PATH_LEN = ''/srv/i''"
    by (subst hp; code_simp)+
  have rd: "h_read (s_host s) ''/srv/usr/x'' = Some (str_bytes ''#!/i'')" "h_read (s_host s) ''/srv/i'' = None"
    by (simp_all add: h demo_exec_def demo_script_def)
  have "parse_shebang (bytes_str (take 256 (str_bytes ''#!/i''))) = Some (''/i'', None)" "elf_interp (str_bytes ''#!/i'') PATH_LEN = None"
    "snprintf PATH_LEN ''/i'' = ''/i''" by code_simp+
  then have sc: "script_at s ''/usr/x'' = Some (''/i'', None)" "script_at s ''/i'' = None"
    "loader_needed s ''/srv/usr/x'' = None" "loader_needed s ''/srv/i'' = None" and i: "snprintf PATH_LEN ''/i'' = ''/i''"
    by (simp_all add: script_at_def loader_needed_def x rd)
  have "p = ''/usr/x'' \<or> p = ''/i''" if "through_scripts s k ''/usr/x'' = Some p" for k p
  proof (cases k)
    case (Suc m)
    then show ?thesis using that sc i by (cases m) simp_all
  qed (use that in simp)
  then show ?thesis unfolding absolute_chain_def using sc x by (fastforce simp: c_at_def)
qed


subsection \<open>From the configuration to the loop\<close>

text \<open>A directory the caller names: \<^verbatim>\<open>realpath\<close> answers for it with a canonical absolute path, or it is one itself.\<close>

definition realpath_ok :: "(string \<Rightarrow> string option) \<Rightarrow> bool" where
  "realpath_ok rp \<longleftrightarrow> (\<forall>p c. rp p = Some c \<longrightarrow> c_at c 0 = SLASH \<and> plain_dir c)"

definition real_dir :: "(string \<Rightarrow> string option) \<Rightarrow> string \<Rightarrow> string" where
  "real_dir rp d = (case rp d of Some c \<Rightarrow> c | None \<Rightarrow> d)"

definition usable_dir :: "(string \<Rightarrow> string option) \<Rightarrow> string \<Rightarrow> bool" where
  "usable_dir rp d \<longleftrightarrow> rp d \<noteq> None \<or> plain_dir d"

lemma real_dir_plain: "realpath_ok rp \<Longrightarrow> usable_dir rp d \<Longrightarrow> plain_dir (real_dir rp d)"
  by (auto simp: realpath_ok_def usable_dir_def real_dir_def split: option.split)

lemma plain_snprintf: "plain_dir d \<Longrightarrow> snprintf PATH_LEN d = d"
  by (simp add: plain_dir_def snprintf_len)

lemma realpath_kept: "realpath_ok rp \<Longrightarrow> rp p = Some c \<Longrightarrow> snprintf PATH_LEN c = c"
  unfolding realpath_ok_def by (blast intro: plain_snprintf)

lemma comps_slash: "comps ''/'' = []" "comps [] = []"
  by (simp_all add: comps.simps Let_def)

lemma canonical_root:
  assumes "realpath_ok rp" and "ctx_root ctx \<noteq> [] \<longrightarrow> usable_dir rp (ctx_root ctx)"
  shows "plain_dir (ctx_root (canonical_ctx rp ctx))"
    and "comps (ctx_root (canonical_ctx rp ctx)) = (if ctx_root ctx = [] then [] else comps (real_dir rp (ctx_root ctx)))"
proof -
  have n: "plain_dir []" by (simp add: plain_dir_def comps_slash normal_def clean_def PATH_LEN_def)
  have r: "ctx_root (canonical_ctx rp ctx) = (if ctx_root ctx = [] \<or> real_dir rp (ctx_root ctx) = ''/'' then [] else real_dir rp (ctx_root ctx))"
    by (cases "rp (ctx_root ctx)") (auto simp: canonical_ctx_def real_dir_def Let_def realpath_kept [OF assms(1)] split: option.splits)
  show "plain_dir (ctx_root (canonical_ctx rp ctx))" using real_dir_plain [OF assms(1)] assms(2) n by (simp add: r)
  show "comps (ctx_root (canonical_ctx rp ctx)) = (if ctx_root ctx = [] then [] else comps (real_dir rp (ctx_root ctx)))"
    by (simp add: r comps_slash)
qed

lemma canonical_bindings:
  assumes "realpath_ok rp" and "\<forall>b \<in> set (bindings ctx). usable_dir rp (b_host b)"
  shows "map b_host (bindings (canonical_ctx rp ctx)) = map (real_dir rp \<circ> b_host) (bindings ctx)"
    and "map b_guest (bindings (canonical_ctx rp ctx)) = map b_guest (bindings ctx)"
proof -
  have "b_host (attach_binding root (canon_binding rp b)) = real_dir rp (b_host b)" if "b \<in> set (bindings ctx)" for b root
    by (simp add: attach_binding_def canon_binding_def real_dir_def Let_def realpath_kept [OF assms(1)] split: option.split)
  then show "map b_host (bindings (canonical_ctx rp ctx)) = map (real_dir rp \<circ> b_host) (bindings ctx)"
    by (simp add: canonical_ctx_def Let_def)
  show "map b_guest (bindings (canonical_ctx rp ctx)) = map b_guest (bindings ctx)"
    by (simp add: canonical_ctx_def attach_binding_def canon_binding_def Let_def split: option.split)
qed

text \<open>The directories a caller gives.\<close>

definition given_trees :: "(string \<Rightarrow> string option) \<Rightarrow> emuroot_ctx \<Rightarrow> string list set" where
  "given_trees rp ctx = insert (if ctx_root ctx = [] then [] else comps (real_dir rp (ctx_root ctx)))
     ((\<lambda>b. comps (real_dir rp (b_host b))) ` set (bindings ctx)) \<union> {[''proc''], [''sys''], [''dev'']}"

definition usable_ctx :: "(string \<Rightarrow> string option) \<Rightarrow> emuroot_ctx \<Rightarrow> bool" where
  "usable_ctx rp ctx \<longleftrightarrow> realpath_ok rp \<and> (ctx_root ctx \<noteq> [] \<longrightarrow> usable_dir rp (ctx_root ctx)) \<and>
     (\<forall>b \<in> set (bindings ctx). usable_dir rp (b_host b) \<and> clean (b_guest b))"

lemma canonical_session:
  assumes "usable_ctx rp ctx"
  shows "plain_session (canonical_ctx rp ctx)" "session_trees (canonical_ctx rp ctx) = given_trees rp ctx"
proof -
  have a: "realpath_ok rp" "ctx_root ctx \<noteq> [] \<longrightarrow> usable_dir rp (ctx_root ctx)" "\<forall>b \<in> set (bindings ctx). usable_dir rp (b_host b)"
    using assms by (simp_all add: usable_ctx_def)
  note r = canonical_root [OF a(1,2)] and b = canonical_bindings [OF a(1,3)]
  have h: "b_host ` set (bindings (canonical_ctx rp ctx)) = (real_dir rp \<circ> b_host) ` set (bindings ctx)"
    "b_guest ` set (bindings (canonical_ctx rp ctx)) = b_guest ` set (bindings ctx)"
    using arg_cong [OF b(1), of set] arg_cong [OF b(2), of set] by simp_all
  have "\<forall>x \<in> b_host ` set (bindings (canonical_ctx rp ctx)). plain_dir x" "\<forall>x \<in> b_guest ` set (bindings (canonical_ctx rp ctx)). clean x"
    unfolding h using real_dir_plain [OF a(1)] a(3) assms by (auto simp: usable_ctx_def)
  then show "plain_session (canonical_ctx rp ctx)" using r(1) by (auto simp: plain_session_def)
  have "(\<lambda>b. comps (b_host b)) ` set (bindings (canonical_ctx rp ctx)) = (\<lambda>b. comps (real_dir rp (b_host b))) ` set (bindings ctx)"
    using arg_cong [OF h(1), of "image comps"] by (simp add: image_image)
  then show "session_trees (canonical_ctx rp ctx) = given_trees rp ctx" by (simp add: session_trees_def given_trees_def r(2))
qed

text \<open>The context the tracer starts with: the names made canonical, the table of owners read back from its file.\<close>

definition session_ctx :: "boot \<Rightarrow> emuroot_ctx \<Rightarrow> emuroot_ctx" where
  "session_ctx bt ctx = (let k = canonical_ctx (h_realpath (bt_host bt)) ctx in
     if ids_file k \<noteq> [] then
       k\<lparr>owners := emuroot_owners_load (h_calloc (bt_host bt)) (owners k) (map_option (map (char_of \<circ> unat)) (h_read (bt_host bt) (ids_file k)))\<rparr>
     else k)"



subsection \<open>A way out\<close>

text \<open>C28: what \<open>run_confined\<close> leaves out is real: \<^verbatim>\<open>chroot\<close> without \<^verbatim>\<open>chdir\<close> leaves the session. An emulated
  \<^verbatim>\<open>chroot\<close> changes the process's root but not the kernel's working directory. When that directory is not below
  the new root (and nothing is bound), every later call with one relative path reaches the kernel with the guest's own
  registers and memory, so from \<^verbatim>\<open>/srv\<close> as working directory \<^verbatim>\<open>../etc/passwd\<close> names the host's file.\<close>

theorem chroot_without_chdir_escapes:
  assumes chroot: "chroot_done C e" "pending_root (s_tr e) = jail" "length jail < PATH_LEN"
    and later: "t_root (s_tr s) = t_root (s_tr (emuroot_on_exit C e))" "bindings (s_ctx s) = []"
    and cwd: "readlink_buf s (''/proc/'' @ dec_int (t_pid (s_tr s)) @ ''/cwd'') = Some cwd" "\<not> has_prefix cwd jail (length jail)"
    and d: "emuroot_find_path_syscall (c_nr C) (path_sysno C s) = Some d" "plain_path_call C (path_sysno C s)" "ps_slot2 d = 0"
      "dirfd_slot C (path_sysno C s) (ps_slot1 d) = 0"
    and given: "read_str_at s (get_arg C s (ps_slot1 d)) PATH_LEN = Some given" "c_at given 0 \<noteq> SLASH"
  shows "t_root (s_tr s) = jail \<and> s_kregs (emuroot_on_entry C s) = s_kregs s \<and> s_mem (emuroot_on_entry C s) = s_mem s"
proof -
  have "t_root (s_tr (emuroot_on_exit C e)) = jail"
    using outline_on_exit [of C e] chroot by (simp add: outline_def core_def take_root_def snprintf_len)
  then have root: "t_root (s_tr s) = jail" using later by simp
  let ?n = "path_sysno C s"
  obtain t where e: "emuroot_on_entry C s = entry_paths C ?n d (s\<lparr>s_tr := t\<rparr>)" and t: "t_root t = jail" "t_pid t = t_pid (s_tr s)"
    using entry_plain [OF d(1,2)] root by metis
  define u where "u = emuroot_note_creation C ?n d (s\<lparr>s_tr := t\<rparr>)"
  have u: "s_ctx u = s_ctx s" "s_mem u = s_mem s" "s_regs u = s_regs s" "s_kregs u = s_kregs s" "s_host u = s_host s"
    "t_root (s_tr u) = jail" "t_pid (s_tr u) = t_pid (s_tr s)"
    using t by (simp_all add: u_def)
  have "emuroot_host_to_guest (s_ctx u) (t_root (s_tr u)) cwd PATH_LEN = None"
    using cwd(2) later(2) by (simp add: emuroot_host_to_guest_def u)
  moreover have "readlink_buf u (''/proc/'' @ dec_int (t_pid (s_tr u)) @ ''/cwd'') = Some cwd"
    using cwd(1) by (simp add: readlink_buf_def u)
  ultimately have "absolute_guest_path C u (dirfd_slot C ?n (ps_slot1 d)) given (2 * PATH_LEN) = None"
    using given(2) by (simp add: absolute_guest_path_def d(4))
  then have "rewrite_path_arg C ?n (ps_slot1 d) f 0 u = u" for f
    using rewrite_path_arg_relative [of u C "ps_slot1 d" given ?n] given by (simp add: get_arg_def read_str_at_def u)
  then have "emuroot_on_entry C s = u"
    by (simp add: e entry_paths_def u_def [symmetric] d(3) rewrite_path_arg_def)
  then show ?thesis using root u by simp
qed

text \<open>Process 7 with working directory \<^verbatim>\<open>/srv/home\<close> ends a \<^verbatim>\<open>chroot("/usr")\<close> and makes \<^verbatim>\<open>mkdir("y")\<close>.\<close>

definition demo_jailed :: sys where
  "demo_jailed = demo_sys\<lparr>s_tr := (s_tr demo_sys)\<lparr>t_sysno := 161, pending_root := ''/srv/usr''\<rparr>\<rparr>"

definition demo_outside :: sys where
  "demo_outside = demo_sys\<lparr>s_tr := (s_tr demo_sys)\<lparr>t_root := ''/srv/usr''\<rparr>, s_mem := (\<lambda>a. if a = 8192 then Some 0x79 else if a = 8193 then Some 0 else demo_mem a)\<rparr>"

theorem chroot_without_chdir_escapes_witness:
  "t_root (s_tr (emuroot_on_exit demo_cfg demo_jailed)) = ''/srv/usr'' \<and>
   s_kregs (emuroot_on_entry demo_cfg demo_outside) = s_kregs demo_outside \<and> s_mem (emuroot_on_entry demo_cfg demo_outside) = s_mem demo_outside"
proof -
  let ?s = demo_outside and ?d = "\<lparr>ps_sysno = 83, ps_slot1 = 1, ps_slot2 = 0, ps_mode = M_NOFOLLOW, ps_flag_slot = 0\<rparr>"
  have a: "emuroot_action_of (c_nr demo_cfg) (c_lp64 demo_cfg) 161 = Some A_CHROOT" by code_simp
  have c: "chroot_done demo_cfg demo_jailed" "pending_root (s_tr demo_jailed) = ''/srv/usr''"
    using a by (simp_all add: chroot_done_def demo_jailed_def)
  have x: "t_root (s_tr (emuroot_on_exit demo_cfg demo_jailed)) = ''/srv/usr''"
    using outline_on_exit [of demo_cfg demo_jailed] c by (simp add: outline_def core_def take_root_def PATH_LEN_def)
  have r: "s_regs ?s 14 = 8192" "s_regs ?s 15 = 83" "bindings (s_ctx ?s) = []" "t_root (s_tr ?s) = ''/srv/usr''" "t_pid (s_tr ?s) = 7" "s_host ?s = demo_host"
    "reg_arg arch_x86_64 (Suc 0) = 14" "c_arch demo_cfg = arch_x86_64" "r_sysno arch_x86_64 = 15"
    by (simp_all add: demo_outside_def demo_sys_def zero_ctx_def arch_x86_64_def reg_arg_def demo_cfg_def Let_def)
  have n: "path_sysno demo_cfg ?s = 83" by (simp add: path_sysno_def r)
  have f: "emuroot_find_path_syscall (c_nr demo_cfg) 83 = Some ?d" "plain_path_call demo_cfg 83" "dirfd_slot demo_cfg 83 1 = 0" by code_simp+
  have m: "mread (s_mem ?s) 8192 (length ''y'' + 1) = str_bytes ''y'' @ [0]" by (simp add: str_bytes_def demo_mem_def demo_outside_def)
  have g: "read_str_at ?s (get_arg demo_cfg ?s 1) PATH_LEN = Some ''y''"
    using str_at_copy [OF m] by (simp add: PATH_LEN_def get_arg_def arg_def r)
  have "dec_int 7 = ''7''" by code_simp
  then have w: "readlink_buf ?s (''/proc/'' @ dec_int (t_pid (s_tr ?s)) @ ''/cwd'') = Some ''/srv/home''"
    by (simp add: readlink_buf_def r demo_host_def PATH_LEN_def Let_def)
  have p: "\<not> has_prefix ''/srv/home'' ''/srv/usr'' (length ''/srv/usr'')" by code_simp
  have "t_root (s_tr ?s) = t_root (s_tr (emuroot_on_exit demo_cfg demo_jailed))" using x r by simp
  from chroot_without_chdir_escapes [OF c _ this r(3) w p f(1,2) [folded n] _ _ _] f(3) g x n show ?thesis
    by (simp add: PATH_LEN_def c_at_def)
qed

end
