(* ===== verification/Privilege.thy ===== *)
theory Privilege
  imports Runs
begin

text \<open>
  The identity of a session that is not root. Only the exit handler changes a process's credentials, and only by the calls
  of \<^verbatim>\<open>creds.c\<close> (\<open>exit_creds\<close>); the entry handler changes root and bindings only for a process with effective uid 0.
  So in a session whose uid is not 0 neither the credentials nor the name space ever change: \<open>settled\<close> (of the context) and
  \<open>settled_in\<close> (of a process) instantiate the locale \<open>run_invariant\<close> of \<^verbatim>\<open>Runs\<close>.
\<close>

subsection \<open>Credentials and the handlers\<close>

text \<open>The identity the context gives its processes.\<close>

definition ids_of :: "emuroot_ctx \<Rightarrow> bool \<times> u32 \<times> u32" where
  "ids_of c = (has_fake_ids c, fake_uid c, fake_gid c)"

definition creds_view :: "sys \<Rightarrow> creds_t \<times> bool \<times> u32 \<times> u32" where
  "creds_view s = (t_creds (s_tr s), ids_of (s_ctx s))"

interpretation creds_kept: kept_by_entry t_creds ids_of creds_view
  by unfold_locales (simp_all add: creds_view_def ids_of_def)

lemma entry_creds: "t_creds (s_tr (emuroot_on_entry C s)) = t_creds (s_tr s)" "ids_of (s_ctx (emuroot_on_entry C s)) = ids_of (s_ctx s)"
  using creds_kept.kept_on_entry [of C s] unfolding creds_view_def by simp_all

lemma exit_ids_creds: "exit_ids C a ret s = (r, s') \<Longrightarrow>
  t_creds (s_tr s') = t_creds (s_tr s) \<or> (\<exists>op. t_creds (s_tr s') = snd (cred_call op (t_creds (s_tr s))))"
proof (cases "cred_op_of a (t_args (s_tr s)) s")
  case None
  have v: "creds_view u = creds_view s \<Longrightarrow> t_creds (s_tr u) = t_creds (s_tr s)" for u by (simp add: creds_view_def)
  show "exit_ids C a ret s = (r, s') \<Longrightarrow> ?thesis"
    using None by (intro disjI1 v, cases a)
      (auto simp: exit_ids_def put_ids_def Let_def split: if_splits dest: creds_kept.kept_exit_chown)
next
  case (Some op)
  then show "exit_ids C a ret s = (r, s') \<Longrightarrow> ?thesis"
    by (auto simp: exit_ids_def Let_def split: prod.splits) (metis snd_conv)
qed

lemma exit_creds:
  "t_creds (s_tr (emuroot_on_exit C s)) = t_creds (s_tr s) \<or>
   (\<exists>op. t_creds (s_tr (emuroot_on_exit C s)) = snd (cred_call op (t_creds (s_tr s))))"
proof -
  have v: "creds_view u = creds_view s \<Longrightarrow> t_creds (s_tr u) = t_creds (s_tr s)" for u s by (simp add: creds_view_def)
  have c: "t_creds (s_tr (exit_created r s)) = t_creds (s_tr s)" for r by (rule v) simp
  have a: "t_creds (s_tr (exit_action C a r u)) = t_creds (s_tr u) \<or> (\<exists>op. t_creds (s_tr (exit_action C a r u)) = snd (cred_call op (t_creds (s_tr u))))" for a r u
  proof -
    obtain x u' where e: "exit_ids C a r u = (x, u')" by fastforce
    show ?thesis using exit_ids_creds [OF e]
      by (auto simp: exit_action_def exit_chroot_def e Let_def intro!: v)
  qed
  show ?thesis using a [of _ _ "exit_created _ s"] c by (auto simp: emuroot_on_exit_def Let_def split: option.split)
qed

subsection \<open>A session without root\<close>

text \<open>Ids that are all one and not root's can only be kept.\<close>

lemma drops_only_init: "drops_only (creds_init u g) c \<longleftrightarrow> c = creds_init u g"
proof
  assume d: "drops_only (creds_init u g) c"
  have "id_set (uid c) \<subseteq> {u}" "id_set (gid c) \<subseteq> {g}" "fsuid c = u" "fsgid c = g"
    using d by (auto simp: drops_only_def us.within_def gs.within_def creds_init_def id_set_def)
  moreover have "i = \<lparr>id_r = x, id_e = x, id_s = x\<rparr>" if "id_set i \<subseteq> {x}" for i :: id3 and x
    using that by (cases i) (simp add: id_set_def)
  ultimately show "c = creds_init u g" using d by (cases c) (simp add: drops_only_def creds_init_def)
qed (simp add: drops_only_refl)

text \<open>What stays as it was when the session's identity is not root: the context but for the owner table, and of each process
  the credentials, the root and that none is in waiting.\<close>

definition settled :: "emuroot_ctx \<Rightarrow> emuroot_ctx \<Rightarrow> bool" where
  "settled c0 ctx \<longleftrightarrow> fake_uid c0 \<noteq> 0 \<and> ctx\<lparr>owners := None\<rparr> = c0\<lparr>owners := None\<rparr>"

definition settled_in :: "emuroot_ctx \<Rightarrow> tracee_t \<Rightarrow> bool" where
  "settled_in c0 t \<longleftrightarrow> fake_uid c0 \<noteq> 0 \<and> t_creds t = creds_init (fake_uid c0) (fake_gid c0) \<and>
     t_root t = snprintf PATH_LEN (ctx_root c0) \<and> pending_root t = []"

lemma settled_ctx:
  assumes "settled c0 ctx"
  shows "fake_uid ctx = fake_uid c0" "fake_gid ctx = fake_gid c0" "ctx_root ctx = ctx_root c0" "has_fake_ids ctx = has_fake_ids c0"
proof -
  have e: "ctx\<lparr>owners := None\<rparr> = c0\<lparr>owners := None\<rparr>" using assms by (simp add: settled_def)
  show "fake_uid ctx = fake_uid c0" "fake_gid ctx = fake_gid c0" "ctx_root ctx = ctx_root c0" "has_fake_ids ctx = has_fake_ids c0"
    using arg_cong [OF e, of fake_uid] arg_cong [OF e, of fake_gid] arg_cong [OF e, of ctx_root] arg_cong [OF e, of has_fake_ids] by simp_all
qed

lemma settled_unprivileged: "settled_in c0 t \<Longrightarrow> id_e (uid (t_creds t)) \<noteq> 0"
  by (simp add: settled_in_def creds_init_def)

lemma entry_settled:
  assumes u: "id_e (uid (t_creds (s_tr s))) \<noteq> 0"
  shows "outline (emuroot_on_entry C s) = outline (entry_reset C s)"
proof -
  have "t_creds (s_tr (entry_identity C s)) = t_creds (s_tr (entry_reset C s))"
    using creds_kept.kept_identity [of C "sint (s_regs s (r_sysno (c_arch C)))" "entry_action C s" "entry_reset C s"] by (simp add: creds_view_def entry_identity_def)
  then have "id_e (uid (t_creds (s_tr (entry_identity C s)))) \<noteq> 0" using u by (simp add: entry_reset_def)
  then have m: "emuroot_emulate_mounts C n a (entry_identity C s) = (False, entry_identity C s)" for n a
    by (simp add: emuroot_emulate_mounts_def)
  show ?thesis unfolding outline_on_entry m by (simp add: entry_identity_def)
qed

lemma settled_step:
  assumes c: "settled c0 (s_ctx s)" and t: "settled_in c0 (s_tr s)"
    and o: "outline s' = (core t', (s_ctx s)\<lparr>owners := None\<rparr>)" "t_root t' = t_root (s_tr s)" "pending_root t' = []"
    and d: "t_creds (s_tr s') = t_creds (s_tr s)"
  shows "settled c0 (s_ctx s') \<and> settled_in c0 (s_tr s')"
proof -
  have "core (s_tr s') = core t'" "(s_ctx s')\<lparr>owners := None\<rparr> = (s_ctx s)\<lparr>owners := None\<rparr>"
    using o(1) by (simp_all add: outline_def)
  then have "t_root (s_tr s') = t_root (s_tr s)" "pending_root (s_tr s') = []" "(s_ctx s')\<lparr>owners := None\<rparr> = c0\<lparr>owners := None\<rparr>"
    using o(2,3) c by (auto simp: core_def settled_def)
  then show ?thesis using c t d by (simp add: settled_def settled_in_def)
qed

lemma settled_entry:
  assumes c: "settled c0 (s_ctx s)" and t: "settled_in c0 (s_tr s)"
  shows "settled c0 (s_ctx (emuroot_on_entry C s)) \<and> settled_in c0 (s_tr (emuroot_on_entry C s))"
proof (rule settled_step [OF c t])
  show "outline (emuroot_on_entry C s) = (core ((s_tr s)\<lparr>pending_root := []\<rparr>), (s_ctx s)\<lparr>owners := None\<rparr>)"
    unfolding entry_settled [OF settled_unprivileged [OF t]] by (simp add: outline_entry_reset core_def book_def)
qed (simp_all add: entry_creds)

lemma settled_exit:
  assumes c: "settled c0 (s_ctx s)" and t: "settled_in c0 (s_tr s)"
  shows "settled c0 (s_ctx (emuroot_on_exit C s)) \<and> settled_in c0 (s_tr (emuroot_on_exit C s))"
proof (rule settled_step [OF c t])
  show "outline (emuroot_on_exit C s) = (core (s_tr s), (s_ctx s)\<lparr>owners := None\<rparr>)"
    using t unfolding outline_on_exit by (simp add: chroot_done_def settled_in_def outline_def)
  have "drops_only (t_creds (s_tr s)) (t_creds (s_tr (emuroot_on_exit C s)))"
    using exit_creds [of C s] cred_call_drops_only settled_unprivileged [OF t] drops_only_refl by (auto simp: privileged_def)
  then show "t_creds (s_tr (emuroot_on_exit C s)) = t_creds (s_tr s)" using t by (simp add: settled_in_def drops_only_init)
qed (use t in \<open>simp_all add: settled_in_def\<close>)

interpretation settled: run_invariant C "settled c0" "settled_in c0" "\<lambda>s. True" for C c0
proof unfold_locales
  show "settled_in c0 (new_tracee ctx p None)" if "settled c0 ctx" for ctx p
    using that settled_ctx [OF that] by (simp add: settled_in_def settled_def new_tracee_def zero_tracee_def Let_def)
  show "settled_in c0 (new_tracee ctx p (Some u))" if "settled_in c0 u" for ctx p u
    using that by (simp add: settled_in_def new_tracee_def tracee_inherit_def zero_tracee_def Let_def)
  show "settled_in c0 (tracee_inherit t u)" if "settled_in c0 t" "settled_in c0 u" for t u
    using that by (simp add: settled_in_def tracee_inherit_def)
qed (simp_all add: settled_entry settled_exit, simp_all add: settled_in_def)

subsection \<open>What the processes are told\<close>

lemma exit_created_regs: "s_regs (exit_created r s) = s_regs s" "s_kregs (exit_created r s) = s_kregs s"
  "t_sysno (s_tr (exit_created r s)) = t_sysno (s_tr s)"
  by (simp_all add: exit_created_def Let_def split: option.split)

fun told :: "action \<Rightarrow> creds_t \<Rightarrow> u32" where
  "told A_GETUID c = id_r (uid c)"
| "told A_GETEUID c = id_e (uid c)"
| "told A_GETGID c = id_r (gid c)"
| "told A_GETEGID c = id_e (gid c)"
| "told _ c = 0"

lemma getter_ids:
  "a \<in> {A_GETUID, A_GETEUID, A_GETGID, A_GETEGID} \<Longrightarrow> exit_ids C a ret s = (uint (told a (t_creds (s_tr s))), s)"
  by (elim insertE emptyE) (simp_all add: exit_ids_def cred_op_of_def)

lemma getter_action:
  assumes "a \<in> {A_GETUID, A_GETEUID, A_GETGID, A_GETEGID}" and "has_fake_ids (s_ctx s)"
  shows "exit_action C a ret s =
    (if uint (told a (t_creds (s_tr s))) \<noteq> ret then set_result C (uint (told a (t_creds (s_tr s)))) s else s)"
proof -
  have "id_action a" using assms(1) by (auto simp: id_action_def)
  then show ?thesis using assms(2) by (simp add: exit_action_def getter_ids [OF assms(1)] id_action_def)
qed

lemma getter_exit:
  assumes wf: "arch_wf (c_arch C)" and k: "s_kregs s = s_regs s" and ids: "has_fake_ids (s_ctx s)"
    and a: "emuroot_action_of (c_nr C) (c_lp64 C) (t_sysno (s_tr s)) = Some a" "a \<in> {A_GETUID, A_GETEUID, A_GETGID, A_GETEGID}"
  shows "s_kregs (emuroot_on_exit C s) (r_ret (c_arch C)) = ucast (told a (t_creds (s_tr s)))"
proof -
  define v where "v = told a (t_creds (s_tr s))"
  define u where "u = exit_created (sint (s_regs s (r_ret (c_arch C)))) s"
  have u: "t_creds (s_tr u) = t_creds (s_tr s)" "has_fake_ids (s_ctx u)"
    using creds_kept.kept_exit_created [of "sint (s_regs s (r_ret (c_arch C)))" s] ids by (simp_all add: u_def creds_view_def ids_of_def)
  have r: "s_regs u = s_regs s" "s_kregs u = s_regs s" "t_sysno (s_tr u) = t_sysno (s_tr s)" by (simp_all add: u_def exit_created_regs k)
  have "emuroot_on_exit C s = exit_action C a (sint (s_regs u (r_ret (c_arch C)))) u"
    by (simp add: emuroot_on_exit_def Let_def u_def exit_created_regs a(1))
  then have "s_kregs (emuroot_on_exit C s) (r_ret (c_arch C)) = word_of_int (uint v)"
    using result_seen [OF wf, of u "uint v"] r(1,2) by (simp only: getter_action [OF a(2) u(2)] u(1) v_def)
  then show ?thesis by (simp add: v_def unsigned_ucast_eq)
qed

definition at_exit :: "bool \<Rightarrow> stop \<Rightarrow> tracee_t \<Rightarrow> bool" where
  "at_exit seccomp_mode st t \<longleftrightarrow> syscall_stop st \<and> (if seccomp_mode then awaiting_exit t else in_syscall t)"

lemma exit_stop_effect:
  assumes "at_exit sm st (tracees T ! i)" and "sp_regs st = Some r" and "handle_stop C sm st i T = (sig, Some (kregs, mem), T')"
  shows "kregs = s_kregs (emuroot_on_exit C (stopped st i T r))"
  using assms by (auto simp: at_exit_def handle_stop_def syscall_stop_def with_regs_def stopped_def Let_def split: if_splits)

lemma settled_run:
  assumes "runs C sm root (loop_start ctx root) ws T" and "fake_uid ctx \<noteq> 0"
  shows "settled.holds ctx T"
  by (rule settled.holds_run [OF assms(1) settled.holds_start]) (simp_all add: settled_def assms(2))

text \<open>C12: a session that is not root stays what it is. In every run of the tracer's loop from its start, of any processes making
  any calls in any order, whose session has a fake identity with a uid other than 0: the context keeps its root, bindings and
  identity, and every process in the table has exactly the credentials and the root it was started with and none in
  waiting (no \<^verbatim>\<open>set*id\<close>, \<^verbatim>\<open>setgroups\<close>, \<^verbatim>\<open>chroot\<close>, \<^verbatim>\<open>mount\<close> or \<^verbatim>\<open>umount\<close> has had an effect on what the tracer holds); and when a
  process leaves \<^verbatim>\<open>getuid\<close>, \<^verbatim>\<open>geteuid\<close>, \<^verbatim>\<open>getgid\<close> or \<^verbatim>\<open>getegid\<close> its result register has the session's id, whatever the
  kernel answered.\<close>

theorem unprivileged_session_settled:
  assumes ids: "has_fake_ids ctx" "fake_uid ctx \<noteq> 0" and wf: "arch_wf (c_arch C)"
    and run: "runs C sm root (loop_start ctx root) ws T"
    and stop: "tracee_for st T = (Some i, T1)" "sp_regs st = Some r" "at_exit sm st (tracees T1 ! i)"
      "handle_stop C sm st i T1 = (sig, Some (kregs, mem), T2)"
    and call: "emuroot_action_of (c_nr C) (c_lp64 C) (t_sysno (tracees T1 ! i)) = Some a" "a \<in> {A_GETUID, A_GETEUID, A_GETGID, A_GETEGID}"
  shows "(tr_ctx T)\<lparr>owners := None\<rparr> = ctx\<lparr>owners := None\<rparr> \<and>
    (\<forall>t \<in> set (tracees T). t_creds t = creds_init (fake_uid ctx) (fake_gid ctx) \<and>
      t_root t = snprintf PATH_LEN (ctx_root ctx) \<and> pending_root t = []) \<and>
    kregs (r_ret (c_arch C)) = ucast (if a \<in> {A_GETUID, A_GETEUID} then fake_uid ctx else fake_gid ctx)"
proof -
  note h = settled_run [OF run ids(2)]
  note s = settled.holds_stopped [OF settled.holds_for [OF h stop(1)] tracee_for_index [OF stop(1)], of st r]
  let ?s = "stopped st i T1 r"
  have f: "has_fake_ids (s_ctx ?s)" using s settled_ctx ids(1) by blast
  have "kregs (r_ret (c_arch C)) = ucast (told a (t_creds (s_tr ?s)))"
    unfolding exit_stop_effect [OF stop(3,2,4)]
    by (rule getter_exit [OF wf _ f _ call(2)]) (use call(1) in \<open>simp_all add: stopped_def\<close>)
  also have "told a (t_creds (s_tr ?s)) = (if a \<in> {A_GETUID, A_GETEUID} then fake_uid ctx else fake_gid ctx)"
    using s call(2) by (auto simp: settled_in_def creds_init_def)
  finally show ?thesis using h by (simp add: settled.holds_def settled_def settled_in_def)
qed

text \<open>Process 7 of a session with uid 1000 enters \<^verbatim>\<open>getuid\<close> in full tracing and leaves it with the kernel's answer 0.\<close>

definition demo_user :: emuroot_ctx where
  "demo_user = zero_ctx\<lparr>ctx_root := ''/srv'', has_fake_ids := True, fake_uid := 1000, fake_gid := 100\<rparr>"

definition demo_getuid :: stop where
  "demo_getuid = \<lparr>sp_pid = 7, sp_status = 0x857F, sp_regs = Some ((\<lambda>_. 0)(15 := 102)), sp_msg = None, sp_mem = demo_mem, sp_host = demo_host\<rparr>"

theorem unprivileged_session_settled_witness:
  "\<exists>T kregs mem T2. runs demo_cfg False 7 (loop_start demo_user 7) [Event demo_getuid] T \<and>
     handle_stop demo_cfg False demo_getuid 0 T = (0, Some (kregs, mem), T2) \<and> kregs 10 = 1000"
proof -
  let ?T = "loop_start demo_user 7" and ?r = "(\<lambda>_. 0)(15 := 102) :: emuroot_regs_t"
  let ?n = "note_entry demo_cfg (stopped demo_getuid 0 ?T ?r)"
  have pid: "sp_pid demo_getuid = 7" "sp_regs demo_getuid = Some ?r" "sp_status demo_getuid = 0x857F" by (simp_all add: demo_getuid_def)
  have tr: "tracees ?T = [(new_tracee demo_user 7 None)\<lparr>fresh := False\<rparr>]" by (simp add: loop_start_def tracees_def)
  have b: "in_syscall (tracees ?T ! 0) = False" by (simp add: tr new_tracee_def zero_tracee_def Let_def)
  have f: "emuroot_action_of (c_nr demo_cfg) (c_lp64 demo_cfg) 102 = Some A_GETUID" "emuroot_find_path_syscall (c_nr demo_cfg) 102 = None"
    "list_all (\<lambda>k. \<not> is_sys demo_cfg k 102) [''execve'', ''bind'', ''connect'', ''sendto'', ''execveat'']" by code_simp+
  have w: "syscall_stop demo_getuid" "\<not> ends demo_getuid" "WIFSTOPPED (sp_status demo_getuid)"
    by (simp_all only: ends_def WIFSTOPPED_def syscall_stop_def pid) code_simp+
  have n: "s_regs ?n (r_sysno (c_arch demo_cfg)) = 102" by (simp add: note_entry_def stopped_def demo_cfg_def arch_x86_64_def)
  have e: "emuroot_on_entry demo_cfg ?n = entry_reset demo_cfg ?n"
    using f by (simp add: emuroot_on_entry_def n emuroot_identity_entry_def emuroot_emulate_mounts_def neutralize_id_change_def entry_call_def Let_def)
  define x where "x = entry_reset demo_cfg ?n"
  let ?u = "\<lparr>tr_ctx = demo_user, tr_tab = \<lparr>tt_v = [(s_tr x)\<lparr>in_syscall := True\<rparr>], tt_cap = 64\<rparr>, tr_cache = []\<rparr>"
  have find: "tracee_for demo_getuid x = (Some 0, x)" if "t_pid (tracees x ! 0) = 7" "length (tracees x) = 1" for x
    using that by (cases "tt_v (tr_tab x)") (auto simp: tracee_for_def tracee_find_def tracees_def pid)
  have p: "t_pid (tracees ?T ! 0) = 7" "t_pid (tracees ?u ! 0) = 7"
    by (simp_all add: tracees_def loop_start_def x_def entry_reset_def note_entry_def stopped_def new_tracee_def zero_tracee_def Let_def)
  have l: "length (tracees ?T) = 1" "length (tracees ?u) = 1" by (simp_all add: loop_start_def tracees_def)
  note fT = find [OF p(1) l(1)] and fu = find [OF p(2) l(2)]
  have ss: "WSTOPSIG (sp_status demo_getuid) = 0x85" using w(1) by (simp add: syscall_stop_def)
  have c: "s_ctx x = demo_user" "s_cache x = []" "in_syscall (s_tr x) = False"
    using b by (simp_all add: x_def entry_reset_def note_entry_def stopped_def upd_tr_def) (simp_all add: loop_start_def)
  have "with_regs (emuroot_on_entry demo_cfg \<circ> note_entry demo_cfg) demo_getuid 0 ?T =
      (Some (s_kregs x, s_mem x), \<lparr>tr_ctx = demo_user, tr_tab = \<lparr>tt_v = [s_tr x], tt_cap = 64\<rparr>, tr_cache = []\<rparr>)"
    using e by (simp add: with_regs_def pid(2) stopped_def [symmetric] x_def [symmetric] upd_tracee_def c Let_def)
      (simp add: loop_start_def tracees_def)
  then have h1: "handle_stop demo_cfg False demo_getuid 0 ?T = (0, Some (s_kregs x, s_mem x), ?u)"
    using b by (simp add: handle_stop_def ss upd_tracee_def tracees_def c)
  obtain q where step: "loop_step demo_cfg False 7 (Event demo_getuid) ?T = (None, q, ?u)"
    using w(2,3) by (auto simp: loop_step_def fT ends_def h1 Let_def)
  from runs_pass [OF runs_start step] have run: "runs demo_cfg False 7 ?T [Event demo_getuid] ?u" by simp
  have sys: "t_sysno (tracees ?u ! 0) = 102" "in_syscall (tracees ?u ! 0)"
    by (simp_all add: tracees_def x_def entry_reset_def n)
  have ae: "at_exit False demo_getuid (tracees ?u ! 0)" using w(1) sys(2) by (simp add: at_exit_def)
  obtain kregs mem T2 where h2: "handle_stop demo_cfg False demo_getuid 0 ?u = (0, Some (kregs, mem), T2)"
    using sys(2) by (simp add: handle_stop_def ss with_regs_def pid(2) Let_def)
  have wf: "arch_wf (c_arch demo_cfg)" by code_simp
  have "has_fake_ids demo_user" "fake_uid demo_user \<noteq> 0" "r_ret (c_arch demo_cfg) = 10" "fake_uid demo_user = 1000"
    by (simp_all add: demo_user_def demo_cfg_def arch_x86_64_def)
  with unprivileged_session_settled [OF this(1,2) wf run fu pid(2) ae h2 _ , of A_GETUID] f(1) sys(1)
  have "kregs 10 = 1000" by simp
  then show ?thesis using run h2 by blast
qed

end
