(* ===== verification/Messages.thy ===== *)
theory Messages
  imports Runs
begin

text \<open>
  What the tracer says on standard error about calls and seccomp kills: \<^verbatim>\<open>report_seccomp_kill\<close> and the messages of
  \<^verbatim>\<open>handle_stop\<close> and of the loop of \<^verbatim>\<open>ptrace.c\<close>, as the list of lines of one pass. Last, which number the message about a
  killed process names.
\<close>

definition SIGSYS :: int where "SIGSYS = 31"
definition SYS_SECCOMP :: int where "SYS_SECCOMP = 1"

text \<open>\<open>info\<close>: the 128 bytes PTRACE_GETSIGINFO gives, \<open>None\<close> when it fails.\<close>

definition int_at :: "u8 list \<Rightarrow> nat \<Rightarrow> int" where
  "int_at bs off = sint (ucast (field bs off 4) :: u32)"

definition nr_offset :: "bool \<Rightarrow> nat" where
  "nr_offset lp64 = (if lp64 then 16 else 12) + (if lp64 then 8 else 4)"

definition report_seccomp_kill :: "cfg \<Rightarrow> int \<Rightarrow> u8 list option \<Rightarrow> string list" where
  "report_seccomp_kill C pid info =
     (case info of
        None \<Rightarrow> []
      | Some bs \<Rightarrow>
          if int_at bs 8 \<noteq> SYS_SECCOMP then []
          else [''emuroot: pid '' @ dec_int pid @ '' was stopped by the system's seccomp filter on syscall '' @
                dec_int (int_at bs (nr_offset (c_lp64 C))) @ [CHR 10]])"

text \<open>The lines of one stop.\<close>

definition stop_messages :: "cfg \<Rightarrow> bool \<Rightarrow> bool \<Rightarrow> u8 list option \<Rightarrow> stop \<Rightarrow> tracee_t \<Rightarrow> string list" where
  "stop_messages C trace_all seccomp_mode info st t =
     (let sig = WSTOPSIG (sp_status st); event = sint (signed_drop_bit 16 (sp_status st)); pid = dec_int (t_pid t)
      in if sig = 0x85 then
           if \<not> seccomp_mode then
             (case sp_regs st of
                None \<Rightarrow> []
              | Some regs \<Rightarrow>
                  if \<not> trace_all then []
                  else if in_syscall t then [''[emuroot] pid='' @ pid @ ''   = '' @ dec_int (sint (regs (r_ret (c_arch C)))) @ [CHR 10]]
                  else [''[emuroot] pid='' @ pid @ '' syscall '' @ dec_int (sint (regs (r_sysno (c_arch C)))) @ [CHR 10]])
           else []
         else if event = PTRACE_EVENT_SECCOMP then []
         else if event = PTRACE_EVENT_FORK \<or> event = PTRACE_EVENT_VFORK \<or> event = PTRACE_EVENT_CLONE then []
         else if sig = SIGSTOP \<and> fresh t then []
         else if sig \<noteq> SIGTRAP then (if sig = SIGSYS then report_seccomp_kill C (t_pid t) info else [])
         else [])"

text \<open>The lines of one pass.\<close>

definition pass_messages :: "cfg \<Rightarrow> bool \<Rightarrow> bool \<Rightarrow> u8 list option \<Rightarrow> wait_result \<Rightarrow> tracer \<Rightarrow> string list" where
  "pass_messages C trace_all seccomp_mode info w T =
     (case w of
        Event st \<Rightarrow>
          let status = sp_status st
          in (case tracee_for st T of
                (None, T) \<Rightarrow> []
              | (Some i, T) \<Rightarrow>
                  if WIFEXITED status \<or> WIFSIGNALED status then
                    if WIFSIGNALED status \<and> WTERMSIG status = SIGSYS then
                      [''emuroot: pid '' @ dec_int (sp_pid st) @ '' was killed by the system's seccomp filter, probably on syscall '' @
                       dec_int (last_entry (tracees T ! i)) @ [CHR 10]]
                    else []
                  else if \<not> WIFSTOPPED status then []
                  else stop_messages C trace_all seccomp_mode info st (tracees T ! i))
      | _ \<Rightarrow> [])"

subsection \<open>The number of the last call\<close>

definition last_view :: "sys \<Rightarrow> int \<times> string" where
  "last_view s = (last_entry (s_tr s), ctx_root (s_ctx s))"

interpretation last_kept: kept_by_both last_entry ctx_root last_view
  by unfold_locales (simp_all add: last_view_def)

lemma handler_last_entry:
  "last_entry (s_tr (emuroot_on_exit C s)) = last_entry (s_tr s)"
  "last_entry (s_tr (emuroot_on_entry C s)) = last_entry (s_tr s)"
  using last_kept.kept_on_exit [of C s] last_kept.kept_on_entry [of C s] unfolding last_view_def by simp_all

text \<open>The number kept for a process, 0 when it is not in the table.\<close>

definition last_of :: "tracer \<Rightarrow> int \<Rightarrow> int" where
  "last_of T p = (case procs (tr_tab T) p of Some t \<Rightarrow> last_entry t | None \<Rightarrow> 0)"

lemma last_new [simp]: "last_entry (new_tracee ctx p parent) = 0"
  by (simp add: new_tracee_def tracee_inherit_def zero_tracee_def Let_def split: option.split)

lemma last_add:
  assumes "table_wf (tr_tab T)" and "procs (tr_tab T) p = None" and "mem = (\<lambda>n. True)" and "tracee_add mem ctx p parent (tr_tab T) = (r, tab)"
  shows "last_of (T\<lparr>tr_tab := tab\<rparr>) = last_of T"
  using table_add(2) [OF assms(1,2) _ assms(4)] assms(2,3) by (auto simp: last_of_def fun_eq_iff)

lemma last_update:
  assumes "table_wf (tr_tab T)" and "tracee_find (tr_tab T) p = Some i" and "t_pid (f (tracees T ! i)) = p"
  shows "last_of (upd_tracee i f T) = (last_of T)(p := last_entry (f (tracees T ! i)))"
  using table_update(2) [where f = f, OF assms] by (auto simp: last_of_def fun_eq_iff)

lemma last_found: "table_wf (tr_tab T) \<Longrightarrow> tracee_find (tr_tab T) p = Some i \<Longrightarrow> last_of T p = last_entry (tracees T ! i)"
  using procs_find(3) [of "tr_tab T" p i] by (simp add: last_of_def tracees_def)

lemma last_upd_same:
  assumes "table_wf (tr_tab T)" and "tracee_find (tr_tab T) p = Some i" and "\<And>t. t_pid (f t) = t_pid t" and "\<And>t. last_entry (f t) = last_entry t"
  shows "last_of (upd_tracee i f T) = last_of T"
proof -
  have "t_pid (f (tracees T ! i)) = p" using assms(3) books_found(2) [OF assms(1,2)] by simp
  from last_update [where f = f, OF assms(1,2) this] show ?thesis
    using last_found [OF assms(1,2)] assms(4) by (simp add: fun_upd_idem)
qed

lemma last_for:
  assumes "table_wf (tr_tab T)" and "granted (Event st)" and "tracee_for st T = (r, T1)"
  shows "last_of T1 = last_of T"
proof (cases "tracee_find (tr_tab T) (sp_pid st)")
  case None
  obtain r' tab where a: "tracee_add (h_calloc (sp_host st)) (tr_ctx T) (sp_pid st) None (tr_tab T) = (r', tab)" by fastforce
  show ?thesis using last_add [OF assms(1) None [unfolded procs_find_None] _ a] assms(2,3) None a by (auto simp: tracee_for_def)
qed (use assms in \<open>simp add: tracee_for_def\<close>)

lemma last_fork:
  assumes wf: "table_wf (tr_tab T)" and mem: "granted (Event st)"
  shows "last_of (fork_event st i T) = last_of T"
proof (cases "tracee_find (tr_tab T) (child_of st)")
  case None
  obtain r tab where a: "tracee_add (h_calloc (sp_host st)) (tr_ctx T) (child_of st) (Some (tracees T ! i)) (tr_tab T) = (r, tab)" by fastforce
  have "fork_event st i T = T\<lparr>tr_tab := tab\<rparr>" using None a by (simp add: fork_event_def child_of_def Let_def)
  then show ?thesis using last_add [OF wf None [unfolded procs_find_None] _ a] mem by simp
next
  case (Some k)
  have "fork_event st i T = upd_tracee k (\<lambda>x. tracee_inherit x (tracees T ! i)) T"
    using Some by (simp add: fork_event_def child_of_def Let_def)
  then show ?thesis using last_upd_same [OF wf Some] by (simp add: tracee_inherit_def)
qed

lemma last_with_regs:
  assumes wf: "table_wf (tr_tab T)" and i: "tracee_find (tr_tab T) p = Some i" and hd: "stop_handler hdl"
    and w: "with_regs hdl st i T = (e, T')"
  shows "last_of T' = (last_of T)(p := (case sp_regs st of None \<Rightarrow> last_of T p | Some r \<Rightarrow> last_entry (s_tr (hdl (stopped st i T r)))))"
proof (cases "sp_regs st")
  case None
  then show ?thesis using w by (simp add: with_regs_def)
next
  case (Some r)
  let ?s = "hdl (stopped st i T r)" and ?T = "\<lambda>s. T\<lparr>tr_ctx := s_ctx s, tr_cache := s_cache s\<rparr>"
  have T': "T' = upd_tracee i (\<lambda>_. s_tr ?s) (?T ?s)" using w Some by (simp add: with_regs_def stopped_def Let_def)
  have "book (s_tr ?s) = book (tracees T ! i)" using stop_handler.keeps_book [OF hd, of "stopped st i T r"] by (simp add: stopped_def)
  then have p: "t_pid (s_tr ?s) = p" using books_found(2) [OF wf i] by (simp add: book_def)
  have t: "tr_tab (?T ?s) = tr_tab T" "last_of (?T ?s) = last_of T" by (simp_all add: last_of_def fun_eq_iff)
  from last_update [where f = "\<lambda>_. s_tr ?s", of "?T ?s", unfolded t, OF wf i p] show ?thesis by (simp add: T' Some)
qed

definition noted :: "cfg \<Rightarrow> bool \<Rightarrow> stop \<Rightarrow> bool \<Rightarrow> int \<Rightarrow> int" where
  "noted C seccomp_mode st inside n =
     (if \<not> seccomp_mode \<and> syscall_stop st \<and> \<not> inside
      then (case sp_regs st of Some r \<Rightarrow> sint (r (r_sysno (c_arch C))) | None \<Rightarrow> n) else n)"

lemma last_stop:
  assumes wf: "table_wf (tr_tab T)" and i: "tracee_find (tr_tab T) p = Some i" and mem: "granted (Event st)"
    and h: "handle_stop C sm st i T = (sig, e, T')"
  shows "last_of T' = (last_of T)(p := noted C sm st (in_syscall (tracees T ! i)) (last_of T p))"
proof -
  have after: "last_of (upd_tracee i f U) = (last_of T)(p := (case sp_regs st of None \<Rightarrow> last_of T p | Some r \<Rightarrow> last_entry (s_tr (hd (stopped st i T r)))))"
    if "stop_handler hd" "with_regs hd st i T = (e, U)" "\<And>t. t_pid (f t) = t_pid t \<and> last_entry (f t) = last_entry t" for hd e U f
  proof -
    note w = stop_handler.with_regs_table [OF that(1) wf i that(2)]
    show ?thesis using last_upd_same [where f = f, OF w(1,3)] that(3) last_with_regs [OF wf i that(1,2)] by simp
  qed
  have same: "last_entry (s_tr (stopped st i T r)) = last_of T p" for r
    using last_found [OF wf i] by (simp add: stopped_def)
  have exit: "last_of (upd_tracee i f U) = last_of T"
    if "with_regs (emuroot_on_exit C) st i T = (e, U)" "\<And>t. t_pid (f t) = t_pid t \<and> last_entry (f t) = last_entry t" for e U f
    using after [OF exit.stop_handler_axioms that] by (cases "sp_regs st") (simp_all add: handler_last_entry same)
  have entry: "last_of (upd_tracee i f U) = last_of T"
    if "with_regs (emuroot_on_entry C) st i T = (e, U)" "\<And>t. t_pid (f t) = t_pid t \<and> last_entry (f t) = last_entry t" for e U f
    using after [OF entry.stop_handler_axioms that] by (cases "sp_regs st") (simp_all add: handler_last_entry same)
  have noted: "last_of (upd_tracee i f U) = (last_of T)(p := (case sp_regs st of None \<Rightarrow> last_of T p | Some r \<Rightarrow> sint (r (r_sysno (c_arch C)))))"
    if "with_regs (emuroot_on_entry C \<circ> note_entry C) st i T = (e, U)" "\<And>t. t_pid (f t) = t_pid t \<and> last_entry (f t) = last_entry t" for e U f
    using after [OF noted_entry.stop_handler_axioms that] by (cases "sp_regs st") (simp_all add: handler_last_entry note_entry_def stopped_def)
  let ?t = "tracees T ! i"
  consider (plain) "syscall_stop st" "\<not> sm" "\<not> in_syscall ?t" | (out) "syscall_stop st" "sm \<or> in_syscall ?t" | (other) "\<not> syscall_stop st" by blast
  then show ?thesis
  proof cases
    case plain
    then obtain e1 U where "with_regs (emuroot_on_entry C \<circ> note_entry C) st i T = (e1, U)" "T' = upd_tracee i (\<lambda>t. t\<lparr>in_syscall := \<not> in_syscall t\<rparr>) U"
      using h by (auto simp: handle_stop_def syscall_stop_def Let_def split: prod.splits)
    then show ?thesis using noted plain by (simp add: noted_def option.case_eq_if)
  next
    case out
    then have "last_of T' = last_of T"
      using h exit by (auto simp: handle_stop_def syscall_stop_def Let_def split: prod.splits if_splits)
    then show ?thesis using out by (auto simp: noted_def)
  next
    case other
    have "last_of (upd_tracee i (\<lambda>t. t\<lparr>fresh := False\<rparr>) T) = last_of T" by (rule last_upd_same [OF wf i]) simp_all
    then have "last_of T' = last_of T"
      using other h entry last_fork [OF wf mem] by (auto simp: handle_stop_def syscall_stop_def Let_def split: prod.splits if_splits)
    then show ?thesis using other by (simp add: noted_def)
  qed
qed

text \<open>By the events of process \<open>p\<close> alone: whether it is inside a call, and the number the tracer keeps for it.\<close>

fun called :: "cfg \<Rightarrow> bool \<Rightarrow> int \<Rightarrow> wait_result \<Rightarrow> bool \<times> int \<Rightarrow> bool \<times> int" where
  "called C sm p (Event st) (inside, n) =
     (phase sm p (Event st) inside,
      if sp_pid st \<noteq> p then n else if ends st then 0 else if WIFSTOPPED (sp_status st) then noted C sm st inside n else n)"
| "called C sm p _ x = x"

lemma last_pass:
  assumes wf: "table_wf (tr_tab T)" and mem: "granted w" and l: "loop_step C sm root w T = (None, r, T')"
  shows "last_of T' p = snd (called C sm p w (inside_of sm (books T) p, last_of T p))"
proof (cases w)
  case (Event st)
  obtain i T1 where f: "tracee_for st T = (Some i, T1)" and wf1: "table_wf (tr_tab T1)"
    and b1: "books T1 = seen (sp_pid st) (books T)" and i: "tracee_find (tr_tab T1) (sp_pid st) = Some i"
    using tracee_for_books [OF wf mem [unfolded Event]] by (cases "tracee_for st T") fastforce
  have l1: "last_of T1 = last_of T" by (rule last_for [OF wf mem [unfolded Event] f])
  have "in_syscall (tracees T1 ! i) = inside_of False (books T1) (sp_pid st)"
    using books_found(1) [OF wf1 i] by (simp add: inside_of_def book_def)
  then have ins: "noted C sm st (in_syscall (tracees T1 ! i)) n = noted C sm st (inside_of sm (books T) (sp_pid st)) n" for n
    by (cases sm) (simp_all add: noted_def b1)
  show ?thesis
  proof (cases "ends st")
    case True
    then have "T' = T1\<lparr>tr_tab := tracee_remove i (tr_tab T1)\<rparr>"
      using l Event f by (auto simp: loop_step_def ends_def Let_def split: if_splits)
    then have "last_of T' = (last_of T1)(sp_pid st := 0)"
      using table_remove(2) [OF wf1 i] by (auto simp: last_of_def fun_eq_iff)
    then show ?thesis using True Event by (simp add: l1)
  next
    case False
    show ?thesis
    proof (cases "WIFSTOPPED (sp_status st)")
      case True
      obtain sig e where h: "handle_stop C sm st i T1 = (sig, e, T')"
        using l Event f False True by (auto simp: loop_step_def ends_def Let_def split: prod.splits)
      show ?thesis using last_stop [OF wf1 i mem [unfolded Event] h] False True Event by (simp add: l1 ins)
    next
      case no: False
      then have "T' = T1" using l Event f False by (auto simp: loop_step_def ends_def Let_def)
      then show ?thesis using Event False no by (simp add: l1)
    qed
  qed
qed (use l in \<open>auto simp: loop_step_def\<close>)

lemma called_phase: "fst (called C sm p w x) = phase sm p w (fst x)"
  by (cases w; cases x) simp_all

lemma called_run: "fst (fold (called C sm p) ws x) = fold (phase sm p) ws (fst x)"
  by (induction ws arbitrary: x) (simp_all add: called_phase)

lemma called_seccomp: "snd x = 0 \<Longrightarrow> snd (fold (called C True p) ws x) = 0"
proof (induction ws arbitrary: x)
  case (Cons w ws)
  have "snd (called C True p w x) = 0" using Cons.prems by (cases w; cases x) (simp_all add: noted_def)
  then show ?case using Cons.IH by simp
qed simp

lemma start_started: "started root (loop_start ctx root)" "last_of (loop_start ctx root) p = 0"
  by (simp_all add: started_def loop_start_def table_wf_def tracees_def last_of_def procs_def)
    (simp add: book_def new_tracee_def zero_tracee_def Let_def)

lemma last_run:
  assumes "runs C sm root (loop_start ctx root) ws T" and "\<forall>w \<in> set ws. granted w"
  shows "last_of T p = snd (fold (called C sm p) ws (False, 0))"
  using assms
proof (induction rule: runs.induct)
  case runs_start
  show ?case by (simp add: start_started)
next
  case (runs_pass ws T w r T')
  note b = started_books [OF start_started(1) [where root = root and ctx = ctx]]
  have g: "\<forall>w \<in> set ws. granted w" "granted w" using runs_pass.prems by simp_all
  note k = runs_books [OF runs_pass.hyps(1) b(2) g(1)]
  have "inside_of sm (books (loop_start ctx root)) p = False" by (simp add: b(1) inside_of_def)
  then have "inside_of sm (books T) p = fold (phase sm p) ws False" using k by (simp add: inside_run)
  also have "\<dots> = fst (fold (called C sm p) ws (False, 0))" by (simp add: called_run)
  finally show ?case
    using last_pass [OF conjunct1 [OF k] g(2) runs_pass.hyps(2), of p] runs_pass.IH [OF g(1)] by simp
qed

text \<open>C39: what the message about a process killed by a seccomp filter says. At the death by SIGSYS of a process, after any run of
  the loop, the tracer prints one line; in full tracing the number in it is that of the call the process last entered, by its own
  stops, however those of other processes were interleaved; with the seccomp filter it is always 0, the number of another call,
  for no entry is ever noted there.\<close>

theorem seccomp_kill_message:
  assumes run: "runs C sm root (loop_start ctx root) ws T" "\<forall>w \<in> set ws. granted w"
    and kill: "granted (Event st)" "WIFSIGNALED (sp_status st)" "WTERMSIG (sp_status st) = SIGSYS"
  shows "pass_messages C trace_all sm info (Event st) T =
    [''emuroot: pid '' @ dec_int (sp_pid st) @ '' was killed by the system's seccomp filter, probably on syscall '' @
     dec_int (if sm then 0 else snd (fold (called C False (sp_pid st)) ws (False, 0))) @ [CHR 10]]"
proof -
  have wf: "table_wf (tr_tab T)" using runs_books [OF run(1) started_books(2) [OF start_started(1)] run(2)] by blast
  obtain i T1 where f: "tracee_for st T = (Some i, T1)" and wf1: "table_wf (tr_tab T1)" and i: "tracee_find (tr_tab T1) (sp_pid st) = Some i"
    using tracee_for_books [OF wf kill(1)] by (cases "tracee_for st T") fastforce
  have "last_entry (tracees T1 ! i) = last_of T (sp_pid st)"
    using last_found [OF wf1 i] last_for [OF wf kill(1) f] by simp
  also have "\<dots> = (if sm then 0 else snd (fold (called C False (sp_pid st)) ws (False, 0)))"
    using last_run [OF run, of "sp_pid st"] called_seccomp by auto
  finally show ?thesis using kill(2,3) by (simp add: pass_messages_def f Let_def)
qed

text \<open>Process 7 enters call 102 in full tracing and is then killed by SIGSYS.\<close>

definition demo_call :: "u32 \<Rightarrow> stop" where
  "demo_call status = \<lparr>sp_pid = 7, sp_status = status, sp_regs = Some ((\<lambda>_. 0)(15 := 102)), sp_msg = None, sp_mem = demo_mem, sp_host = demo_host\<rparr>"

theorem seccomp_kill_message_witness:
  "\<exists>T. runs demo_cfg False 7 (loop_start zero_ctx 7) [Event (demo_call 0x857F)] T \<and>
     pass_messages demo_cfg False False None (Event (demo_call 31)) T =
       [''emuroot: pid 7 was killed by the system's seccomp filter, probably on syscall 102'' @ [CHR 10]]"
proof -
  let ?e = "demo_call 0x857F" and ?k = "demo_call 31"
  have f: "sp_pid (demo_call x) = 7" "sp_status (demo_call x) = x" "sp_regs (demo_call x) = Some ((\<lambda>_. 0)(15 := 102))" "granted (Event (demo_call x))" for x
    by (simp_all add: demo_call_def demo_host_def Let_def)
  have w: "\<not> ends ?e" "WIFSTOPPED (sp_status ?e)" "syscall_stop ?e" "WIFSIGNALED (sp_status ?k)" "WTERMSIG (sp_status ?k) = SIGSYS"
    by (simp_all only: ends_def syscall_stop_def f) code_simp+
  have "\<exists>r T'. loop_step demo_cfg False 7 (Event ?e) (loop_start zero_ctx 7) = (None, r, T')"
    using w(1,2) by (simp add: loop_step_def ends_def Let_def split: prod.split option.split)
  then obtain r T where l: "loop_step demo_cfg False 7 (Event ?e) (loop_start zero_ctx 7) = (None, r, T)" by blast
  from runs_pass [OF runs_start l] have run: "runs demo_cfg False 7 (loop_start zero_ctx 7) [Event ?e] T" by simp
  have "r_sysno (c_arch demo_cfg) = 15" by code_simp
  then have n: "snd (fold (called demo_cfg False (sp_pid ?k)) [Event ?e] (False, 0)) = 102"
    using w(1,2,3) by (simp add: f noted_def)
  have d: "dec_int 7 = ''7''" "dec_int 102 = ''102''" by code_simp+
  show ?thesis
    using seccomp_kill_message [OF run _ f(4) w(4,5), of False None] run n f(4) by (intro exI [of _ T]) (simp add: d f(1))
qed

text \<open>The kernel's record of a seccomp SIGSYS on a 64-bit machine: signal, error, code, padding, the address of the call, its number,
  the architecture.\<close>

definition seccomp_siginfo :: "u64 \<Rightarrow> u32 \<Rightarrow> u32 \<Rightarrow> u8 list" where
  "seccomp_siginfo addr nr audit = le_bytes 4 31 @ le_bytes 4 0 @ le_bytes 4 1 @ le_bytes 4 0 @ le_bytes 8 addr @
     le_bytes 4 (ucast nr) @ le_bytes 4 (ucast audit) @ replicate 96 0"

lemma int_at_le: "length xs = off \<Longrightarrow> int_at (xs @ le_bytes 4 (ucast (w :: u32)) @ ys) off = sint w"
proof -
  assume l: "length xs = off"
  have "ucast (le_word (le_bytes 4 (ucast w)) :: u64) = w"
    by (simp add: le_word_le_bytes) (rule bit_word_eqI, auto simp: bit_simps)
  then show ?thesis using l by (simp add: int_at_def field_def)
qed

lemma report_seccomp_kill_siginfo:
  assumes "c_lp64 C"
  shows "report_seccomp_kill C pid (Some (seccomp_siginfo addr nr audit)) =
    [''emuroot: pid '' @ dec_int pid @ '' was stopped by the system's seccomp filter on syscall '' @ dec_int (sint nr) @ [CHR 10]]"
proof -
  have "int_at (seccomp_siginfo addr nr audit) 8 = sint (1 :: u32)"
    unfolding seccomp_siginfo_def using int_at_le [of "le_bytes 4 31 @ le_bytes 4 0" 8 1] by simp
  moreover have "int_at (seccomp_siginfo addr nr audit) 24 = sint nr"
    unfolding seccomp_siginfo_def
    using int_at_le [of "le_bytes 4 31 @ le_bytes 4 0 @ le_bytes 4 1 @ le_bytes 4 0 @ le_bytes 8 addr" 24 nr "le_bytes 4 (ucast audit) @ replicate 96 0"] by simp
  ultimately show ?thesis using assms by (simp add: report_seccomp_kill_def nr_offset_def SYS_SECCOMP_def)
qed

end
