(* ===== verification/Unread.thy ===== *)
theory Unread
  imports Frame
begin

text \<open>
  Fields of a tracee the two handlers never look at. \<open>unread\<close> is a change of a tracee that only such fields see:
  every step of the handlers commutes with it. The loop's own fields (\<open>mark\<close>) are of that kind, and at exit
  so is the note that a line was logged (\<open>quiet\<close>). No code is modelled here.
\<close>

text \<open>The change leaves alone, and is left alone by, every field the handlers use.\<close>

locale unread =
  fixes f :: "tracee_t \<Rightarrow> tracee_t"
  assumes f_sel [simp]: "t_pid (f t) = t_pid t" "t_root (f t) = t_root t" "t_sysno (f t) = t_sysno t" "t_args (f t) = t_args t"
      "t_creds (f t) = t_creds t" "scratch_top (f t) = scratch_top t" "t_exe (f t) = t_exe t" "pending_exe (f t) = pending_exe t"
      "chown_valid (f t) = chown_valid t" "chown_dev (f t) = chown_dev t" "chown_ino (f t) = chown_ino t"
      "chown_cur_uid (f t) = chown_cur_uid t" "chown_cur_gid (f t) = chown_cur_gid t" "chown_uid (f t) = chown_uid t"
      "chown_gid (f t) = chown_gid t" "t_created (f t) = t_created t" "pending_root (f t) = pending_root t"
      "mount_handled (f t) = mount_handled t" "proc_link (f t) = proc_link t" "proc_link_exe (f t) = proc_link_exe t"
    and f_upd [simp]: "f (t\<lparr>t_root := p\<rparr>) = (f t)\<lparr>t_root := p\<rparr>" "f (t\<lparr>t_sysno := n\<rparr>) = (f t)\<lparr>t_sysno := n\<rparr>"
      "f (t\<lparr>t_args := as\<rparr>) = (f t)\<lparr>t_args := as\<rparr>" "f (t\<lparr>t_creds := c\<rparr>) = (f t)\<lparr>t_creds := c\<rparr>"
      "f (t\<lparr>scratch_top := a\<rparr>) = (f t)\<lparr>scratch_top := a\<rparr>" "f (t\<lparr>t_exe := p\<rparr>) = (f t)\<lparr>t_exe := p\<rparr>"
      "f (t\<lparr>pending_exe := p\<rparr>) = (f t)\<lparr>pending_exe := p\<rparr>" "f (t\<lparr>chown_valid := b\<rparr>) = (f t)\<lparr>chown_valid := b\<rparr>"
      "f (t\<lparr>chown_dev := a\<rparr>) = (f t)\<lparr>chown_dev := a\<rparr>" "f (t\<lparr>chown_ino := a\<rparr>) = (f t)\<lparr>chown_ino := a\<rparr>"
      "f (t\<lparr>chown_cur_uid := u\<rparr>) = (f t)\<lparr>chown_cur_uid := u\<rparr>" "f (t\<lparr>chown_cur_gid := u\<rparr>) = (f t)\<lparr>chown_cur_gid := u\<rparr>"
      "f (t\<lparr>chown_uid := u\<rparr>) = (f t)\<lparr>chown_uid := u\<rparr>" "f (t\<lparr>chown_gid := u\<rparr>) = (f t)\<lparr>chown_gid := u\<rparr>"
      "f (t\<lparr>t_created := p\<rparr>) = (f t)\<lparr>t_created := p\<rparr>" "f (t\<lparr>pending_root := p\<rparr>) = (f t)\<lparr>pending_root := p\<rparr>"
      "f (t\<lparr>mount_handled := b\<rparr>) = (f t)\<lparr>mount_handled := b\<rparr>" "f (t\<lparr>proc_link := b\<rparr>) = (f t)\<lparr>proc_link := b\<rparr>"
      "f (t\<lparr>proc_link_exe := b\<rparr>) = (f t)\<lparr>proc_link_exe := b\<rparr>" "f (t\<lparr>logged := False\<rparr>) = (f t)\<lparr>logged := False\<rparr>"
begin

abbreviation F :: "sys \<Rightarrow> sys" where "F \<equiv> upd_tr f"

lemma F_out [simp]:
  "(F s)\<lparr>s_mem := m\<rparr> = F (s\<lparr>s_mem := m\<rparr>)" "(F s)\<lparr>s_regs := r\<rparr> = F (s\<lparr>s_regs := r\<rparr>)" "(F s)\<lparr>s_kregs := r\<rparr> = F (s\<lparr>s_kregs := r\<rparr>)"
  "(F s)\<lparr>s_host := h\<rparr> = F (s\<lparr>s_host := h\<rparr>)" "(F s)\<lparr>s_cache := k\<rparr> = F (s\<lparr>s_cache := k\<rparr>)" "(F s)\<lparr>s_ctx := c\<rparr> = F (s\<lparr>s_ctx := c\<rparr>)"
  "put_regs C (F s) = F (put_regs C s)" "set_arg C n v (F s) = F (set_arg C n v s)" "set_ret C v (F s) = F (set_ret C v s)"
  "fail_closed C n (F s) = F (fail_closed C n s)" "set_result C i (F s) = F (set_result C i s)"
  "s_cache (F s) = s_cache s"
  by (simp_all add: upd_tr_def put_regs_def set_arg_def set_ret_def fail_closed_def set_result_def cong: if_cong)

lemma F_upd: "(\<And>t. g (f t) = f (g t)) \<Longrightarrow> upd_tr g (F s) = F (upd_tr g s)"
  by (simp add: upd_tr_def)

lemma F_if [simp]: "(if b then F x else F y) = F (if b then x else y)"
  by simp

lemma F_pair [simp]: "(case apsnd g p of (a, b) \<Rightarrow> h a b) = (case p of (a, b) \<Rightarrow> h a (g b))"
  "(case apfst g' q of (a, b) \<Rightarrow> h' a b) = (case q of (a, b) \<Rightarrow> h' (g' a) b)"
  by (cases p, simp) (cases q, simp)

lemma F_case [simp]: "(case p of (a, b) \<Rightarrow> F (h a b)) = F (case p of (a, b) \<Rightarrow> h a b)"
  "(case x of None \<Rightarrow> F s | Some y \<Rightarrow> F (k y)) = F (case x of None \<Rightarrow> s | Some y \<Rightarrow> k y)"
  "(if b then apsnd F u else apsnd F v) = apsnd F (if b then u else v)" "(if b then apfst F u' else apfst F v') = apfst F (if b then u' else v')"
  "(case x of None \<Rightarrow> apsnd F u | Some y \<Rightarrow> apsnd F (l y)) = apsnd F (case x of None \<Rightarrow> u | Some y \<Rightarrow> l y)"
  "(case x of None \<Rightarrow> apfst F u' | Some y \<Rightarrow> apfst F (l' y)) = apfst F (case x of None \<Rightarrow> u' | Some y \<Rightarrow> l' y)"
  "(case p of (a, b) \<Rightarrow> apsnd F (m a b)) = apsnd F (case p of (a, b) \<Rightarrow> m a b)"
  "(case p of (a, b) \<Rightarrow> apfst F (m' a b)) = apfst F (case p of (a, b) \<Rightarrow> m' a b)"
  by (simp_all split: prod.split option.split)

text \<open>For results that are pairs, the other way round.\<close>

lemma F_tuple: "(i, F s) = apsnd F (i, s)" "(F s, i') = apfst F (s, i')"
  by simp_all

lemmas branches = if_cong option.case_cong prod.case_cong

lemma F_reads [simp]:
  "read_str_at (F s) a n = read_str_at s a n" "readlink_buf (F s) p = readlink_buf s p" "translate (F s) g b n = translate s g b n"
  "cwd_link (F s) = cwd_link s" "read_word (F s) = read_word s" "stat_dev (F s) = stat_dev s" "fd_link (F s) a = fd_link s a"
  by (simp_all add: read_str_at_def readlink_buf_def translate_def cwd_link_def fd_link_def)

lemma F_args [simp]:
  "absolute_guest_path C (F s) k p n = absolute_guest_path C s k p n" "strict_openat2 C (F s) m k = strict_openat2 C s m k"
  "given_path C (F s) k = given_path C s k" "emuroot_follow_last C (F s) d = emuroot_follow_last C s d"
  by (simp_all add: absolute_guest_path_def strict_openat2_def given_path_def emuroot_follow_last_def Let_def cong: option.case_cong follow_mode.case_cong)

lemma F_path_args [simp]:
  "emuroot_host_path_arg C (F s) m k b = emuroot_host_path_arg C s m k b"
  "emuroot_guest_path_arg C (F s) m k = emuroot_guest_path_arg C s m k"
  by (simp_all add: emuroot_host_path_arg_def emuroot_guest_path_arg_def cong: option.case_cong)

lemma F_scratch [simp]: "scratch n (F s) = apsnd F (scratch n s)"
  by (simp add: scratch_def emuroot_scratch_def Let_def upd_tr_def)

lemma F_write [simp]: "write_at a bs (F s) = apsnd F (write_at a bs s)" "write_to a bs (F s) = F (write_to a bs s)"
  by (simp_all add: write_to_def write_at_def split: prod.split)

lemma F_point_at_copy [simp]: "point_at_copy C k h (F s) = F (point_at_copy C k h s)"
  by (simp add: point_at_copy_def split: prod.split)

lemma F_grant_access [simp]: "emuroot_grant_access C m w h (F s) = F (emuroot_grant_access C m w h s)"
  by (simp add: emuroot_grant_access_def dac_for_def)

lemma F_sockaddr [simp]: "rewrite_sockaddr C i j (F s) = F (rewrite_sockaddr C i j s)"
  by (simp add: rewrite_sockaddr_def Let_def cong: branches)

lemma F_neutralize_id [simp]: "neutralize_id_change C a (F s) = F (neutralize_id_change C a s)"
  by (simp add: neutralize_id_change_def split: option.split action.split)

lemma F_chown_stat [simp]: "chown_stat C m d (F s) = chown_stat C m d s"
  by (simp add: chown_stat_def Let_def cong: option.case_cong if_cong)

lemma F_note_chown [simp]: "note_chown C m d (F s) = F (note_chown C m d s)"
  by (simp add: note_chown_def Let_def F_upd split: option.split)

lemma F_note_creation [simp]: "emuroot_note_creation C m d (F s) = F (emuroot_note_creation C m d s)"
  by (simp add: emuroot_note_creation_def creates_file_def Let_def F_upd cong: branches)

lemma F_identity [simp]: "emuroot_identity_entry C m a (F s) = F (emuroot_identity_entry C m a s)"
  by (simp add: emuroot_identity_entry_def Let_def)

lemma F_neutralize [simp]: "neutralize C k r (F s) = F (neutralize C k r s)"
  by (simp add: neutralize_def split: prod.split)

lemma F_emulate [simp]:
  "emulate_chroot C m d (F s) = F (emulate_chroot C m d s)"
  "mount_source C m (F s) = mount_source C m s"
  "emulate_mount C m (F s) = F (emulate_mount C m s)"
  "emulate_umount C m (F s) = F (emulate_umount C m s)"
  by (simp_all add: emulate_chroot_def mount_source_def emulate_mount_def emulate_umount_def Let_def F_upd split: option.split)

lemma F_emulate_mounts [simp]: "emuroot_emulate_mounts C m a (F s) = apsnd F (emuroot_emulate_mounts C m a s)"
proof (cases a)
  case (Some b)
  then show ?thesis by (cases b) (simp_all add: emuroot_emulate_mounts_def Let_def F_tuple del: apsnd_conv cong: branches)
qed (simp add: emuroot_emulate_mounts_def)

lemma F_loader_argv0 [simp]: "loader_has_argv0 p (F s) = apsnd F (loader_has_argv0 p s)"
  by (simp add: loader_has_argv0_def Let_def split: option.split)

lemma F_exec_reads [simp]:
  "host_path_of (F s) p n = host_path_of s p n" "guest_absolute (F s) p n = guest_absolute s p n" "argv0_of (F s) as = argv0_of s as"
  by (simp_all add: host_path_of_def guest_absolute_def argv0_of_def Let_def cong: option.case_cong earg.case_cong)

lemma F_through_loader [simp]: "through_loader i (F s) x = apfst F (through_loader i s x)"
  by (simp add: through_loader_def Let_def F_upd F_tuple del: apfst_conv cong: branches)

lemma F_exec_loop [simp]: "exec_loop d (F s) x = apfst F (exec_loop d s x)"
proof (induction d s x rule: exec_loop.induct)
  case (2 d s x)
  let ?host = "host_path_of s (x_path x) PATH_LEN"
  show ?case
  proof (cases "h_read (s_host s) ?host")
    case (Some g)
    then show ?thesis using 2 by (cases "parse_shebang (bytes_str (take 256 g))") (auto simp: exec_loop.simps Let_def split: option.split)
  qed (simp add: exec_loop.simps Let_def)
qed (simp add: exec_loop.simps)

lemma F_place_exec [simp]: "place_exec C i j x (F s) = apsnd F (place_exec C i j x s)"
  by (simp add: place_exec_def Let_def F_tuple del: apsnd_conv cong: branches)

lemma F_rewrite_exec [simp]: "emuroot_rewrite_exec C i j (F s) = apsnd F (emuroot_rewrite_exec C i j s)"
  by (simp add: emuroot_rewrite_exec_def Let_def F_tuple del: apsnd_conv cong: branches)

lemma F_reset: "entry_reset C (F s) = F (entry_reset C s)"
  by (simp add: entry_reset_def F_upd)

lemma F_exit_created: "exit_created r (F s) = F (exit_created r s)"
  by (simp add: exit_created_def Let_def F_upd cong: branches)

lemma F_exit_getcwd [simp]: "exit_getcwd C r (F s) = F (exit_getcwd C r s)"
  by (simp add: exit_getcwd_def Let_def cong: branches)

lemma F_exit_uname [simp]: "exit_uname C r (F s) = F (exit_uname C r s)"
  by (simp add: exit_uname_def Let_def)

lemma F_map_proc_link [simp]: "map_proc_link C n (F s) = F (map_proc_link C n s)"
  by (simp add: map_proc_link_def Let_def cong: branches)

lemma F_fake_owner [simp]: "fake_owner a l (F s) = F (fake_owner a l s)"
  by (simp add: fake_owner_def Let_def cong: branches)

lemma F_exit_chown [simp]: "exit_chown r (F s) = apsnd F (exit_chown r s)"
  by (auto simp: exit_chown_def Let_def)

lemma F_put_ids [simp]: "put_ids a i (F s) = F (put_ids a i s)"
  by (simp add: put_ids_def)

lemma F_cred_op [simp]: "cred_op_of a as (F s) = cred_op_of a as s"
  by (simp add: cred_op_of_def Let_def split: action.split)

lemma F_exit_ids [simp]: "exit_ids C a r (F s) = apsnd F (exit_ids C a r s)"
proof (cases "cred_op_of a (t_args (s_tr s)) s")
  case None
  then show ?thesis by (cases a) (simp_all add: exit_ids_def Let_def)
next
  case (Some op)
  then show ?thesis by (simp add: exit_ids_def Let_def F_upd split: prod.split)
qed

lemma F_exit_action [simp]: "exit_action C a r (F s) = F (exit_action C a r s)"
  by (simp add: exit_action_def exit_chroot_def Let_def F_upd cong: branches)

lemma F_on_exit: "emuroot_on_exit C (F s) = F (emuroot_on_exit C s)"
  by (simp add: emuroot_on_exit_def F_exit_created Let_def cong: branches)

end

text \<open>At entry a line may be logged.\<close>

locale unread_and_log = unread +
  assumes f_logged [simp]: "f (t\<lparr>logged := b\<rparr>) = (f t)\<lparr>logged := b\<rparr>"
begin

lemma F_path_arg [simp]: "rewrite_path_arg C m k b w (F s) = F (rewrite_path_arg C m k b w s)"
  by (simp add: rewrite_path_arg_def Let_def F_upd cong: branches)

lemma F_entry_paths [simp]: "entry_paths C m d (F s) = F (entry_paths C m d s)"
  by (simp add: entry_paths_def Let_def)

lemma F_entry_call [simp]: "entry_call C m (F s) = F (entry_call C m s)"
  by (simp add: entry_call_def Let_def F_tuple del: apsnd_conv cong: branches)

lemma F_on_entry: "emuroot_on_entry C (F s) = F (emuroot_on_entry C s)"
  by (simp add: emuroot_on_entry_def F_reset Let_def cong: branches)

end

subsection \<open>The fields of the loop, and the log\<close>

definition mark :: "bool \<Rightarrow> bool \<Rightarrow> int \<Rightarrow> tracee_t \<Rightarrow> tracee_t" where
  "mark a b e t = t\<lparr>in_syscall := a, awaiting_exit := b, last_entry := e\<rparr>"

definition quiet :: "bool \<Rightarrow> tracee_t \<Rightarrow> tracee_t" where
  "quiet b t = t\<lparr>logged := b\<rparr>"

interpretation mark: unread_and_log "mark a b e" for a b e
  by unfold_locales (simp_all add: mark_def)

interpretation quiet: unread "quiet False"
  by unfold_locales (simp_all add: quiet_def)
end
