(* ===== verification/FastPath.thy ===== *)
theory FastPath
  imports Runs Unread Seccomp
begin

text \<open>
  The two ways of tracing. With a seccomp filter only the calls of \<^verbatim>\<open>traced_syscalls\<close> stop, without one every call does; the
  handlers are the same. \<open>occ\<close> is what happens to a process, \<open>visible\<close> the stop each mode sees of it. \<open>sim\<close> relates the
  tracers of the two modes: outside calls their tracees differ at most in the fields of the loop and in those a
  new call sets afresh, within a traced call only in the fields of the loop. No code is modelled here but the order of stops the
  kernel produces.
\<close>

subsection \<open>Calls that are not in the filter\<close>

text \<open>What the entry handler knows of a number.\<close>

definition handled :: "cfg \<Rightarrow> int \<Rightarrow> bool" where
  "handled C n \<longleftrightarrow> n \<in> set (traced_syscalls (c_nr C) (c_lp64 C)) \<or> is_sys C ''execveat'' n"

lemma unhandled_entry:
  assumes "\<not> handled C (sint (s_regs s (r_sysno (c_arch C))))"
  shows "emuroot_on_entry C s = entry_reset C s"
proof -
  let ?n = "sint (s_regs s (r_sysno (c_arch C)))"
  have n: "?n \<notin> set (traced_syscalls (c_nr C) (c_lp64 C))" "\<not> is_sys C ''execveat'' ?n" using assms by (simp_all add: handled_def)
  have a: "emuroot_action_of (c_nr C) (c_lp64 C) ?n = None" "emuroot_find_path_syscall (c_nr C) ?n = None"
    using n(1) action_traced find_path_traced by blast+
  have x: "\<not> is_sys C m ?n" if "m \<in> {''execve'', ''bind'', ''connect'', ''sendto''}" for m
    using n(1) extra_traced [of "c_nr C" m ?n] that unfolding is_sys_def by blast
  have e: "entry_call C ?n u = u" for u
    using x n(2) unfolding entry_call_def a(2) by simp
  show ?thesis
    by (simp add: emuroot_on_entry_def a(1) e emuroot_identity_entry_def neutralize_id_change_def emuroot_emulate_mounts_def Let_def)
qed

lemma unhandled_exit:
  assumes "t_created (s_tr s) = []" and "emuroot_action_of (c_nr C) (c_lp64 C) (t_sysno (s_tr s)) = None"
  shows "emuroot_on_exit C s = upd_tr (quiet False) s"
  using assms by (simp add: emuroot_on_exit_def exit_created_none) (simp add: upd_tr_def quiet_def)

lemma exit_quiet: "logged (s_tr (emuroot_on_exit C s)) = False"
proof -
  have "exit_created r s = exit_created r (upd_tr (quiet False) s)" for r
    by (simp add: exit_created_def quiet_def upd_tr_def Let_def)
  then have "emuroot_on_exit C s = emuroot_on_exit C (upd_tr (quiet False) s)" by (simp add: emuroot_on_exit_def)
  then have "emuroot_on_exit C s = upd_tr (quiet False) (emuroot_on_exit C s)" by (simp add: quiet.F_on_exit)
  moreover have "logged (s_tr (upd_tr (quiet False) u)) = False" for u by (simp add: upd_tr_def quiet_def)
  ultimately show ?thesis by metis
qed

subsection \<open>Tracees that differ in the loop's own fields\<close>

text \<open>Between calls the fields that describe a call are dead: the next entry sets them.\<close>

definition idle :: "tracee_t \<Rightarrow> tracee_t" where
  "idle t = mark False False 0 (t\<lparr>t_sysno := 0, t_args := [], scratch_top := 0, proc_link := False, proc_link_exe := False,
     pending_exe := [], chown_valid := False, t_created := [], pending_root := [], mount_handled := False\<rparr>)"

lemma entry_alike:
  assumes i: "idle (s_tr s) = idle t"
  shows "emuroot_on_entry C s = upd_tr (mark (in_syscall (s_tr s)) (awaiting_exit (s_tr s)) (last_entry (s_tr s)))
    (emuroot_on_entry C (s\<lparr>s_tr := t\<rparr>))"
proof -
  let ?m = "mark (in_syscall (s_tr s)) (awaiting_exit (s_tr s)) (last_entry (s_tr s))"
  have "entry_reset C s = upd_tr ?m (entry_reset C (s\<lparr>s_tr := t\<rparr>))"
    using i by (simp add: entry_reset_def upd_tr_def idle_def mark_def get_arg_def) (cases "s_tr s"; cases t; simp)
  also have "\<dots> = entry_reset C (upd_tr ?m (s\<lparr>s_tr := t\<rparr>))" by (simp add: mark.F_reset)
  finally have "emuroot_on_entry C s = emuroot_on_entry C (upd_tr ?m (s\<lparr>s_tr := t\<rparr>))"
    by (simp add: emuroot_on_entry_def)
  then show ?thesis by (simp add: mark.F_on_entry)
qed

lemma exit_alike:
  assumes "mark False False 0 (s_tr s) = mark False False 0 t"
  shows "emuroot_on_exit C s = upd_tr (mark (in_syscall (s_tr s)) (awaiting_exit (s_tr s)) (last_entry (s_tr s)))
    (emuroot_on_exit C (s\<lparr>s_tr := t\<rparr>))"
proof -
  let ?m = "mark (in_syscall (s_tr s)) (awaiting_exit (s_tr s)) (last_entry (s_tr s))"
  have "s_tr s = ?m t" using assms by (cases "s_tr s"; cases t) (simp add: mark_def)
  then have "s = upd_tr ?m (s\<lparr>s_tr := t\<rparr>)" by (simp add: upd_tr_def)
  then show ?thesis using mark.F_on_exit [of C "in_syscall (s_tr s)" "awaiting_exit (s_tr s)" "last_entry (s_tr s)" "s\<lparr>s_tr := t\<rparr>"] by simp
qed

subsection \<open>What happens, and what each mode sees of it\<close>

text \<open>A process enters a call or leaves it, or something else happens to it. The status of a stop at an entry or an exit
  depends on the mode; the one given with \<open>Enter\<close> and \<open>Leave\<close> is not used.\<close>

datatype occ = Enter stop | Leave stop | Other stop

definition SYSCALL_STOP :: u32 where "SYSCALL_STOP = 0x857F"
definition SECCOMP_STOP :: u32 where "SECCOMP_STOP = 0x7057F"

text \<open>The calls the processes are in, and whether the filter traces them.\<close>

type_synonym calls = "int \<rightharpoonup> bool"

definition kernel_traces :: "sock_filter list \<Rightarrow> u32 \<Rightarrow> cfg \<Rightarrow> emuroot_regs_t \<Rightarrow> bool" where
  "kernel_traces prog audit C r \<longleftrightarrow>
     bpf_run prog \<lparr>sd_nr = ucast (r (r_sysno (c_arch C))), sd_arch = audit\<rparr> 0 = Some SECCOMP_RET_TRACE"

fun occ_stop :: "occ \<Rightarrow> stop" where
  "occ_stop (Enter st) = st" | "occ_stop (Leave st) = st" | "occ_stop (Other st) = st"

text \<open>Without a filter every call stops twice; with one only a traced call does, and its first stop is the filter's.\<close>

fun visible :: "bool \<Rightarrow> (emuroot_regs_t \<Rightarrow> bool) \<Rightarrow> calls \<Rightarrow> occ \<Rightarrow> stop option" where
  "visible fast tr inside (Other st) = Some st"
| "visible fast tr inside (Enter st) =
     (if \<not> fast then Some (st\<lparr>sp_status := SYSCALL_STOP\<rparr>)
      else if (case sp_regs st of Some r \<Rightarrow> tr r | None \<Rightarrow> False) then Some (st\<lparr>sp_status := SECCOMP_STOP\<rparr>) else None)"
| "visible fast tr inside (Leave st) =
     (if \<not> fast \<or> inside (sp_pid st) = Some True then Some (st\<lparr>sp_status := SYSCALL_STOP\<rparr>) else None)"

fun calls_after :: "(emuroot_regs_t \<Rightarrow> bool) \<Rightarrow> occ \<Rightarrow> calls \<Rightarrow> calls" where
  "calls_after tr (Enter st) inside = inside(sp_pid st \<mapsto> (case sp_regs st of Some r \<Rightarrow> tr r | None \<Rightarrow> False))"
| "calls_after tr (Leave st) inside = inside(sp_pid st := None)"
| "calls_after tr (Other st) inside = (if ends st then inside(sp_pid st := None) else inside)"

text \<open>How a process goes on: its registers and memory, and the signal delivered.\<close>

type_synonym goes_on = "emuroot_regs_t option \<times> mem \<times> int"

fun signal_of :: "request \<Rightarrow> int" where
  "signal_of (PTRACE_CONT p n) = n" | "signal_of (PTRACE_SYSCALL p n) = n"

definition resumed :: "stop \<Rightarrow> (request \<times> effect) option \<Rightarrow> goes_on" where
  "resumed st q = (case q of
     None \<Rightarrow> (sp_regs st, sp_mem st, 0)
   | Some (q, None) \<Rightarrow> (sp_regs st, sp_mem st, signal_of q)
   | Some (q, Some (r, m)) \<Rightarrow> (Some r, m, signal_of q))"

definition occ_pass :: "cfg \<Rightarrow> bool \<Rightarrow> (emuroot_regs_t \<Rightarrow> bool) \<Rightarrow> int \<Rightarrow> calls \<Rightarrow> occ \<Rightarrow> tracer \<Rightarrow> int option \<times> goes_on \<times> tracer" where
  "occ_pass C fast tr root inside x T =
     (case visible fast tr inside x of
        None \<Rightarrow> (None, resumed (occ_stop x) None, T)
      | Some st \<Rightarrow> (case loop_step C fast root (Event st) T of (rc, q, T) \<Rightarrow> (rc, resumed st q, T)))"

text \<open>How the processes go on after each occurrence, the code the loop ends with, and the context it leaves.\<close>

fun occ_run :: "cfg \<Rightarrow> bool \<Rightarrow> (emuroot_regs_t \<Rightarrow> bool) \<Rightarrow> int \<Rightarrow> calls \<Rightarrow> occ list \<Rightarrow> tracer \<Rightarrow>
    goes_on list \<times> int option \<times> emuroot_ctx" where
  "occ_run C fast tr root inside [] T = ([], None, tr_ctx T)"
| "occ_run C fast tr root inside (x # xs) T =
     (case occ_pass C fast tr root inside x T of
        (Some rc, g, T) \<Rightarrow> ([g], Some rc, tr_ctx T)
      | (None, g, T) \<Rightarrow> apfst (Cons g) (occ_run C fast tr root (calls_after tr x inside) xs T))"

text \<open>The order the kernel guarantees: a process is first seen by another stop, it enters a call when it is in none and
  leaves the one it is in; every number a call has is a plain one, and \<^verbatim>\<open>execveat\<close>, which the filter misses, is not used.\<close>

definition plain_number :: "cfg \<Rightarrow> stop \<Rightarrow> bool" where
  "plain_number C st \<longleftrightarrow> (case sp_regs st of None \<Rightarrow> False
     | Some r \<Rightarrow> 0 \<le> sint (r (r_sysno (c_arch C))) \<and> sint (r (r_sysno (c_arch C))) < 2 ^ 31 \<and> \<not> is_sys C ''execveat'' (sint (r (r_sysno (c_arch C)))))"

fun proper :: "cfg \<Rightarrow> (emuroot_regs_t \<Rightarrow> bool) \<Rightarrow> int set \<Rightarrow> calls \<Rightarrow> occ list \<Rightarrow> bool" where
  "proper C tr known inside [] = True"
| "proper C tr known inside (x # xs) \<longleftrightarrow> granted (Event (occ_stop x)) \<and>
     (let p = sp_pid (occ_stop x)
      in (case x of
            Enter st \<Rightarrow> p \<in> known \<and> inside p = None \<and> plain_number C st
          | Leave st \<Rightarrow> inside p \<noteq> None \<and> sp_regs st \<noteq> None
          | Other st \<Rightarrow> ends st \<or> \<not> syscall_stop st \<and> event_of st \<noteq> PTRACE_EVENT_SECCOMP) \<and>
         proper C tr (if (case x of Other st \<Rightarrow> ends st | _ \<Rightarrow> False) then known - {p} else insert p known)
           (calls_after tr x inside) xs)"

subsection \<open>The two modes side by side\<close>

definition alike :: "cfg \<Rightarrow> bool option \<Rightarrow> tracee_t \<Rightarrow> tracee_t \<Rightarrow> bool" where
  "alike C c t t' \<longleftrightarrow> (case c of
     None \<Rightarrow> idle t = idle t' \<and> \<not> logged t \<and> \<not> in_syscall t \<and> \<not> awaiting_exit t'
   | Some True \<Rightarrow> mark False False 0 t = mark False False 0 t' \<and> in_syscall t \<and> awaiting_exit t'
   | Some False \<Rightarrow> idle t = idle t' \<and> \<not> logged t \<and> in_syscall t \<and> \<not> awaiting_exit t' \<and> t_created t = [] \<and>
       emuroot_action_of (c_nr C) (c_lp64 C) (t_sysno t) = None)"

lemma idle_same: "idle t = idle t' \<Longrightarrow> t_pid t = t_pid t' \<and> fresh t = fresh t' \<and> t_creds t = t_creds t' \<and> t_exe t = t_exe t' \<and> t_root t = t_root t'"
  by (cases t; cases t') (simp add: idle_def mark_def)

lemma mark_idle: "mark False False 0 t = mark False False 0 t' \<Longrightarrow> idle t = idle t'"
  by (cases t; cases t') (simp add: idle_def mark_def)

lemma alike_idle: "alike C c t t' \<Longrightarrow> idle t = idle t'"
  by (cases c) (auto simp: alike_def intro: mark_idle split: bool.splits)

lemmas alike_same = idle_same [OF alike_idle]

lemma alike_new [simp]: "alike C None (new_tracee ctx p parent) (new_tracee ctx p parent)"
  by (simp add: alike_def new_tracee_def tracee_inherit_def zero_tracee_def Let_def split: option.split)

lemma alike_inherit:
  assumes "alike C c t t'" and "alike C c' u u'" shows "alike C c (tracee_inherit t u) (tracee_inherit t' u')"
  using assms(1) alike_same [OF assms(2)]
  by (cases t; cases t'; cases c) (auto simp: alike_def tracee_inherit_def idle_def mark_def split: option.splits bool.splits)

lemma alike_fresh: "alike C c t t' \<Longrightarrow> alike C c (t\<lparr>fresh := b\<rparr>) (t'\<lparr>fresh := b\<rparr>)"
  by (cases t; cases t'; cases c) (auto simp: alike_def idle_def mark_def split: bool.splits)

definition sim :: "cfg \<Rightarrow> int set \<Rightarrow> calls \<Rightarrow> tracer \<Rightarrow> tracer \<Rightarrow> bool" where
  "sim C known inside T T' \<longleftrightarrow> table_wf (tr_tab T) \<and> tr_ctx T = tr_ctx T' \<and> tr_cache T = tr_cache T' \<and>
     tt_cap (tr_tab T) = tt_cap (tr_tab T') \<and>
     list_all2 (\<lambda>t t'. alike C (inside (t_pid t)) t t') (tracees T) (tracees T') \<and>
     known \<subseteq> t_pid ` set (tracees T) \<and> dom inside \<subseteq> known"

lemma sim_nth:
  assumes "sim C known inside T T'"
  shows "length (tracees T') = length (tracees T)"
    "i < length (tracees T) \<Longrightarrow> alike C (inside (t_pid (tracees T ! i))) (tracees T ! i) (tracees T' ! i)"
  using assms by (auto simp: sim_def list_all2_conv_all_nth)

lemma sim_pids: "sim C known inside T T' \<Longrightarrow> map t_pid (tracees T) = map t_pid (tracees T')"
  by (intro nth_equalityI) (auto simp: sim_nth dest: sim_nth(2) alike_same)

lemma position_pids: "map t_pid xs = map t_pid ys \<Longrightarrow> position (\<lambda>t. t_pid t = p) xs = position (\<lambda>t. t_pid t = p) ys"
  by (induction xs ys rule: list_induct2') auto

lemma sim_find: "sim C known inside T T' \<Longrightarrow> tracee_find (tr_tab T') p = tracee_find (tr_tab T) p"
  using position_pids [OF sim_pids] by (simp add: tracee_find_def tracees_def)

lemma sim_at:
  assumes "sim C known inside T T'" and "tracee_find (tr_tab T) p = Some i"
  shows "i < length (tracees T)" "t_pid (tracees T ! i) = p" "alike C (inside p) (tracees T ! i) (tracees T' ! i)"
proof -
  have wf: "table_wf (tr_tab T)" using assms(1) by (simp add: sim_def)
  show i: "i < length (tracees T)" and p: "t_pid (tracees T ! i) = p" using procs_find [OF wf assms(2)] by (simp_all add: tracees_def)
  show "alike C (inside p) (tracees T ! i) (tracees T' ! i)" using sim_nth(2) [OF assms(1) i] p by simp
qed

lemma sim_known: "sim C known inside T T' \<Longrightarrow> p \<in> known \<Longrightarrow> \<exists>i. tracee_find (tr_tab T) p = Some i"
  using position_None [of "\<lambda>t. t_pid t = p" "tracees T"] by (cases "tracee_find (tr_tab T) p") (auto simp: sim_def tracee_find_def tracees_def)

lemma sim_update:
  assumes s: "sim C known inside T T'" and i: "tracee_find (tr_tab T) p = Some i"
    and a: "alike C c (f (tracees T ! i)) (g (tracees T' ! i))" and p: "t_pid (f (tracees T ! i)) = p" and c: "c = None \<or> p \<in> known"
    and w: "tr_tab U = tr_tab T" "tr_tab U' = tr_tab T'" "tr_ctx U = tr_ctx U'" "tr_cache U = tr_cache U'"
  shows "sim C (insert p known) (inside(p := c)) (upd_tracee i f U) (upd_tracee i g U')"
proof -
  note at = sim_at [OF s i]
  have tab: "tracees U = tracees T" "tracees U' = tracees T'" using w by (simp_all add: tracees_def)
  have v: "tracees (upd_tracee i f U) = (tracees T)[i := f (tracees T ! i)]" "tracees (upd_tracee i g U') = (tracees T')[i := g (tracees T' ! i)]"
    "tt_cap (tr_tab (upd_tracee i f U)) = tt_cap (tr_tab T)" "tt_cap (tr_tab (upd_tracee i g U')) = tt_cap (tr_tab T')"
    using tab w by (simp_all add: upd_tracee_def tracees_def)
  have d: "distinct (map t_pid (tracees T))" using s by (simp add: sim_def table_wf_def tracees_def)
  have m: "map t_pid (tracees (upd_tracee i f U)) = map t_pid (tracees T)"
    unfolding v using p at(1,2) by (simp add: map_update list_update_same_conv)
  have wf: "table_wf (tr_tab (upd_tracee i f U))"
    using s m w(1) by (simp add: sim_def table_wf_def upd_tracee_def tracees_def)
  have "alike C ((inside(p := c)) (t_pid (tracees (upd_tracee i f U) ! j))) (tracees (upd_tracee i f U) ! j) (tracees (upd_tracee i g U') ! j)"
    if j: "j < length (tracees T)" for j
  proof (cases "j = i")
    case True
    then show ?thesis using a p at(1) sim_nth(1) [OF s] by (simp add: v)
  next
    case False
    then have "t_pid (tracees T ! j) \<noteq> p" using d j at(1,2) nth_eq_iff_index_eq [of "map t_pid (tracees T)" j i] by simp
    then show ?thesis using sim_nth(2) [OF s j] False by (simp add: v)
  qed
  moreover have "length (tracees (upd_tracee i f U)) = length (tracees T)" "length (tracees (upd_tracee i g U')) = length (tracees T)"
    using sim_nth(1) [OF s] by (simp_all add: v)
  ultimately have l: "list_all2 (\<lambda>t t'. alike C ((inside(p := c)) (t_pid t)) t t') (tracees (upd_tracee i f U)) (tracees (upd_tracee i g U'))"
    unfolding list_all2_conv_all_nth by simp
  have "t_pid ` set (tracees (upd_tracee i f U)) = t_pid ` set (tracees T)" using arg_cong [OF m, of set] by simp
  moreover have "p \<in> t_pid ` set (tracees T)" using at(1,2) nth_mem by force
  ultimately have "insert p known \<subseteq> t_pid ` set (tracees (upd_tracee i f U))" using s by (simp add: sim_def)
  moreover have "dom (inside(p := c)) \<subseteq> insert p known" using s c by (auto simp: sim_def)
  moreover have "tt_cap (tr_tab T) = tt_cap (tr_tab T')" using s by (simp add: sim_def)
  ultimately show ?thesis using wf l v(3,4) w unfolding sim_def by (simp add: upd_tracee_def)
qed

lemma sim_calls: "sim C known inside T T' \<Longrightarrow> known' \<subseteq> t_pid ` set (tracees T) \<Longrightarrow> dom inside \<subseteq> known' \<Longrightarrow> sim C known' inside T T'"
  by (simp add: sim_def)

lemma sim_add:
  assumes s: "sim C known inside T T'" and new: "tracee_find (tr_tab T) p = None" and mem: "mem = (\<lambda>n. True)"
    and par: "case (parent, parent') of (None, None) \<Rightarrow> True | (Some u, Some u') \<Rightarrow> idle u = idle u' | _ \<Rightarrow> False"
    and a: "tracee_add mem (tr_ctx T) p parent (tr_tab T) = (r, tab)" and a': "tracee_add mem (tr_ctx T') p parent' (tr_tab T') = (r', tab')"
  shows "r' = r \<and> sim C known inside (T\<lparr>tr_tab := tab\<rparr>) (T'\<lparr>tr_tab := tab'\<rparr>) \<and> tracee_find tab p = r \<and> r \<noteq> None"
proof -
  have wf: "table_wf (tr_tab T)" and l: "length (tt_v (tr_tab T')) = length (tt_v (tr_tab T))" and c: "tr_ctx T' = tr_ctx T"
    and cap: "tt_cap (tr_tab T') = tt_cap (tr_tab T)"
    using s sim_nth(1) [OF s] by (simp_all add: sim_def tracees_def)
  have nw: "procs (tr_tab T) p = None" using new by (simp add: procs_find_None)
  note t = table_add [OF wf nw _ a, unfolded mem, simplified]
  have n: "new_tracee (tr_ctx T) p parent = new_tracee (tr_ctx T) p parent'"
    using par by (auto simp: new_tracee_def tracee_inherit_def Let_def dest: idle_same split: option.splits)
  have v': "tt_v tab' = tt_v (tr_tab T') @ [new_tracee (tr_ctx T) p parent']" "r' = Some (length (tt_v (tr_tab T)))" "tt_cap tab' = tt_cap tab"
    using a a' mem l c cap by (auto simp: tracee_add_def new_tracee_def Let_def split: if_splits)
  have "p \<notin> known" using s new sim_known [OF s, of p] by auto
  then have "inside p = None" using s by (auto simp: sim_def)
  then have "sim C known inside (T\<lparr>tr_tab := tab\<rparr>) (T'\<lparr>tr_tab := tab'\<rparr>)"
    using s t v' n by (auto simp: sim_def tracees_def intro!: list_all2_appendI)
  moreover have "r' = r" "r \<noteq> None" using t(5) v'(2) by simp_all
  ultimately show ?thesis using t(3) by (intro conjI) simp_all
qed

lemma sim_tracee_for:
  assumes s: "sim C known inside T T'" and mem: "granted (Event st)"
    and f: "tracee_for st T = (r, U)" and f': "tracee_for st T' = (r', U')"
  shows "\<exists>i. r = Some i \<and> r' = Some i \<and> tracee_find (tr_tab U) (sp_pid st) = Some i \<and> sim C known inside U U'"
proof (cases "tracee_find (tr_tab T) (sp_pid st)")
  case None
  obtain q tab where a: "tracee_add (h_calloc (sp_host st)) (tr_ctx T) (sp_pid st) None (tr_tab T) = (q, tab)" by fastforce
  obtain q' tab' where a': "tracee_add (h_calloc (sp_host st)) (tr_ctx T') (sp_pid st) None (tr_tab T') = (q', tab')" by fastforce
  have "q' = q \<and> sim C known inside (T\<lparr>tr_tab := tab\<rparr>) (T'\<lparr>tr_tab := tab'\<rparr>) \<and> tracee_find tab (sp_pid st) = q \<and> q \<noteq> None"
    by (rule sim_add [OF s None _ _ a a']) (use mem in simp_all)
  then show ?thesis using f f' None sim_find [OF s] a a' by (auto simp: tracee_for_def)
next
  case (Some i)
  then have "tracee_for st T = (Some i, T)" "tracee_for st T' = (Some i, T')" by (simp_all add: tracee_for_def sim_find [OF s])
  then show ?thesis using s Some f f' by simp
qed

lemma sim_fork:
  assumes s: "sim C known inside T T'" and i: "tracee_find (tr_tab T) p = Some i" and mem: "granted (Event st)"
  shows "sim C known inside (fork_event st i T) (fork_event st i T')"
proof -
  let ?u = "tracees T ! i" and ?u' = "tracees T' ! i"
  note at = sim_at [OF s i]
  have fe: "fork_event st i V = (case tracee_find (tr_tab V) (child_of st) of
      Some c \<Rightarrow> upd_tracee c (\<lambda>c. tracee_inherit c (tracees V ! i)) V
    | None \<Rightarrow> V\<lparr>tr_tab := snd (tracee_add (h_calloc (sp_host st)) (tr_ctx V) (child_of st) (Some (tracees V ! i)) (tr_tab V))\<rparr>)" for V
    by (simp only: fork_event_def child_of_def Let_def)
  show ?thesis
  proof (cases "tracee_find (tr_tab T) (child_of st)")
    case None
    obtain q tab where a: "tracee_add (h_calloc (sp_host st)) (tr_ctx T) (child_of st) (Some ?u) (tr_tab T) = (q, tab)" by fastforce
    obtain q' tab' where a': "tracee_add (h_calloc (sp_host st)) (tr_ctx T') (child_of st) (Some ?u') (tr_tab T') = (q', tab')" by fastforce
    have "sim C known inside (T\<lparr>tr_tab := tab\<rparr>) (T'\<lparr>tr_tab := tab'\<rparr>)"
      using sim_add [OF s None _ _ a a'] mem alike_idle [OF at(3)] by simp
    then show ?thesis by (simp add: fe None sim_find [OF s] a a')
  next
    case (Some c)
    note ct = sim_at [OF s Some]
    have "sim C (insert (child_of st) known) (inside(child_of st := inside (child_of st)))
       (upd_tracee c (\<lambda>c. tracee_inherit c ?u) T) (upd_tracee c (\<lambda>c. tracee_inherit c ?u') T')"
      by (rule sim_update [OF s Some]) (use s ct(2) alike_inherit [OF ct(3) at(3)] in \<open>auto simp: sim_def tracee_inherit_def\<close>)
    then have "sim C known inside (upd_tracee c (\<lambda>c. tracee_inherit c ?u) T) (upd_tracee c (\<lambda>c. tracee_inherit c ?u') T')"
      using s by (auto simp: sim_def)
    then show ?thesis by (simp add: fe Some sim_find [OF s])
  qed
qed

lemma sim_remove:
  assumes s: "sim C known inside T T'" and i: "tracee_find (tr_tab T) p = Some i"
  shows "sim C (known - {p}) (inside(p := None)) (T\<lparr>tr_tab := tracee_remove i (tr_tab T)\<rparr>) (T'\<lparr>tr_tab := tracee_remove i (tr_tab T')\<rparr>)"
proof -
  let ?v = "tracees T" and ?v' = "tracees T'"
  let ?w = "butlast (?v[i := last ?v])" and ?w' = "butlast (?v'[i := last ?v'])"
  note at = sim_at [OF s i] and l = sim_nth(1) [OF s]
  have wf: "table_wf (tr_tab T)" using s by (simp add: sim_def)
  have d: "distinct (map t_pid ?v)" using wf by (simp add: table_wf_def tracees_def)
  note b = butlast_update_last [OF d at(1)]
  have st: "set ?w = set ?v - {?v ! i}" by (rule b(1))
  have np: "t_pid t \<noteq> p" if "t \<in> set ?w" for t
    using that d at(1,2) unfolding st by (metis DiffD1 DiffD2 distinct_map inj_on_def insertI1 nth_mem)
  have al: "alike C (inside (t_pid (?v ! j))) (?v ! j) (?v' ! j)" if "j < length ?v" for j by (rule sim_nth(2) [OF s that])
  have ne: "?v \<noteq> []" "?v' \<noteq> []" using at(1) l by auto
  have "alike C ((inside(p := None)) (t_pid (?w ! j))) (?w ! j) (?w' ! j)" if j: "j < length ?w" for j
  proof -
    have "t_pid (?w ! j) \<noteq> p" using np [OF nth_mem [OF j]] .
    moreover have "?w ! j = (if j = i then last ?v else ?v ! j)" "?w' ! j = (if j = i then last ?v' else ?v' ! j)"
      using j l at(1) by (simp_all add: nth_butlast)
    moreover have "last ?v = ?v ! (length ?v - 1)" "last ?v' = ?v' ! (length ?v - 1)" using ne l by (simp_all add: last_conv_nth)
    ultimately show ?thesis using al [of j] al [of "length ?v - 1"] j at(1) by (auto split: if_splits)
  qed
  then have l2: "list_all2 (\<lambda>t t'. alike C ((inside(p := None)) (t_pid t)) t t') ?w ?w'"
    using l by (simp add: list_all2_conv_all_nth)
  have "t_pid ` set ?w = t_pid ` set ?v - {p}"
    unfolding st using d at(1,2) by (auto simp: distinct_map inj_on_def)
  moreover have "table_wf (tracee_remove i (tr_tab T))" by (rule table_remove(1) [OF wf i])
  ultimately show ?thesis using s l2
    by (auto simp: sim_def tracee_remove_def tracees_def)
qed

subsection \<open>One occurrence\<close>

lemma stop_consts:
  "\<not> WIFEXITED SYSCALL_STOP" "\<not> WIFSIGNALED SYSCALL_STOP" "WIFSTOPPED SYSCALL_STOP" "WSTOPSIG SYSCALL_STOP = 0x85"
  "\<not> WIFEXITED SECCOMP_STOP" "\<not> WIFSIGNALED SECCOMP_STOP" "WIFSTOPPED SECCOMP_STOP" "WSTOPSIG SECCOMP_STOP \<noteq> 0x85"
  "sint (signed_drop_bit 16 SECCOMP_STOP) = PTRACE_EVENT_SECCOMP"
  by code_simp+

lemma known_for: "tracee_find (tr_tab T) (sp_pid st) = Some i \<Longrightarrow> tracee_for st T = (Some i, T)"
  by (simp add: tracee_for_def)

text \<open>A call's stop with registers, in each mode.\<close>

definition after_handler :: "(sys \<Rightarrow> sys) \<Rightarrow> (tracee_t \<Rightarrow> tracee_t) \<Rightarrow> stop \<Rightarrow> nat \<Rightarrow> emuroot_regs_t \<Rightarrow> tracer \<Rightarrow> tracer" where
  "after_handler h f st i r T =
     upd_tracee i f (upd_tracee i (\<lambda>_. s_tr (h (stopped st i T r)))
       (T\<lparr>tr_ctx := s_ctx (h (stopped st i T r)), tr_cache := s_cache (h (stopped st i T r))\<rparr>))"

lemma upd_id: "upd_tracee i id U = U"
  by (simp add: upd_tracee_def tracees_def)

lemma with_regs_some:
  "sp_regs st = Some r \<Longrightarrow> with_regs h st i T = (Some (s_kregs (h (stopped st i T r)), s_mem (h (stopped st i T r))), after_handler h id st i r T)"
  by (simp add: with_regs_def after_handler_def upd_id) (simp add: stopped_def Let_def)

lemma after_handler_id: "upd_tracee i f (after_handler h id st i r T) = after_handler h f st i r T"
  by (simp add: after_handler_def upd_id)

lemma after_handler_one:
  "i < length (tracees T) \<Longrightarrow> after_handler h f st i r T =
     upd_tracee i (\<lambda>_. f (s_tr (h (stopped st i T r)))) (T\<lparr>tr_ctx := s_ctx (h (stopped st i T r)), tr_cache := s_cache (h (stopped st i T r))\<rparr>)"
  by (simp add: after_handler_def upd_tracee_def tracees_def)

lemma stopped_status [simp]: "stopped (st\<lparr>sp_status := w\<rparr>) i T r = stopped st i T r" "after_handler h f (st\<lparr>sp_status := w\<rparr>) = after_handler h f st"
  by (simp_all add: stopped_def after_handler_def fun_eq_iff)

lemma call_stop_full:
  assumes i: "tracee_find (tr_tab T) (sp_pid st) = Some i" and r: "sp_regs st = Some r"
  shows "loop_step C False root (Event (st\<lparr>sp_status := SYSCALL_STOP\<rparr>)) T =
    (let h = (if in_syscall (tracees T ! i) then emuroot_on_exit C else emuroot_on_entry C \<circ> note_entry C); s = h (stopped st i T r)
     in (None, Some (PTRACE_SYSCALL (sp_pid st) 0, Some (s_kregs s, s_mem s)), after_handler h (\<lambda>t. t\<lparr>in_syscall := \<not> in_syscall t\<rparr>) st i r T))"
  using i r by (simp add: loop_step_def known_for stop_consts handle_stop_def with_regs_some after_handler_id Let_def)

lemma seccomp_stop_fast:
  assumes i: "tracee_find (tr_tab T) (sp_pid st) = Some i" and r: "sp_regs st = Some r"
  shows "\<exists>q. signal_of q = 0 \<and> loop_step C True root (Event (st\<lparr>sp_status := SECCOMP_STOP\<rparr>)) T =
    (None, Some (q, Some (s_kregs (emuroot_on_entry C (stopped st i T r)), s_mem (emuroot_on_entry C (stopped st i T r)))),
      after_handler (emuroot_on_entry C) (\<lambda>t. t\<lparr>awaiting_exit := True\<rparr>) st i r T)"
  using i r by (simp add: loop_step_def known_for stop_consts handle_stop_def with_regs_some after_handler_id Let_def)

lemma exit_stop_fast:
  assumes i: "tracee_find (tr_tab T) (sp_pid st) = Some i" and r: "sp_regs st = Some r" and a: "awaiting_exit (tracees T ! i)"
  shows "\<exists>q. signal_of q = 0 \<and> loop_step C True root (Event (st\<lparr>sp_status := SYSCALL_STOP\<rparr>)) T =
    (None, Some (q, Some (s_kregs (emuroot_on_exit C (stopped st i T r)), s_mem (emuroot_on_exit C (stopped st i T r)))),
      after_handler (emuroot_on_exit C) (\<lambda>t. t\<lparr>awaiting_exit := False\<rparr>) st i r T)"
  using i r a by (simp add: loop_step_def known_for stop_consts handle_stop_def with_regs_some after_handler_id Let_def)

lemma sim_stopped:
  assumes "sim C known inside T T'" shows "stopped st i T' r = (stopped st i T r)\<lparr>s_tr := tracees T' ! i\<rparr>"
  using assms by (simp add: stopped_def sim_def)

lemma mark_pid [simp]: "t_pid (mark a b e t) = t_pid t" "in_syscall (mark a b e t) = a" "awaiting_exit (mark a b e t) = b"
  by (simp_all add: mark_def)

lemma handler_frame:
  "t_pid (s_tr (emuroot_on_entry C s)) = t_pid (s_tr s)" "t_pid (s_tr (emuroot_on_exit C s)) = t_pid (s_tr s)"
  "in_syscall (s_tr (emuroot_on_entry C s)) = in_syscall (s_tr s)" "in_syscall (s_tr (emuroot_on_exit C s)) = in_syscall (s_tr s)"
  "awaiting_exit (s_tr (emuroot_on_entry C s)) = awaiting_exit (s_tr s)" "awaiting_exit (s_tr (emuroot_on_exit C s)) = awaiting_exit (s_tr s)"
  using book_on_entry [of C s] book_on_exit [of C s] by (simp_all add: book_def)

text \<open>After the handlers the two tracers hold the same again.\<close>

lemma sim_after:
  assumes s: "sim C known inside T T'" and i: "tracee_find (tr_tab T) p = Some i" and c: "c = None \<or> p \<in> known"
    and u: "h (stopped st i T r) = upd_tr (mark a b e) (h' (stopped st i T' r))"
    and al: "alike C c (f (mark a b e (s_tr (h' (stopped st i T' r))))) (f' (s_tr (h' (stopped st i T' r))))"
    and p: "t_pid (f (mark a b e (s_tr (h' (stopped st i T' r))))) = p"
  shows "sim C (insert p known) (inside(p := c)) (after_handler h f st i r T) (after_handler h' f' st i r T')"
proof -
  have l: "i < length (tracees T)" "i < length (tracees T')" using sim_at [OF s i] sim_nth(1) [OF s] by simp_all
  have "s_cache (upd_tr g v) = s_cache v" for g v by (simp add: upd_tr_def)
  then show ?thesis unfolding after_handler_one [OF l(1)] after_handler_one [OF l(2)]
    by (intro sim_update [OF s i _ _ c]) (use al p in \<open>simp_all add: u\<close>)
qed

lemma enter_traced:
  assumes s: "sim C known inside T T'" and i: "tracee_find (tr_tab T) (sp_pid st) = Some i" and r: "sp_regs st = Some r"
    and o: "inside (sp_pid st) = None" and k: "sp_pid st \<in> known"
  shows "\<exists>q q' U U'. loop_step C False root (Event (st\<lparr>sp_status := SYSCALL_STOP\<rparr>)) T = (None, q, U) \<and>
    loop_step C True root (Event (st\<lparr>sp_status := SECCOMP_STOP\<rparr>)) T' = (None, q', U') \<and> resumed x q = resumed x' q' \<and>
    sim C known (inside(sp_pid st \<mapsto> True)) U U'"
proof -
  let ?t = "tracees T ! i" and ?s = "note_entry C (stopped st i T r)" and ?u = "emuroot_on_entry C (stopped st i T' r)"
  note at = sim_at [OF s i]
  have al: "idle ?t = idle (tracees T' ! i)" "\<not> in_syscall ?t" using at(3) o by (simp_all add: alike_def)
  have tr: "s_tr (stopped st i T r) = ?t" "s_tr (stopped st i T' r) = tracees T' ! i" by (simp_all add: stopped_def)
  have n: "idle (s_tr ?s) = idle ?t" "in_syscall (s_tr ?s) = in_syscall ?t" "?s\<lparr>s_tr := tracees T' ! i\<rparr> = stopped st i T' r"
    using tr by (simp_all add: note_entry_def idle_def mark_def upd_tr_def sim_stopped [OF s])
  obtain b e where e: "emuroot_on_entry C ?s = upd_tr (mark False b e) ?u"
    using entry_alike [of ?s "tracees T' ! i" C] n al by auto
  have i': "tracee_find (tr_tab T') (sp_pid st) = Some i" using i sim_find [OF s] by simp
  have pid: "t_pid (s_tr ?u) = sp_pid st" using at(2) alike_same [OF at(3)] by (simp add: handler_frame tr)
  obtain q' where q': "signal_of q' = 0" "loop_step C True root (Event (st\<lparr>sp_status := SECCOMP_STOP\<rparr>)) T' =
      (None, Some (q', Some (s_kregs ?u, s_mem ?u)), after_handler (emuroot_on_entry C) (\<lambda>t. t\<lparr>awaiting_exit := True\<rparr>) st i r T')"
    using seccomp_stop_fast [OF i' r] by blast
  have "sim C (insert (sp_pid st) known) (inside(sp_pid st \<mapsto> True))
      (after_handler (emuroot_on_entry C \<circ> note_entry C) (\<lambda>t. t\<lparr>in_syscall := \<not> in_syscall t\<rparr>) st i r T)
      (after_handler (emuroot_on_entry C) (\<lambda>t. t\<lparr>awaiting_exit := True\<rparr>) st i r T')"
    by (rule sim_after [OF s i]) (use k e pid in \<open>auto simp: alike_def mark_def\<close>)
  then show ?thesis
    using q' al(2) e k by (simp add: call_stop_full [OF i r] Let_def resumed_def insert_absorb)
qed

lemma unhandled_step:
  assumes "\<not> handled C (sint (r (r_sysno (c_arch C))))"
  shows "emuroot_on_entry C (note_entry C (stopped st i T r)) = entry_reset C (note_entry C (stopped st i T r))"
  by (rule unhandled_entry) (use assms in \<open>simp add: note_entry_def stopped_def\<close>)

lemma enter_untraced:
  assumes s: "sim C known inside T T'" and i: "tracee_find (tr_tab T) (sp_pid st) = Some i" and r: "sp_regs st = Some r"
    and o: "inside (sp_pid st) = None" and k: "sp_pid st \<in> known" and nh: "\<not> handled C (sint (r (r_sysno (c_arch C))))"
  shows "\<exists>q U. loop_step C False root (Event (st\<lparr>sp_status := SYSCALL_STOP\<rparr>)) T = (None, q, U) \<and>
    resumed x q = resumed st None \<and> sim C known (inside(sp_pid st \<mapsto> False)) U T'"
proof -
  let ?t = "tracees T ! i" and ?s = "entry_reset C (note_entry C (stopped st i T r))"
  let ?U = "after_handler (emuroot_on_entry C \<circ> note_entry C) (\<lambda>t. t\<lparr>in_syscall := \<not> in_syscall t\<rparr>) st i r T"
  note at = sim_at [OF s i]
  have al: "idle ?t = idle (tracees T' ! i)" "\<not> in_syscall ?t" "\<not> logged ?t" "\<not> awaiting_exit (tracees T' ! i)"
    using at(3) o by (simp_all add: alike_def)
  have same: "s_ctx ?s = tr_ctx T" "s_cache ?s = tr_cache T" "s_kregs ?s = r" "s_mem ?s = sp_mem st"
    by (simp_all add: entry_reset_def note_entry_def stopped_def upd_tr_def)
  have act: "emuroot_action_of (c_nr C) (c_lp64 C) (sint (r (r_sysno (c_arch C)))) = None"
    using nh action_traced unfolding handled_def by blast
  have U: "?U = upd_tracee i (\<lambda>_. (s_tr ?s)\<lparr>in_syscall := True\<rparr>) T"
    unfolding after_handler_one [OF at(1)] using same al(2)
    by (simp add: unhandled_step [where r = r, OF nh]) (simp add: entry_reset_def note_entry_def stopped_def)
  have "sim C (insert (sp_pid st) known) (inside(sp_pid st := Some False))
      (upd_tracee i (\<lambda>_. (s_tr ?s)\<lparr>in_syscall := True\<rparr>) T) (upd_tracee i id T')"
    by (rule sim_update [OF s i]) (use s k al act at(2) in \<open>auto simp: alike_def sim_def entry_reset_def note_entry_def stopped_def idle_def mark_def\<close>)
  then show ?thesis using k al(2) same r
    by (simp add: call_stop_full [OF i r] Let_def resumed_def upd_id U insert_absorb unhandled_step [where r = r, OF nh])
qed

lemma leave_traced:
  assumes s: "sim C known inside T T'" and i: "tracee_find (tr_tab T) (sp_pid st) = Some i" and r: "sp_regs st = Some r"
    and o: "inside (sp_pid st) = Some True"
  shows "\<exists>q q' U U'. loop_step C False root (Event (st\<lparr>sp_status := SYSCALL_STOP\<rparr>)) T = (None, q, U) \<and>
    loop_step C True root (Event (st\<lparr>sp_status := SYSCALL_STOP\<rparr>)) T' = (None, q', U') \<and> resumed x q = resumed x' q' \<and>
    sim C known (inside(sp_pid st := None)) U U'"
proof -
  let ?t = "tracees T ! i" and ?s = "stopped st i T r" and ?u = "emuroot_on_exit C (stopped st i T' r)"
  note at = sim_at [OF s i]
  have al: "mark False False 0 ?t = mark False False 0 (tracees T' ! i)" "in_syscall ?t" "awaiting_exit (tracees T' ! i)"
    using at(3) o by (simp_all add: alike_def)
  have tr: "s_tr ?s = ?t" "s_tr (stopped st i T' r) = tracees T' ! i" by (simp_all add: stopped_def)
  obtain b e where e: "emuroot_on_exit C ?s = upd_tr (mark True b e) ?u"
    using exit_alike [of ?s "tracees T' ! i" C] tr al by (auto simp: sim_stopped [OF s])
  have i': "tracee_find (tr_tab T') (sp_pid st) = Some i" using i sim_find [OF s] by simp
  have pid: "t_pid (s_tr ?u) = sp_pid st" using at(2) alike_same [OF at(3)] by (simp add: handler_frame tr)
  obtain q' where q': "signal_of q' = 0" "loop_step C True root (Event (st\<lparr>sp_status := SYSCALL_STOP\<rparr>)) T' =
      (None, Some (q', Some (s_kregs ?u, s_mem ?u)), after_handler (emuroot_on_exit C) (\<lambda>t. t\<lparr>awaiting_exit := False\<rparr>) st i r T')"
    using exit_stop_fast [OF i' r al(3)] by blast
  have "sim C (insert (sp_pid st) known) (inside(sp_pid st := None))
      (after_handler (emuroot_on_exit C) (\<lambda>t. t\<lparr>in_syscall := \<not> in_syscall t\<rparr>) st i r T)
      (after_handler (emuroot_on_exit C) (\<lambda>t. t\<lparr>awaiting_exit := False\<rparr>) st i r T')"
    by (rule sim_after [OF s i]) (use e pid exit_quiet [of C "stopped st i T' r"] in \<open>auto simp: alike_def idle_def mark_def\<close>)
  moreover have "sp_pid st \<in> known" using s o by (auto simp: sim_def)
  ultimately show ?thesis
    using q' al(2) e by (simp add: call_stop_full [OF i r] Let_def resumed_def insert_absorb)
qed

lemma leave_untraced:
  assumes s: "sim C known inside T T'" and i: "tracee_find (tr_tab T) (sp_pid st) = Some i" and r: "sp_regs st = Some r"
    and o: "inside (sp_pid st) = Some False"
  shows "\<exists>q U. loop_step C False root (Event (st\<lparr>sp_status := SYSCALL_STOP\<rparr>)) T = (None, q, U) \<and>
    resumed x q = resumed st None \<and> sim C known (inside(sp_pid st := None)) U T'"
proof -
  let ?t = "tracees T ! i" and ?s = "stopped st i T r"
  let ?U = "after_handler (emuroot_on_exit C) (\<lambda>t. t\<lparr>in_syscall := \<not> in_syscall t\<rparr>) st i r T"
  note at = sim_at [OF s i]
  have al: "idle ?t = idle (tracees T' ! i)" "in_syscall ?t" "\<not> logged ?t" "\<not> awaiting_exit (tracees T' ! i)" "t_created ?t = []"
    "emuroot_action_of (c_nr C) (c_lp64 C) (t_sysno ?t) = None"
    using at(3) o by (simp_all add: alike_def)
  have "quiet False ?t = ?t" using al(3) by (cases "?t") (simp add: quiet_def)
  then have qs: "upd_tr (quiet False) ?s = ?s" by (simp add: stopped_def upd_tr_def)
  have "emuroot_on_exit C ?s = upd_tr (quiet False) ?s" by (rule unhandled_exit) (use al in \<open>simp_all add: stopped_def\<close>)
  then have x: "emuroot_on_exit C ?s = ?s" by (simp only: qs)
  have same: "s_ctx ?s = tr_ctx T" "s_cache ?s = tr_cache T" "s_kregs ?s = r" "s_mem ?s = sp_mem st" "s_tr ?s = ?t"
    by (simp_all add: stopped_def)
  have U: "?U = upd_tracee i (\<lambda>t. t\<lparr>in_syscall := False\<rparr>) T"
    unfolding after_handler_one [OF at(1)] x same using al(2) by (simp add: upd_tracee_def)
  have "sim C (insert (sp_pid st) known) (inside(sp_pid st := None))
      (upd_tracee i (\<lambda>t. t\<lparr>in_syscall := False\<rparr>) T) (upd_tracee i id T')"
    by (rule sim_update [OF s i]) (use s al at(2) in \<open>auto simp: alike_def sim_def idle_def mark_def\<close>)
  moreover have "sp_pid st \<in> known" using s o by (auto simp: sim_def)
  ultimately show ?thesis using al(2) same r
    by (simp add: call_stop_full [OF i r] Let_def resumed_def upd_id U insert_absorb x)
qed

lemma other_handled:
  assumes s: "sim C known inside T T'" and i: "tracee_find (tr_tab T) (sp_pid st) = Some i" and mem: "granted (Event st)"
    and ns: "\<not> syscall_stop st" "event_of st \<noteq> PTRACE_EVENT_SECCOMP"
  shows "\<exists>sig U U'. handle_stop C False st i T = (sig, None, U) \<and> handle_stop C True st i T' = (sig, None, U') \<and> sim C known inside U U'"
proof -
  have n: "WSTOPSIG (sp_status st) \<noteq> 0x85" "sint (signed_drop_bit 16 (sp_status st)) \<noteq> PTRACE_EVENT_SECCOMP"
    using ns by (simp_all add: syscall_stop_def event_of_def)
  note at = sim_at [OF s i]
  have fr: "fresh (tracees T' ! i) = fresh (tracees T ! i)" using alike_same [OF at(3)] by simp
  have "sim C (insert (sp_pid st) known) (inside(sp_pid st := inside (sp_pid st)))
      (upd_tracee i (\<lambda>t. t\<lparr>fresh := False\<rparr>) T) (upd_tracee i (\<lambda>t. t\<lparr>fresh := False\<rparr>) T')"
    by (rule sim_update [OF s i]) (use s at(2) alike_fresh [OF at(3)] in \<open>auto simp: sim_def\<close>)
  then have f: "sim C known inside (upd_tracee i (\<lambda>t. t\<lparr>fresh := False\<rparr>) T) (upd_tracee i (\<lambda>t. t\<lparr>fresh := False\<rparr>) T')"
    using s by (auto simp: sim_def)
  show ?thesis
    using n fr f s sim_fork [OF s i mem] by (simp add: handle_stop_def Let_def)
qed

lemma other_step:
  assumes s: "sim C known inside T T'" and mem: "granted (Event st)"
    and o: "ends st \<or> \<not> syscall_stop st \<and> event_of st \<noteq> PTRACE_EVENT_SECCOMP"
  shows "\<exists>rc q q' U U'. loop_step C False root (Event st) T = (rc, q, U) \<and> loop_step C True root (Event st) T' = (rc, q', U') \<and>
    resumed st q = resumed st q' \<and> tr_ctx U = tr_ctx U' \<and>
    (rc = None \<longrightarrow> sim C (if ends st then known - {sp_pid st} else insert (sp_pid st) known) (calls_after tr (Other st) inside) U U')"
proof -
  obtain i V V' where v: "tracee_for st T = (Some i, V)" "tracee_for st T' = (Some i, V')" "tracee_find (tr_tab V) (sp_pid st) = Some i"
      and sv: "sim C known inside V V'"
    using sim_tracee_for [OF s mem] by (metis surj_pair)
  have p: "sp_pid st \<in> t_pid ` set (tracees V)" using sim_at [OF sv v(3)] nth_mem by force
  have ctx: "tr_ctx V = tr_ctx V'" using sv by (simp add: sim_def)
  show ?thesis
  proof (cases "ends st")
    case True
    show ?thesis
      using True v ctx sim_remove [OF sv v(3)] by (auto simp: loop_step_def ends_def Let_def)
  next
    case False
    then have no: "\<not> syscall_stop st" "event_of st \<noteq> PTRACE_EVENT_SECCOMP" using o by simp_all
    have up: "sim C (insert (sp_pid st) known) inside U U'" if "sim C known inside U U'" "sp_pid st \<in> t_pid ` set (tracees U)" for U U'
      using that by (auto simp: sim_def)
    show ?thesis
    proof (cases "WIFSTOPPED (sp_status st)")
      case True
      obtain sig U U' where h: "handle_stop C False st i V = (sig, None, U)" "handle_stop C True st i V' = (sig, None, U')" "sim C known inside U U'"
        using other_handled [OF sv v(3) mem no] by blast
      have wf: "table_wf (tr_tab V)" using sv by (simp add: sim_def)
      have "sp_pid st \<in> dom (books U)"
        unfolding handle_stop_books(2) [OF wf v(3) mem h(1)] by (simp add: Let_def)
      then have "sp_pid st \<in> t_pid ` set (tracees U)" by (simp add: dom_books)
      then show ?thesis using False True v h up [OF h(3)] by (simp add: loop_step_def ends_def resumed_def Let_def sim_def)
    next
      case ns: False
      then show ?thesis using False v up [OF sv p] ctx by (simp add: loop_step_def ends_def resumed_def Let_def)
    qed
  qed
qed

subsection \<open>Both modes emulate the same\<close>

lemma number_low:
  assumes "0 \<le> sint v" "sint v < 2 ^ 31" and "0 \<le> k" "k < 2 ^ 31"
  shows "ucast (v :: u64) = (word_of_int k :: u32) \<longleftrightarrow> sint v = k"
proof -
  have low: "uint (word_of_int n :: u32) = n" if "0 \<le> n" "n < 2 ^ 31" for n
    using that by (simp add: unsigned_of_int take_bit_int_eq_self)
  have "(ucast (word_of_int n :: u64) :: u32) = word_of_int n" if "0 \<le> n" "n < 2 ^ 31" for n
    using that by (simp add: unsigned_of_int take_bit_int_eq_self)
  from this [OF assms(1,2)] have "(ucast v :: u32) = word_of_int (sint v)" by simp
  then show ?thesis using low assms by (metis word_uint_eq_iff)
qed

text \<open>The filter traces what the entry handler handles.\<close>

lemma traces_handled:
  assumes nums: "\<forall>n i. c_nr C n = Some i \<longrightarrow> 0 \<le> i \<and> i < 2 ^ 31"
    and prog: "emuroot_seccomp_trace audit nnp ok (traced_syscalls (c_nr C) (c_lp64 C)) = (rc, Some prog)"
    and pl: "plain_number C st" "sp_regs st = Some r"
  shows "kernel_traces prog audit C r \<longleftrightarrow> handled C (sint (r (r_sysno (c_arch C))))"
proof -
  let ?l = "traced_syscalls (c_nr C) (c_lp64 C)" and ?v = "r (r_sysno (c_arch C))"
  have v: "0 \<le> sint ?v" "sint ?v < 2 ^ 31" "\<not> is_sys C ''execveat'' (sint ?v)" using pl by (simp_all add: plain_number_def)
  have p: "prog = filter_prog audit ?l" using prog by (auto simp: emuroot_seccomp_trace_def split: if_splits)
  have "0 \<le> k \<and> k < 2 ^ 31" if "k \<in> set ?l" for k using traced_named [OF that] nums by blast
  then have "(ucast ?v :: u32) \<in> word_of_int ` set ?l \<longleftrightarrow> sint ?v \<in> set ?l"
    using number_low [OF v(1,2)] by (auto simp: image_iff)
  then show ?thesis
    using v(3) filter_prog_run [of ?l audit] traced_length [of "c_nr C" "c_lp64 C"] by (simp add: kernel_traces_def handled_def p SECCOMP_RET_TRACE_def SECCOMP_RET_ALLOW_def)
qed

lemma resumed_status [simp]: "resumed (st\<lparr>sp_status := w\<rparr>) q = resumed st q"
  by (simp add: resumed_def split: option.split)

lemma sim_start: "sim C {root} Map.empty (loop_start ctx root) (loop_start ctx root)"
  by (simp add: sim_def table_wf_def loop_start_def tracees_def alike_def new_tracee_def zero_tracee_def Let_def)

text \<open>One event: both tracers answer it the same and hold the same after it.\<close>

definition known_after :: "occ \<Rightarrow> int set \<Rightarrow> int set" where
  "known_after x known = (if (case x of Other st \<Rightarrow> ends st | _ \<Rightarrow> False) then known - {sp_pid (occ_stop x)} else insert (sp_pid (occ_stop x)) known)"

definition same_pass :: "cfg \<Rightarrow> (emuroot_regs_t \<Rightarrow> bool) \<Rightarrow> int \<Rightarrow> int set \<Rightarrow> calls \<Rightarrow> occ \<Rightarrow> tracer \<Rightarrow> tracer \<Rightarrow> bool" where
  "same_pass C tr root known inside x T T' \<longleftrightarrow> (\<exists>rc g U U'.
     occ_pass C False tr root inside x T = (rc, g, U) \<and> occ_pass C True tr root inside x T' = (rc, g, U') \<and>
     tr_ctx U = tr_ctx U' \<and> (rc = None \<longrightarrow> sim C (known_after x known) (calls_after tr x inside) U U'))"

lemma same_passI:
  assumes "occ_pass C False tr root inside x T = (None, g, U)" "occ_pass C True tr root inside x T' = (None, g, U')"
    and "sim C known c U U'" "c = calls_after tr x inside" "sp_pid (occ_stop x) \<in> known" "\<forall>st. x \<noteq> Other st"
  shows "same_pass C tr root known inside x T T'"
proof -
  have "known_after x known = known" using assms(5,6) by (cases x) (auto simp: known_after_def)
  moreover have "tr_ctx U = tr_ctx U'" using assms(3) by (simp add: sim_def)
  ultimately show ?thesis using assms(1-4) unfolding same_pass_def
    by (intro exI [of _ None] exI [of _ g] exI [of _ U] exI [of _ U']) simp
qed

lemma enter_same:
  assumes nums: "\<forall>n i. c_nr C n = Some i \<longrightarrow> 0 \<le> i \<and> i < 2 ^ 31"
    and prog: "emuroot_seccomp_trace audit nnp ok (traced_syscalls (c_nr C) (c_lp64 C)) = (rc, Some prog)"
    and s: "sim C known inside T T'" and e: "sp_pid st \<in> known" "inside (sp_pid st) = None" "plain_number C st"
  shows "same_pass C (kernel_traces prog audit C) root known inside (Enter st) T T'"
proof -
  let ?tr = "kernel_traces prog audit C"
  obtain r where r: "sp_regs st = Some r" using e(3) by (auto simp: plain_number_def split: option.splits)
  obtain i where i: "tracee_find (tr_tab T) (sp_pid st) = Some i" using sim_known [OF s e(1)] by blast
  show ?thesis
  proof (cases "?tr r")
    case True
    from enter_traced [OF s i r e(2,1), of root st st] obtain q q' U U'
      where o: "loop_step C False root (Event (st\<lparr>sp_status := SYSCALL_STOP\<rparr>)) T = (None, q, U)"
        "loop_step C True root (Event (st\<lparr>sp_status := SECCOMP_STOP\<rparr>)) T' = (None, q', U')"
        "resumed st q = resumed st q'" "sim C known (inside(sp_pid st \<mapsto> True)) U U'" by blast
    show ?thesis
      by (rule same_passI [of _ _ _ _ _ _ "resumed st q" U _ U' _ "inside(sp_pid st \<mapsto> True)"]) (use o True r e(1) in \<open>simp_all add: occ_pass_def\<close>)
  next
    case False
    then have nh: "\<not> handled C (sint (r (r_sysno (c_arch C))))" using traces_handled [OF nums prog e(3) r] by simp
    from enter_untraced [OF s i r e(2,1) nh, of root st] obtain q U
      where o: "loop_step C False root (Event (st\<lparr>sp_status := SYSCALL_STOP\<rparr>)) T = (None, q, U)"
        "resumed st q = resumed st None" "sim C known (inside(sp_pid st \<mapsto> False)) U T'" by blast
    show ?thesis
      by (rule same_passI [of _ _ _ _ _ _ "resumed st q" U _ T' _ "inside(sp_pid st \<mapsto> False)"]) (use o False r e(1) in \<open>simp_all add: occ_pass_def\<close>)
  qed
qed

lemma leave_same:
  assumes s: "sim C known inside T T'" and e: "inside (sp_pid st) = Some b" "sp_regs st = Some r"
  shows "same_pass C tr root known inside (Leave st) T T'"
proof -
  have k: "sp_pid st \<in> known" using s e(1) by (auto simp: sim_def)
  obtain i where i: "tracee_find (tr_tab T) (sp_pid st) = Some i" using sim_known [OF s k] by blast
  show ?thesis
  proof (cases b)
    case True
    then have "inside (sp_pid st) = Some True" using e(1) by simp
    from leave_traced [OF s i e(2) this, of root st st] obtain q q' U U'
      where o: "loop_step C False root (Event (st\<lparr>sp_status := SYSCALL_STOP\<rparr>)) T = (None, q, U)"
        "loop_step C True root (Event (st\<lparr>sp_status := SYSCALL_STOP\<rparr>)) T' = (None, q', U')"
        "resumed st q = resumed st q'" "sim C known (inside(sp_pid st := None)) U U'" by blast
    show ?thesis
      by (rule same_passI [of _ _ _ _ _ _ "resumed st q" U _ U' _ "inside(sp_pid st := None)"]) (use o True e k in \<open>simp_all add: occ_pass_def\<close>)
  next
    case False
    then have "inside (sp_pid st) = Some False" using e(1) by simp
    from leave_untraced [OF s i e(2) this, of root st] obtain q U
      where o: "loop_step C False root (Event (st\<lparr>sp_status := SYSCALL_STOP\<rparr>)) T = (None, q, U)"
        "resumed st q = resumed st None" "sim C known (inside(sp_pid st := None)) U T'" by blast
    show ?thesis
      by (rule same_passI [of _ _ _ _ _ _ "resumed st q" U _ T' _ "inside(sp_pid st := None)"]) (use o False e k in \<open>simp_all add: occ_pass_def\<close>)
  qed
qed

lemma other_same:
  assumes "sim C known inside T T'" and "granted (Event st)" "ends st \<or> \<not> syscall_stop st \<and> event_of st \<noteq> PTRACE_EVENT_SECCOMP"
  shows "same_pass C tr root known inside (Other st) T T'"
proof -
  from other_step [OF assms, of root tr] obtain rc q q' U U'
    where o: "loop_step C False root (Event st) T = (rc, q, U)" "loop_step C True root (Event st) T' = (rc, q', U')"
      "resumed st q = resumed st q'" "tr_ctx U = tr_ctx U'"
      "rc = None \<longrightarrow> sim C (if ends st then known - {sp_pid st} else insert (sp_pid st) known) (calls_after tr (Other st) inside) U U'"
    by blast
  show ?thesis unfolding same_pass_def
    by (intro exI [of _ rc] exI [of _ "resumed st q"] exI [of _ U] exI [of _ U']) (use o in \<open>auto simp: occ_pass_def known_after_def split: if_splits\<close>)
qed

lemma run_same:
  assumes nums: "\<forall>n i. c_nr C n = Some i \<longrightarrow> 0 \<le> i \<and> i < 2 ^ 31"
    and prog: "emuroot_seccomp_trace audit nnp ok (traced_syscalls (c_nr C) (c_lp64 C)) = (rc, Some prog)"
    and s: "sim C known inside T T'" and pr: "proper C (kernel_traces prog audit C) known inside xs"
  shows "occ_run C False (kernel_traces prog audit C) root inside xs T = occ_run C True (kernel_traces prog audit C) root inside xs T'"
  using s pr
proof (induction xs arbitrary: known inside T T')
  case Nil
  then show ?case by (simp add: sim_def)
next
  case (Cons x xs)
  let ?tr = "kernel_traces prog audit C"
  have pr: "proper C ?tr (known_after x known) (calls_after ?tr x inside) xs"
    using Cons.prems(2) by (simp add: known_after_def Let_def)
  have "same_pass C ?tr root known inside x T T'"
  proof (cases x)
    case (Other st)
    then show ?thesis using other_same [OF Cons.prems(1)] Cons.prems(2) by (simp add: Let_def)
  next
    case (Enter st)
    then show ?thesis using enter_same [OF nums prog Cons.prems(1)] Cons.prems(2) by (simp add: Let_def)
  next
    case (Leave st)
    then obtain b r where "inside (sp_pid st) = Some b" "sp_regs st = Some r" using Cons.prems(2) by (auto simp: Let_def)
    then show ?thesis unfolding Leave by (rule leave_same [OF Cons.prems(1)])
  qed
  then obtain rc g U U' where o: "occ_pass C False ?tr root inside x T = (rc, g, U)" "occ_pass C True ?tr root inside x T' = (rc, g, U')"
      "tr_ctx U = tr_ctx U'" "rc = None \<longrightarrow> sim C (known_after x known) (calls_after ?tr x inside) U U'"
    by (auto simp: same_pass_def)
  then show ?case using Cons.IH [OF _ pr, of U U'] by (cases rc) simp_all
qed

text \<open>C4: the seccomp fast path emulates exactly what full tracing does. Take a target whose syscall numbers are plain 32-bit
  numbers, the filter the tracer installs, and any sequence of events of any number of processes in any interleaving:
  calls entered and left (never \<^verbatim>\<open>execveat\<close>), signals, forks, exits. Traced at every call, or only at the stops
  the filter lets through, every process goes on after each event with the same registers, memory and signal, the loop
  ends with the same code, and the context (owners, bindings) ends the same: the calls the filter leaves out
  are exactly those no handler would have touched.\<close>

theorem fast_path_equivalent:
  assumes "\<forall>n i. c_nr C n = Some i \<longrightarrow> 0 \<le> i \<and> i < 2 ^ 31"
    and "emuroot_seccomp_trace audit nnp ok (traced_syscalls (c_nr C) (c_lp64 C)) = (rc, Some prog)"
    and "proper C (kernel_traces prog audit C) {root} Map.empty xs"
  shows "occ_run C True (kernel_traces prog audit C) root Map.empty xs (loop_start ctx root) =
    occ_run C False (kernel_traces prog audit C) root Map.empty xs (loop_start ctx root)"
  using run_same [OF assms(1,2) sim_start assms(3)] by simp

text \<open>Process 50 makes \<^verbatim>\<open>mkdir\<close>, which is traced, and \<^verbatim>\<open>getpid\<close>, which is not, and is killed.\<close>

definition demo_at :: "u64 \<Rightarrow> stop" where
  "demo_at n = \<lparr>sp_pid = 50, sp_status = 9, sp_regs = Some ((\<lambda>_. 0)(15 := n, 14 := 8192, 19 := 65536)), sp_msg = None,
     sp_mem = demo_mem, sp_host = demo_host\<rparr>"

lemma x86_numbers: "\<forall>n i. nr_x86_64 n = Some i \<longrightarrow> 0 \<le> i \<and> i < 2 ^ 31"
  by (auto simp: nr_x86_64_def split: if_splits)

theorem fast_path_equivalent_witness:
  "let prog = filter_prog 0xC000003E (traced_syscalls nr_x86_64 True); tr = kernel_traces prog 0xC000003E demo_cfg;
     xs = [Enter (demo_at 83), Leave (demo_at 83), Enter (demo_at 39), Leave (demo_at 39), Other (demo_at 39)]
   in occ_run demo_cfg True tr 50 Map.empty xs (loop_start zero_ctx 50) = occ_run demo_cfg False tr 50 Map.empty xs (loop_start zero_ctx 50)"
proof -
  let ?prog = "filter_prog 0xC000003E (traced_syscalls nr_x86_64 True)"
  let ?xs = "[Enter (demo_at 83), Leave (demo_at 83), Enter (demo_at 39), Leave (demo_at 39), Other (demo_at 39)]"
  have nr: "c_nr demo_cfg = nr_x86_64" "c_lp64 demo_cfg = True" by (simp_all add: demo_cfg_def)
  have "traced_syscalls nr_x86_64 True \<noteq> []" by code_simp
  then have p: "emuroot_seccomp_trace 0xC000003E True True (traced_syscalls (c_nr demo_cfg) (c_lp64 demo_cfg)) = (0, Some ?prog)"
    using traced_length [of nr_x86_64 True] by (simp add: emuroot_seccomp_trace_def MAX_FILTERED_def nr)
  have pl: "plain_number demo_cfg (demo_at 83)" "plain_number demo_cfg (demo_at 39)" "ends (demo_at 39)" by code_simp+
  have g: "h_calloc (sp_host (demo_at n)) = (\<lambda>n. True)" "sp_pid (demo_at n) = 50" "sp_regs (demo_at n) \<noteq> None" for n
    by (simp_all add: demo_at_def demo_host_def Let_def)
  have "proper demo_cfg (kernel_traces ?prog 0xC000003E demo_cfg) {50} Map.empty ?xs" using pl g by simp
  from fast_path_equivalent [OF x86_numbers [folded nr] p this] show ?thesis by (simp add: Let_def)
qed

subsection \<open>Numbers that are not plain\<close>

text \<open>C29: a number with other bits above its lowest 32 gets past both handlers. The handlers compare the whole register, the
  filter, like the kernel when it makes the call, only looks at its low half: for a register that is not
  a plain number nothing is rewritten or emulated, in either mode, while the filter decides as it does for the plain
  number, and a traced call stops to no effect.\<close>

theorem wide_number_untouched:
  assumes nums: "\<forall>n i. c_nr C n = Some i \<longrightarrow> 0 \<le> i \<and> i < 2 ^ 31"
    and wide: "sint (s_regs s (r_sysno (c_arch C))) < 0 \<or> 2 ^ 31 \<le> sint (s_regs s (r_sysno (c_arch C)))"
  shows "s_kregs (emuroot_on_entry C s) = s_kregs s \<and> s_mem (emuroot_on_entry C s) = s_mem s \<and> s_ctx (emuroot_on_entry C s) = s_ctx s \<and>
    emuroot_action_of (c_nr C) (c_lp64 C) (t_sysno (s_tr (emuroot_on_entry C s))) = None \<and>
    kernel_traces prog audit C (s_regs s) =
      kernel_traces prog audit C ((s_regs s)(r_sysno (c_arch C) := ucast (ucast (s_regs s (r_sysno (c_arch C))) :: u32)))"
proof -
  let ?n = "sint (s_regs s (r_sysno (c_arch C)))"
  have t: "?n \<notin> set (traced_syscalls (c_nr C) (c_lp64 C))" using traced_named nums wide by force
  have "\<not> is_sys C ''execveat'' ?n" using nums wide by (force simp: is_sys_def is_nr_def)
  then have "\<not> handled C ?n" using t by (simp add: handled_def)
  note e = unhandled_entry [OF this]
  have a: "emuroot_action_of (c_nr C) (c_lp64 C) ?n = None" using t action_traced by blast
  have "ucast (ucast x :: u64) = x" for x :: u32 by (rule bit_word_eqI) (simp add: bit_simps)
  then show ?thesis unfolding e by (simp add: entry_reset_def kernel_traces_def a)
qed

text \<open>\<^verbatim>\<open>mkdir\<close> with bit 32 set: the filter traces it as it traces number 83, but the register with the path
  stays as the guest set it.\<close>

definition demo_wide :: "u64 \<Rightarrow> sys" where
  "demo_wide n = demo_sys\<lparr>s_regs := (s_regs demo_sys)(15 := n), s_kregs := (s_kregs demo_sys)(15 := n)\<rparr>"

theorem wide_number_untouched_witness:
  "s_kregs (emuroot_on_entry demo_cfg (demo_wide 0x100000053)) = s_kregs (demo_wide 0x100000053) \<and>
   kernel_traces (filter_prog 0xC000003E (traced_syscalls nr_x86_64 True)) 0xC000003E demo_cfg (s_regs (demo_wide 0x100000053))"
proof -
  have w: "2 ^ 31 \<le> sint (s_regs (demo_wide 0x100000053) (r_sysno (c_arch demo_cfg)))" by code_simp
  have nr: "c_nr demo_cfg = nr_x86_64" by (simp add: demo_cfg_def)
  have k: "kernel_traces (filter_prog 0xC000003E (traced_syscalls nr_x86_64 True)) 0xC000003E demo_cfg (s_regs (demo_wide 0x100000053))" by code_simp
  show ?thesis using wide_number_untouched [OF x86_numbers [folded nr], of "demo_wide 0x100000053"] w k by blast
qed

end
