(* ===== verification/Spawn.thy ===== *)
theory Spawn
  imports Ptrace
begin

text \<open>
  \<^verbatim>\<open>spawn.c\<close>: the guest under a supervisor process. A process is its descriptors, its signals and its session;
  \<^verbatim>\<open>supervisor\<close> is the child's side of \<^verbatim>\<open>emuroot_spawn\<close> up to \<^verbatim>\<open>emuroot_run\<close> (the argument \<open>run\<close>), in the order
  of the code. What the operating system answers is the record \<open>spawn_host\<close>.
\<close>

subsection \<open>Processes and descriptors\<close>

datatype open_file = Host_file nat | Pipe_read nat | Pipe_write nat

text \<open>What each open descriptor refers to, and whether it is closed at an \<^verbatim>\<open>exec\<close>.\<close>

type_synonym fd_table = "int \<rightharpoonup> open_file \<times> bool"

datatype disposition = SIG_DFL | SIG_IGN | SIG_HANDLER

record process =
  p_fds :: fd_table
  p_blocked :: "int set"
  p_action :: "int \<Rightarrow> disposition"
  p_leader :: bool
  p_pdeathsig :: int

text \<open>\<^verbatim>\<open>dup2\<close> fails on a descriptor that is not open, or when the system cannot do it (\<open>ok\<close>); on itself it changes
  nothing, else the copy is not closed at an \<^verbatim>\<open>exec\<close>.\<close>

definition dup2 :: "(int \<Rightarrow> int \<Rightarrow> bool) \<Rightarrow> int \<Rightarrow> int \<Rightarrow> fd_table \<Rightarrow> fd_table option" where
  "dup2 ok old new t =
     (case t old of
        None \<Rightarrow> None
      | Some (f, _) \<Rightarrow> if \<not> ok old new then None else if old = new then Some t else Some (t(new \<mapsto> (f, False))))"

text \<open>\<open>sh_dir t\<close>: the numbers \<^verbatim>\<open>/proc/self/fd\<close> lists when \<open>t\<close> is open, 0 for an entry that is no number;
  \<open>sh_opendir t\<close>: the descriptor it is opened at.\<close>

record spawn_host =
  sh_dup :: "int \<Rightarrow> int \<Rightarrow> bool"
  sh_opendir :: "fd_table \<Rightarrow> int option"
  sh_dir :: "fd_table \<Rightarrow> int list"
  sh_open_max :: int

subsection \<open>Inherited descriptors\<close>

text \<open>One reading of the directory: the descriptors collected, and whether entries were left. \<open>n\<close> counts
  those collected so far; the entry that finds the array full is consumed.\<close>

fun collect :: "int \<Rightarrow> nat \<Rightarrow> int list \<Rightarrow> int list \<times> bool" where
  "collect self n [] = ([], False)"
| "collect self n (fd # es) =
     (if n \<ge> 1024 then ([], True)
      else if fd > 2 \<and> fd \<noteq> self then (case collect self (n + 1) es of (fds, again) \<Rightarrow> (fd # fds, again))
      else collect self n es)"

partial_function (option) close_loop :: "(fd_table \<Rightarrow> int list) \<Rightarrow> int \<Rightarrow> fd_table \<Rightarrow> fd_table option" where
  "close_loop dir self t =
     (case collect self 0 (dir t) of
        (fds, again) \<Rightarrow>
          (let t = t |` (- set fds)
           in if again then close_loop dir self t else Some t))"

definition close_inherited_fds :: "spawn_host \<Rightarrow> fd_table \<Rightarrow> fd_table option" where
  "close_inherited_fds H t =
     (case sh_opendir H t of
        Some self \<Rightarrow> map_option (\<lambda>t. t(self := None)) (close_loop (sh_dir H) self (t(self \<mapsto> (Host_file 0, True))))
      | None \<Rightarrow>
          let max = (if sh_open_max H < 0 \<or> sh_open_max H > 65536 then 65536 else sh_open_max H)
          in Some (t |` (- {3..<max})))"

subsection \<open>The supervisor\<close>

definition reset_signals :: "process \<Rightarrow> process" where
  "reset_signals p =
     fold (\<lambda>sig p. if sig \<noteq> SIGKILL \<and> sig \<noteq> SIGSTOP then p\<lparr>p_action := (p_action p)(sig := SIG_DFL)\<rparr> else p)
       [1..31] (p\<lparr>p_blocked := {}\<rparr>)"

record emuroot_spawn_opts_t =
  stdin_fd :: int
  stdout_fd :: int
  stderr_fd :: int
  die_with_parent :: bool

text \<open>A negative descriptor stands for: inherit.\<close>

definition become :: "spawn_host \<Rightarrow> int \<Rightarrow> int \<Rightarrow> process \<Rightarrow> process option" where
  "become H fd std p =
     (if fd \<ge> 0 then map_option (\<lambda>t. p\<lparr>p_fds := t\<rparr>) (dup2 (sh_dup H) fd std (p_fds p)) else Some p)"

text \<open>The exit code, and the process as \<^verbatim>\<open>emuroot_run\<close> finds it, if it gets that far.\<close>

definition supervisor :: "spawn_host \<Rightarrow> emuroot_spawn_opts_t option \<Rightarrow> (process \<Rightarrow> int) \<Rightarrow> process \<Rightarrow> (int \<times> process option) option" where
  "supervisor H opts run p =
     (let fd = (\<lambda>f. case opts of Some o' \<Rightarrow> f o' | None \<Rightarrow> - 1);
          die = (case opts of Some o' \<Rightarrow> die_with_parent o' | None \<Rightarrow> True);
          p = (if die then p\<lparr>p_pdeathsig := SIGKILL\<rparr> else p);
          p = reset_signals (p\<lparr>p_leader := True\<rparr>)
      in case become H (fd stdin_fd) 0 p of
           None \<Rightarrow> Some (127, None)
         | Some p \<Rightarrow> (case become H (fd stdout_fd) 1 p of
             None \<Rightarrow> Some (127, None)
           | Some p \<Rightarrow> (case become H (fd stderr_fd) 2 p of
               None \<Rightarrow> Some (127, None)
             | Some p \<Rightarrow>
                 map_option (\<lambda>t. let p = p\<lparr>p_fds := t\<rparr>; rc = run p in (if rc < 0 then 127 else rc mod 256, Some p))
                   (close_inherited_fds H (p_fds p)))))"

text \<open>\<^verbatim>\<open>emuroot_spawn\<close> goes on in the caller with a process number, or in the supervisor, which exits.
  \<open>forked\<close> is the answer of \<^verbatim>\<open>fork\<close>; an argument vector is the list of its strings, up to the NULL.\<close>

datatype spawned = In_caller int | In_supervisor "(int \<times> process option) option"

definition emuroot_spawn ::
  "spawn_host \<Rightarrow> (emuroot_ctx \<Rightarrow> string list \<Rightarrow> string list option \<Rightarrow> process \<Rightarrow> int) \<Rightarrow> emuroot_ctx option \<Rightarrow> string list option \<Rightarrow>
     string list option \<Rightarrow> emuroot_spawn_opts_t option \<Rightarrow> int \<Rightarrow> process \<Rightarrow> spawned" where
  "emuroot_spawn H run ctx argv envp opts forked p =
     (case (ctx, argv) of
        (Some c, Some (a # as)) \<Rightarrow>
          if forked \<noteq> 0 then In_caller forked else In_supervisor (supervisor H opts (run c (a # as) envp) p)
      | _ \<Rightarrow> In_caller (- 1))"

text \<open>\<^verbatim>\<open>waitpid\<close> fails with EINTR or another error, or gives the status.\<close>

datatype waited = Eintr | Werror | Wstatus u32

fun emuroot_wait :: "waited list \<Rightarrow> int option" where
  "emuroot_wait [] = None"
| "emuroot_wait (Eintr # ws) = emuroot_wait ws"
| "emuroot_wait (Werror # ws) = Some (- 1)"
| "emuroot_wait (Wstatus st # ws) =
     Some (if WIFEXITED st then WEXITSTATUS st else if WIFSIGNALED st then 128 + WTERMSIG st else - 1)"

definition SIGTERM :: int where "SIGTERM = 15"

definition emuroot_terminate :: "(int \<Rightarrow> int \<Rightarrow> int) \<Rightarrow> int \<Rightarrow> int" where
  "emuroot_terminate kill pid = kill pid SIGTERM"

subsection \<open>Closing ends\<close>

lemma collect_set: "set (fst (collect self n es)) \<subseteq> {fd \<in> set es. fd > 2 \<and> fd \<noteq> self}"
proof (induction self n es rule: collect.induct)
  case (2 self n fd es)
  then show ?case by (auto split: prod.splits)
qed simp

lemma collect_all: "\<not> snd (collect self n es) \<Longrightarrow> set (fst (collect self n es)) = {fd \<in> set es. fd > 2 \<and> fd \<noteq> self}"
proof (induction self n es rule: collect.induct)
  case (2 self n fd es)
  then show ?case by (auto split: prod.splits if_splits)
qed simp

lemma collect_some: "n < 1024 \<Longrightarrow> snd (collect self n es) \<Longrightarrow> fst (collect self n es) \<noteq> []"
proof (induction self n es rule: collect.induct)
  case (2 self n fd es)
  then show ?case by (auto split: prod.splits)
qed simp

text \<open>The directory lists the open descriptors above 2, in any order and with anything below.\<close>

definition lists_open :: "(fd_table \<Rightarrow> int list) \<Rightarrow> bool" where
  "lists_open dir \<longleftrightarrow> (\<forall>t. finite (dom t) \<longrightarrow> {fd \<in> set (dir t). fd > 2} = {fd \<in> dom t. fd > 2})"

lemma close_loop_returns:
  assumes dir: "lists_open dir" and fin: "finite (dom t)"
  shows "close_loop dir self t = Some (t |` {fd. fd \<le> 2 \<or> fd = self})"
  using fin
proof (induction t rule: measure_induct_rule [where f = "\<lambda>t. card (dom t)"])
  case (less t)
  obtain fds again where c: "collect self 0 (dir t) = (fds, again)" by fastforce
  have d: "{fd \<in> set (dir t). fd > 2 \<and> fd \<noteq> self} = {fd \<in> dom t. fd > 2 \<and> fd \<noteq> self}"
    using dir less.prems unfolding lists_open_def by blast
  have sub: "set fds \<subseteq> {fd \<in> dom t. fd > 2 \<and> fd \<noteq> self}" using collect_set [of self 0 "dir t"] d c by auto
  let ?t = "t |` (- set fds)"
  have l: "close_loop dir self t = (if again then close_loop dir self ?t else Some ?t)"
    by (subst close_loop.simps) (simp add: c Let_def)
  show ?case
  proof (cases again)
    case True
    then have "fds \<noteq> []" using collect_some [of 0 self "dir t"] c by simp
    then have "hd fds \<in> set fds" "hd fds \<in> dom t" using sub hd_in_set by blast+
    then have "dom ?t \<subset> dom t" by (auto simp: psubset_eq set_eq_iff)
    from psubset_card_mono [OF less.prems this] have "close_loop dir self ?t = Some (?t |` {fd. fd \<le> 2 \<or> fd = self})"
      using less.prems by (intro less.IH) (auto intro: finite_subset)
    moreover have "?t |` {fd. fd \<le> 2 \<or> fd = self} = t |` {fd. fd \<le> 2 \<or> fd = self}"
      using sub by (auto simp: restrict_map_def fun_eq_iff)
    ultimately show ?thesis using l True by simp
  next
    case False
    then have "set fds = {fd \<in> dom t. fd > 2 \<and> fd \<noteq> self}" using collect_all [of self 0 "dir t"] c d by simp
    then have "?t = t |` {fd. fd \<le> 2 \<or> fd = self}" by (fastforce simp: restrict_map_def fun_eq_iff)
    then show ?thesis using l False by simp
  qed
qed

text \<open>Nothing stands in the way of closing: the directory is opened at a free descriptor, or cannot be opened and
  all descriptors are below the limit.\<close>

definition closable :: "spawn_host \<Rightarrow> fd_table \<Rightarrow> bool" where
  "closable H t \<longleftrightarrow> finite (dom t) \<and> lists_open (sh_dir H) \<and>
     (case sh_opendir H t of
        Some self \<Rightarrow> self \<notin> dom t
      | None \<Rightarrow> \<forall>fd \<in> dom t. fd < (if sh_open_max H < 0 \<or> sh_open_max H > 65536 then 65536 else sh_open_max H))"

lemma close_inherited:
  assumes "closable H t" shows "close_inherited_fds H t = Some (t |` {..2})"
proof (cases "sh_opendir H t")
  case None
  let ?m = "if sh_open_max H < 0 \<or> sh_open_max H > 65536 then 65536 else sh_open_max H"
  have "\<forall>fd \<in> dom t. fd < ?m" using assms None by (simp add: closable_def)
  then have "t |` (- {3..<?m}) = t |` {..2}" by (fastforce simp: restrict_map_def fun_eq_iff)
  then show ?thesis unfolding close_inherited_fds_def None option.case Let_def by simp
next
  case (Some self)
  then have "t self = None" "finite (dom t)" "lists_open (sh_dir H)" using assms by (auto simp: closable_def)
  then have "close_inherited_fds H t = Some ((t(self \<mapsto> (Host_file 0, True)) |` {fd. fd \<le> 2 \<or> fd = self})(self := None))"
    by (simp add: close_inherited_fds_def Some close_loop_returns)
  also have "(t(self \<mapsto> (Host_file 0, True)) |` {fd. fd \<le> 2 \<or> fd = self})(self := None) = t |` {..2}"
    using \<open>t self = None\<close> by (auto simp: restrict_map_def fun_eq_iff)
  finally show ?thesis .
qed

text \<open>C35: the guest inherits only its standard descriptors. Whatever is open, however many there are and in whichever
  order the directory lists them, closing ends, and what is left open is exactly what was open among 0, 1 and 2;
  also when the directory cannot be opened and the descriptors are closed by counting.\<close>

theorem inherited_fds_closed:
  assumes "closable H t" shows "close_inherited_fds H t = Some (t |` {..2})"
  by (rule close_inherited [OF assms])

definition demo_spawn_host :: spawn_host where
  "demo_spawn_host = \<lparr>sh_dup = (\<lambda>_ _. True), sh_opendir = (\<lambda>_. None), sh_dir = (\<lambda>t. sorted_list_of_set (dom t)), sh_open_max = 1024\<rparr>"

definition demo_fds :: fd_table where
  "demo_fds = [0 \<mapsto> (Host_file 0, False), 1 \<mapsto> (Host_file 1, False), 2 \<mapsto> (Host_file 2, False), 7 \<mapsto> (Host_file 7, True), 9 \<mapsto> (Host_file 9, False)]"

lemma lists_open_demo: "lists_open (sh_dir demo_spawn_host)"
  by (simp add: lists_open_def demo_spawn_host_def)

lemma closable_demo: "closable (demo_spawn_host\<lparr>sh_opendir := (\<lambda>_. Some 5)\<rparr>) demo_fds"
  using lists_open_demo by (simp add: closable_def demo_fds_def demo_spawn_host_def)

theorem inherited_fds_closed_witness:
  "close_inherited_fds (demo_spawn_host\<lparr>sh_opendir := (\<lambda>_. Some 5)\<rparr>) demo_fds = Some (demo_fds |` {..2})"
  by (rule inherited_fds_closed [OF closable_demo])

subsection \<open>The supervisor's process\<close>

lemma reset_signals_fold:
  "fold (\<lambda>sig p. if sig \<noteq> SIGKILL \<and> sig \<noteq> SIGSTOP then p\<lparr>p_action := (p_action p)(sig := SIG_DFL)\<rparr> else p) xs p =
     p\<lparr>p_action := (\<lambda>sig. if sig \<in> set xs - {SIGKILL, SIGSTOP} then SIG_DFL else p_action p sig)\<rparr>"
  by (induction xs arbitrary: p) (auto simp: fun_eq_iff intro!: process.equality)

lemma reset_signals_eq:
  "reset_signals p = p\<lparr>p_blocked := {}, p_action := (\<lambda>sig. if sig \<in> {1..31} - {SIGKILL, SIGSTOP} then SIG_DFL else p_action p sig)\<rparr>"
  unfolding reset_signals_def reset_signals_fold by (simp cong: if_cong)

text \<open>The file the caller means for a standard descriptor, as the new process has it. \<open>plain_order\<close>: no
  descriptor is overwritten before it has been copied.\<close>

definition std_file :: "fd_table \<Rightarrow> int \<Rightarrow> int \<Rightarrow> (open_file \<times> bool) option" where
  "std_file t fd std = (if fd < 0 \<or> fd = std then t std else map_option (\<lambda>(f, _). (f, False)) (t fd))"

definition plain_order :: "fd_table \<Rightarrow> emuroot_spawn_opts_t \<Rightarrow> bool" where
  "plain_order t o' \<longleftrightarrow> (\<forall>fd \<in> {stdin_fd o', stdout_fd o', stderr_fd o'}. fd \<ge> 0 \<longrightarrow> fd \<in> dom t) \<and>
     stdout_fd o' \<noteq> 0 \<and> stderr_fd o' \<notin> {0, 1}"

text \<open>The process \<^verbatim>\<open>emuroot_run\<close> is called in.\<close>

definition guest_process :: "emuroot_spawn_opts_t \<Rightarrow> process \<Rightarrow> process" where
  "guest_process o' p =
     \<lparr>p_fds = (\<lambda>fd. if fd < 0 then p_fds p fd else if fd = 0 then std_file (p_fds p) (stdin_fd o') 0
        else if fd = 1 then std_file (p_fds p) (stdout_fd o') 1 else if fd = 2 then std_file (p_fds p) (stderr_fd o') 2 else None),
      p_blocked = {}, p_action = (\<lambda>sig. if sig \<in> {1..31} - {SIGKILL, SIGSTOP} then SIG_DFL else p_action p sig),
      p_leader = True, p_pdeathsig = (if die_with_parent o' then SIGKILL else p_pdeathsig p)\<rparr>"

lemma dup2_ok: "t old = Some (f, c) \<Longrightarrow> dup2 (\<lambda>_ _. True) old new t = Some (if old = new then t else t(new \<mapsto> (f, False)))"
  by (simp add: dup2_def)

lemma become_ok:
  assumes "sh_dup H = (\<lambda>_ _. True)" and "fd \<ge> 0 \<longrightarrow> fd \<in> dom (p_fds p)"
  shows "become H fd std p = Some (p\<lparr>p_fds := (p_fds p)(std := std_file (p_fds p) fd std)\<rparr>)"
proof -
  have "(p_fds p)(std := p_fds p std) = p_fds p" by simp
  then show ?thesis using assms by (auto simp: become_def std_file_def dup2_ok)
qed

lemma supervisor_runs:
  assumes dup: "sh_dup H = (\<lambda>_ _. True)" and close: "\<forall>t. dom t \<subseteq> dom (p_fds p) \<union> {0, 1, 2} \<longrightarrow> closable H t"
    and ord: "plain_order (p_fds p) o'"
  shows "supervisor H (Some o') run p =
    (let p' = guest_process o' p; rc = run p' in Some (if rc < 0 then 127 else rc mod 256, Some p'))"
proof -
  let ?t = "p_fds p" let ?a = "std_file ?t (stdin_fd o') 0" and ?b = "std_file ?t (stdout_fd o') 1" and ?c = "std_file ?t (stderr_fd o') 2"
  let ?p = "reset_signals ((if die_with_parent o' then p\<lparr>p_pdeathsig := SIGKILL\<rparr> else p)\<lparr>p_leader := True\<rparr>)"
  have t: "p_fds ?p = ?t" by (simp add: reset_signals_eq)
  have o1: "stdin_fd o' \<ge> 0 \<longrightarrow> stdin_fd o' \<in> dom ?t" "stdout_fd o' \<ge> 0 \<longrightarrow> stdout_fd o' \<in> dom (?t(0 := ?a))"
    "stderr_fd o' \<ge> 0 \<longrightarrow> stderr_fd o' \<in> dom (?t(0 := ?a, 1 := ?b))"
    using ord by (auto simp: plain_order_def)
  have s: "std_file (?t(0 := ?a)) (stdout_fd o') 1 = ?b" "std_file (?t(0 := ?a, 1 := ?b)) (stderr_fd o') 2 = ?c"
    using ord by (auto simp: plain_order_def std_file_def)
  let ?u = "?t(0 := ?a, 1 := ?b, 2 := ?c)"
  have "closable H ?u" by (rule close [rule_format]) (auto split: if_splits)
  from close_inherited [OF this] have cl: "close_inherited_fds H ?u = Some (?u |` {..2})" .
  have r: "?u |` {..2} = p_fds (guest_process o' p)"
    by (auto simp: restrict_map_def guest_process_def fun_eq_iff)
  have "?p\<lparr>p_fds := p_fds (guest_process o' p)\<rparr> = guest_process o' p"
    by (cases p) (simp add: reset_signals_eq guest_process_def cong: if_cong)
  then have q: "?p\<lparr>p_fds := ?u |` {..2}\<rparr> = guest_process o' p" unfolding r .
  have d: "become H (stdin_fd o') 0 ?p = Some (?p\<lparr>p_fds := ?t(0 := ?a)\<rparr>)"
    "become H (stdout_fd o') 1 (?p\<lparr>p_fds := ?t(0 := ?a)\<rparr>) = Some (?p\<lparr>p_fds := ?t(0 := ?a, 1 := ?b)\<rparr>)"
    "become H (stderr_fd o') 2 (?p\<lparr>p_fds := ?t(0 := ?a, 1 := ?b)\<rparr>) = Some (?p\<lparr>p_fds := ?u\<rparr>)"
    using o1 s by (simp_all add: become_ok [OF dup] t del: One_nat_def)
  show ?thesis unfolding supervisor_def option.case Let_def d using cl q by simp
qed

subsection \<open>The guest's status\<close>

text \<open>The status word of a process that called \<^verbatim>\<open>_exit\<close>.\<close>

definition exited :: "int \<Rightarrow> u32" where
  "exited code = push_bit 8 (word_of_int (code mod 256))"

text \<open>The codes a process's status gives.\<close>

lemma sint_and_small:
  fixes w :: u32
  assumes "uint w < 2 ^ 31" shows "0 \<le> sint w" "sint w = uint w"
proof -
  have "sint w = signed_take_bit 31 (uint w)" by (simp add: sint_uint)
  also have "\<dots> = uint w" using assms by (intro signed_take_bit_int_eq_self) (auto intro: order.trans [of _ 0])
  finally show "sint w = uint w" .
  then show "0 \<le> sint w" by simp
qed

lemma uint_and_le: "uint ((w :: u32) AND m) \<le> uint m"
  by (simp add: word_le_def [symmetric] word_and_le1)

lemma status_ranges: "0 \<le> WEXITSTATUS st \<and> WEXITSTATUS st < 256" "0 \<le> WTERMSIG st \<and> WTERMSIG st < 128"
proof -
  have d: "drop_bit 8 (st AND 0xff00) = drop_bit 8 st AND 0xff"
    by (rule bit_eqI) (auto simp: bit_simps)
  have "uint (drop_bit 8 (st AND 0xff00)) \<le> 255" unfolding d using uint_and_le [of "drop_bit 8 st" 255] by simp
  then show "0 \<le> WEXITSTATUS st \<and> WEXITSTATUS st < 256"
    unfolding WEXITSTATUS_def using sint_and_small [of "drop_bit 8 (st AND 0xff00)"] by simp
  have "uint (st AND 0x7f) \<le> 127" using uint_and_le [of st 127] by simp
  then show "0 \<le> WTERMSIG st \<and> WTERMSIG st < 128"
    unfolding WTERMSIG_def using sint_and_small [of "st AND 0x7f"] by simp
qed

lemma exited_status:
  assumes "0 \<le> c" "c < 256"
  shows "WIFEXITED (exited c)" "WEXITSTATUS (exited c) = c"
proof -
  have e: "exited c = push_bit 8 (word_of_int c)" using assms by (simp add: exited_def)
  have "push_bit 8 (word_of_int c :: u32) AND mask 7 = 0"
    by (simp only: take_bit_eq_mask [symmetric] take_bit_push_bit) simp
  moreover have "mask 7 = (0x7f :: u32)" by (simp add: mask_eq_exp_minus_1)
  ultimately show "WIFEXITED (exited c)" by (simp add: WIFEXITED_def e)
  have u: "uint (word_of_int c :: u32) = c" using assms by (simp add: uint_word_of_int)
  let ?x = "word_of_int c :: u32"
  have m: "(0xff00 :: u32) = push_bit 8 (mask 8)" by (simp add: mask_eq_exp_minus_1 push_bit_eq_mult)
  have "push_bit 8 ?x AND 0xff00 = push_bit 8 (take_bit 8 ?x)" unfolding m push_bit_and [symmetric] take_bit_eq_mask ..
  moreover have "take_bit 8 ?x = ?x" "take_bit 24 ?x = ?x" using assms
    by (simp_all add: word_uint_eq_iff unsigned_take_bit_eq uint_word_of_int take_bit_int_eq_self)
  moreover have "drop_bit 8 (push_bit 8 y) = take_bit 24 y" for y :: u32
    by (rule bit_eqI) (auto simp: bit_simps)
  ultimately have "drop_bit 8 (push_bit 8 ?x AND 0xff00) = ?x" by simp
  then show "WEXITSTATUS (exited c) = c" unfolding WEXITSTATUS_def e
    using sint_and_small(2) [of "word_of_int c :: u32"] u assms by simp
qed


lemma emuroot_wait_interrupted: "emuroot_wait (replicate k Eintr @ ws) = emuroot_wait ws"
  by (induction k) simp_all

lemma supervisor_code:
  assumes "supervisor H opts run p = Some (code, Some p')" and "0 \<le> run p'" "run p' < 256"
  shows "code = run p'"
  using assms by (auto simp: supervisor_def Let_def split: option.splits)

text \<open>The caller of a supervisor learns the guest's own status. When the supervisor gets to \<^verbatim>\<open>emuroot_run\<close> and the
  guest's first process ends, or the tracer is told to stop by a signal (as \<^verbatim>\<open>emuroot_terminate\<close> does), the code the
  run returns goes through the supervisor's exit and the caller's wait, interrupted any number of times, unchanged:
  the exit status, or 128 plus the signal.\<close>

theorem guest_status_reaches_caller:
  assumes "ends_loop root w" and "w \<noteq> Wait_failed" and "case w of Stop_signal n \<Rightarrow> 0 < n \<and> n < 128 | _ \<Rightarrow> True"
    and "supervisor H opts run p = Some (code, Some p')" and "run p' = exit_code w"
  shows "emuroot_wait (replicate k Eintr @ [Wstatus (exited code)]) = Some (exit_code w)"
proof -
  have r: "0 \<le> exit_code w" "exit_code w < 256"
    using assms(1-3) status_ranges by (cases w; simp add: add.commute)+
  then have "code = exit_code w" using supervisor_code [OF assms(4)] assms(5) by simp
  then show ?thesis using exited_status [OF r] by (simp add: emuroot_wait_interrupted)
qed

text \<open>C34: the supervisor runs the guest in a process of its own making. In the child, when the descriptors can be copied
  and closed and none is overwritten before it is copied, \<^verbatim>\<open>emuroot_run\<close> is called with the caller's files as 0, 1
  and 2 and nothing else open above, no signal blocked, every signal at its default, in its own session, to die with
  its parent when asked to; its code is the process's exit code, 127 for a failure.\<close>

theorem supervisor_process:
  assumes "sh_dup H = (\<lambda>_ _. True)" and "\<forall>t. dom t \<subseteq> dom (p_fds p) \<union> {0, 1, 2} \<longrightarrow> closable H t" and "plain_order (p_fds p) o'"
  shows "emuroot_spawn H run (Some c) (Some (a # as)) envp (Some o') 0 p =
    In_supervisor (let p' = guest_process o' p; rc = run c (a # as) envp p' in Some (if rc < 0 then 127 else rc mod 256, Some p'))"
  unfolding emuroot_spawn_def by (simp add: supervisor_runs [OF assms] Let_def)

text \<open>A descriptor can be overwritten before it is copied. A caller that exchanges its standard input and output,
  giving 1 as the new 0 and 0 as the new 1, gets its old output as both: 0 is replaced before it is copied to 1.\<close>

theorem exchanged_stdio_overwritten:
  assumes "sh_dup H = (\<lambda>_ _. True)" and "\<forall>t. dom t \<subseteq> dom (p_fds p) \<union> {0, 1, 2} \<longrightarrow> closable H t"
    and "p_fds p 0 = Some (f0, c0)" "p_fds p 1 = Some (f1, c1)" and "stdin_fd o' = 1" "stdout_fd o' = 0" "stderr_fd o' = - 1"
  shows "\<exists>p'. supervisor H (Some o') run p = Some (if run p' < 0 then 127 else run p' mod 256, Some p') \<and>
    p_fds p' 0 = Some (f1, False) \<and> p_fds p' 1 = Some (f1, False)"
proof -
  let ?p = "reset_signals ((if die_with_parent o' then p\<lparr>p_pdeathsig := SIGKILL\<rparr> else p)\<lparr>p_leader := True\<rparr>)"
  let ?u = "(p_fds p)(0 \<mapsto> (f1, False), 1 \<mapsto> (f1, False))"
  have t: "p_fds ?p = p_fds p" by (simp add: reset_signals_eq)
  have d: "become H 1 0 ?p = Some (?p\<lparr>p_fds := (p_fds p)(0 \<mapsto> (f1, False))\<rparr>)"
    "become H 0 1 (?p\<lparr>p_fds := (p_fds p)(0 \<mapsto> (f1, False))\<rparr>) = Some (?p\<lparr>p_fds := ?u\<rparr>)"
    "become H (- 1) 2 (?p\<lparr>p_fds := ?u\<rparr>) = Some (?p\<lparr>p_fds := ?u\<rparr>)"
    using assms(3,4) by (simp_all add: become_def dup2_def assms(1) t)
  have "closable H ?u" by (rule assms(2) [rule_format]) (auto split: if_splits)
  note cl = close_inherited [OF this]
  let ?q = "?p\<lparr>p_fds := ?u |` {..2}\<rparr>"
  have "supervisor H (Some o') run p = Some (if run ?q < 0 then 127 else run ?q mod 256, Some ?q)"
    unfolding supervisor_def option.case assms(5-7) Let_def d using cl by simp
  then show ?thesis by (intro exI [of _ ?q]) simp
qed

subsection \<open>Witnesses\<close>

definition demo_process :: process where
  "demo_process = \<lparr>p_fds = demo_fds, p_blocked = {2}, p_action = (\<lambda>_. SIG_IGN), p_leader = False, p_pdeathsig = 0\<rparr>"

definition demo_opts :: "int \<Rightarrow> int \<Rightarrow> int \<Rightarrow> emuroot_spawn_opts_t" where
  "demo_opts i ou er = \<lparr>stdin_fd = i, stdout_fd = ou, stderr_fd = er, die_with_parent = True\<rparr>"

lemma demo_closable:
  "sh_dup demo_spawn_host = (\<lambda>_ _. True)"
  "\<forall>t. dom t \<subseteq> dom (p_fds demo_process) \<union> {0, 1, 2} \<longrightarrow> closable demo_spawn_host t"
proof -
  have "dom (p_fds demo_process) \<union> {0, 1, 2} = {0, 1, 2, 7, 9}" by (auto simp: demo_process_def demo_fds_def)
  then show "\<forall>t. dom t \<subseteq> dom (p_fds demo_process) \<union> {0, 1, 2} \<longrightarrow> closable demo_spawn_host t"
    using lists_open_demo by (auto simp: closable_def demo_spawn_host_def intro: finite_subset)
qed (simp add: demo_spawn_host_def)

theorem supervisor_process_witness:
  "\<exists>p'. emuroot_spawn demo_spawn_host (\<lambda>_ _ _ _. 300) (Some zero_ctx) (Some [''sh'']) None (Some (demo_opts 7 (- 1) 9)) 0 demo_process =
      In_supervisor (Some (44, Some p')) \<and>
    p_fds p' 0 = Some (Host_file 7, False) \<and> p_fds p' 1 = Some (Host_file 1, False) \<and> p_fds p' 2 = Some (Host_file 9, False) \<and> p_fds p' 7 = None"
proof -
  have "plain_order (p_fds demo_process) (demo_opts 7 (- 1) 9)"
    by (simp add: plain_order_def demo_process_def demo_fds_def demo_opts_def)
  from supervisor_process [OF demo_closable this, of "\<lambda>_ _ _ _. 300" zero_ctx "''sh''" "[]" None] show ?thesis
    by (simp add: guest_process_def std_file_def demo_process_def demo_fds_def demo_opts_def)
qed

theorem exchanged_stdio_overwritten_witness:
  "\<exists>p'. supervisor demo_spawn_host (Some (demo_opts 1 0 (- 1))) (\<lambda>_. 0) demo_process = Some (0, Some p') \<and>
    p_fds p' 0 = Some (Host_file 1, False) \<and> p_fds p' 1 = Some (Host_file 1, False)"
  using exchanged_stdio_overwritten [OF demo_closable, of "Host_file 0" False "Host_file 1" False "demo_opts 1 0 (- 1)" "\<lambda>_. 0"]
  by (simp add: demo_process_def demo_fds_def demo_opts_def)

theorem guest_status_reaches_caller_witness:
  "\<exists>p'. supervisor demo_spawn_host (Some (demo_opts 7 (- 1) 9)) (\<lambda>_. 7) demo_process = Some (7, Some p') \<and>
    emuroot_wait (replicate 2 Eintr @ [Wstatus (exited 7)]) = Some 7"
proof -
  have e: "exit_code (Event (demo_status 0x700)) = 7" "ends_loop 50 (Event (demo_status 0x700))" by code_simp+
  have "plain_order (p_fds demo_process) (demo_opts 7 (- 1) 9)"
    by (simp add: plain_order_def demo_process_def demo_fds_def demo_opts_def)
  from supervisor_runs [OF demo_closable this, of "\<lambda>_. 7"]
  have s: "supervisor demo_spawn_host (Some (demo_opts 7 (- 1) 9)) (\<lambda>_. 7) demo_process =
      Some (7, Some (guest_process (demo_opts 7 (- 1) 9) demo_process))" by simp
  then show ?thesis using guest_status_reaches_caller [OF e(2) _ _ s, of 2] e(1) by simp
qed

end
