(* ===== verification/Probe.thy ===== *)
theory Probe
  imports Spawn Seccomp
begin

text \<open>
  \<^verbatim>\<open>probe.c\<close>: what this kernel lets the engine do. Two children are made: one is traced and tried on, one installs a
  filter. What the kernel answers is the record \<open>probe_env\<close>; guest memory is reached through the same primitives
  (\<open>kmem\<close>) as in \<open>Guest\<close>. The verdict is then related to what the engine of \<open>Ptrace\<close> and \<open>Guest\<close> does on the
  same answers.
\<close>

subsection \<open>The report\<close>

definition row :: "string \<Rightarrow> bool \<Rightarrow> string \<Rightarrow> string" where
  "row name ok note =
     ''  '' @ name @ replicate (28 - length name) (CHR '' '') @ '' '' @ (if ok then ''yes'' else ''no '') @
     (if note \<noteq> [] then ''  - '' else []) @ note @ [char_of (10 :: nat)]"

text \<open>What was found to work.\<close>

record findings =
  f_traced :: bool
  f_follow :: bool
  f_regset :: bool
  f_getregs :: bool
  f_vm :: bool
  f_procmem :: bool
  f_peek :: bool
  f_exitkill :: bool
  f_seccomp :: bool
  f_supported :: bool

definition report_rows :: "findings \<Rightarrow> string list" where
  "report_rows f =
     [row ''trace a child (ptrace)'' (f_traced f) (if f_traced f then [] else ''full emulation unavailable; env-only fallback is used''),
      row ''follow fork/clone'' (f_follow f) [],
      row ''registers: GETREGSET'' (f_regset f)
        (if f_regset f then [] else if f_getregs f then ''older kernel; PTRACE_GETREGS is used'' else []),
      row ''registers: GETREGS'' (f_getregs f) [],
      row ''guest memory: process_vm'' (f_vm f) (if f_vm f then [] else ''denied here; the next method is used''),
      row ''guest memory: /proc/PID/mem'' (f_procmem f) [],
      row ''guest memory: PEEK/POKE'' (f_peek f) ''always allowed for a tracer'',
      row ''kill guests if we die'' (f_exitkill f) (if f_exitkill f then [] else ''kernel before 3.8; emuroot does it itself''),
      row ''seccomp fast path'' (f_seccomp f \<and> f_supported f)
        (if f_seccomp f then if f_supported f then [] else ''kernel before 4.8; every syscall is traced''
         else ''not permitted here; every syscall is traced'')]"

definition usable :: "findings \<Rightarrow> bool" where
  "usable f \<longleftrightarrow> f_traced f \<and> f_follow f \<and> (f_regset f \<or> f_getregs f) \<and> (f_vm f \<or> f_procmem f \<or> f_peek f)"

definition report :: "string \<Rightarrow> string \<Rightarrow> findings \<Rightarrow> string" where
  "report arch_name release f =
     ''emuroot 0.1.0 on '' @ arch_name @ '', Linux '' @ release @ [char_of (10 :: nat)] @ concat (report_rows f) @
     ''=> '' @ (if usable f then ''full emulation available'' else ''degraded: env-only fallback'') @ [char_of (10 :: nat)]"

subsection \<open>The children\<close>

text \<open>A child of the probe: it has a stop to report, has reported it, has ended with a status, or is gone.\<close>

datatype child = Stop_pending | Stop_reported | Zombie u32 | Reaped

definition SIGSTOP_status :: u32 where "SIGSTOP_status = 0x137F"

text \<open>\<^verbatim>\<open>waitpid\<close>: \<open>None\<close> if it blocks for ever; else the status, if it gives one. \<open>intr\<close> is whether a signal
  interrupts it.\<close>

definition wait_child :: "bool \<Rightarrow> child \<Rightarrow> (u32 option \<times> child) option" where
  "wait_child intr c =
     (if intr then Some (None, c)
      else (case c of
        Stop_pending \<Rightarrow> Some (Some SIGSTOP_status, Stop_reported)
      | Stop_reported \<Rightarrow> None
      | Zombie st \<Rightarrow> Some (Some st, Reaped)
      | Reaped \<Rightarrow> Some (None, Reaped)))"

fun kill_child :: "child \<Rightarrow> child" where
  "kill_child Stop_pending = Zombie 9"
| "kill_child Stop_reported = Zombie 9"
| "kill_child c = c"

text \<open>The answers: \<open>pe_fork\<close> and \<open>pe_fork2\<close> are the two \<^verbatim>\<open>fork\<close>s (negative: failed), \<open>pe_intr n\<close> whether the
  \<open>n\<close>-th wait is interrupted, \<open>pe_value\<close> the address of \<^verbatim>\<open>probe_value\<close>, \<open>pe_version\<close> the parsed release.\<close>

record probe_env =
  pe_arch :: string
  pe_release :: string
  pe_version :: "(int \<times> int) option"
  pe_fork :: int
  pe_traceme :: bool
  pe_intr :: "nat \<Rightarrow> bool"
  pe_regset :: bool
  pe_getregs :: bool
  pe_kmem :: kmem
  pe_mem :: mem
  pe_value :: u64
  pe_setopt :: "u64 \<Rightarrow> bool"
  pe_fork2 :: int
  pe_no_new_privs :: bool
  pe_install :: bool

text \<open>\<^verbatim>\<open>long probe_value = 0x5a5a1234\<close>, as it lies in memory.\<close>

definition probe_bytes :: "u8 list" where
  "probe_bytes = [0x34, 0x12, 0x5a, 0x5a, 0, 0, 0, 0]"

definition traced_child :: "probe_env \<Rightarrow> child" where
  "traced_child E = (if pe_traceme E then Stop_pending else Zombie (exited 1))"

definition filtered_child :: "probe_env \<Rightarrow> child" where
  "filtered_child E = Zombie (exited (if emuroot_seccomp_installable (pe_no_new_privs E) (pe_install E) then 0 else 1))"

definition no_findings :: findings where
  "no_findings = \<lparr>f_traced = False, f_follow = False, f_regset = False, f_getregs = False, f_vm = False, f_procmem = False,
     f_peek = False, f_exitkill = False, f_seccomp = False, f_supported = False\<rparr>"

text \<open>What is tried on the stopped child.\<close>

definition try_child :: "probe_env \<Rightarrow> findings" where
  "try_child E =
     (let m = pe_mem E; a = pe_value E; base = 1 OR 2 OR 4 OR 8
      in no_findings\<lparr>f_traced := True, f_regset := pe_regset E, f_getregs := pe_getregs E,
           f_vm := (vm_read (pe_kmem E) m a 8 = Inr probe_bytes),
           f_procmem := (pm_read (pe_kmem E) m a 8 = Inr probe_bytes),
           f_peek := (peek (pe_kmem E) m a = Inr probe_bytes),
           f_follow := pe_setopt E base, f_exitkill := pe_setopt E (base OR EXITKILL)\<rparr>)"

definition probe_traced :: "probe_env \<Rightarrow> (findings \<times> child) option" where
  "probe_traced E =
     (if pe_fork E \<le> 0 then Some (no_findings, Reaped)
      else (case wait_child (pe_intr E 0) (traced_child E) of
        None \<Rightarrow> None
      | Some (st, c) \<Rightarrow>
          let stopped = (case st of Some st \<Rightarrow> WIFSTOPPED st | None \<Rightarrow> False)
          in map_option (\<lambda>(_, c). (if stopped then try_child E else no_findings, c))
               (wait_child (pe_intr E 1) (if stopped then kill_child c else c))))"

definition probe_filtered :: "probe_env \<Rightarrow> (bool \<times> child) option" where
  "probe_filtered E =
     (if pe_fork2 E \<le> 0 then Some (False, Reaped)
      else map_option (\<lambda>(st, c). (case st of Some st \<Rightarrow> WIFEXITED st \<and> WEXITSTATUS st = 0 | None \<Rightarrow> False, c))
             (wait_child (pe_intr E 2) (filtered_child E)))"

definition probe_kernel :: "probe_env \<Rightarrow> (findings \<times> child list) option" where
  "probe_kernel E =
     (case probe_traced E of
        None \<Rightarrow> None
      | Some (f, c) \<Rightarrow>
          map_option (\<lambda>(s, c2). (f\<lparr>f_seccomp := s, f_supported := emuroot_seccomp_supported (pe_version E)\<rparr>, [c, c2]))
            (probe_filtered E))"

text \<open>The text, the result, and what becomes of the children.\<close>

definition emuroot_diagnose :: "probe_env \<Rightarrow> nat \<Rightarrow> (string \<times> int \<times> child list) option" where
  "emuroot_diagnose E len =
     map_option (\<lambda>(f, cs). (snprintf len (snprintf 2048 (report (pe_arch E) (pe_release E) f)), if usable f then 0 else 1, cs))
       (probe_kernel E)"

text \<open>The version, and the report of a build without the engine.\<close>

definition emuroot_version_string :: "nat \<Rightarrow> string" where
  "emuroot_version_string len = snprintf len ''emuroot 0.1.0''"

definition diagnose_no_ptrace :: "nat \<Rightarrow> string \<times> int" where
  "diagnose_no_ptrace len =
     (snprintf len (''emuroot built without the ptrace engine (non-Linux): env-only mode'' @ [char_of (10 :: nat)]), 1)"

text \<open>The report fits its buffer.\<close>

lemma row_length: "length name \<le> 28 \<Longrightarrow> length note \<le> 60 \<Longrightarrow> length (row name ok note) \<le> 99"
  by (simp add: row_def)

lemma report_fits:
  assumes "length release \<le> 64" and "length arch_name \<le> 20"
  shows "length (report arch_name release f) < 2048"
proof -
  have "list_all (\<lambda>r. length r \<le> 99) (report_rows f)"
    unfolding report_rows_def list.pred_inject by (intro conjI TrueI row_length) simp_all
  moreover have "length (concat rs) \<le> 99 * length rs" if "list_all (\<lambda>r. length r \<le> 99) rs" for rs :: "string list"
    using that by (induction rs) auto
  moreover have "length (report_rows f) = 9" by (simp add: report_rows_def)
  ultimately have "length (concat (report_rows f)) \<le> 891" by fastforce
  then show ?thesis using assms by (simp add: report_def)
qed

subsection \<open>The probe ends\<close>

lemma SIGSTOP_stops: "WIFSTOPPED SIGSTOP_status" "\<not> WIFSTOPPED (exited 1)"
  by code_simp+

lemma probe_traced_ends:
  "\<exists>f c. probe_traced E = Some (f, c) \<and> (\<not> pe_intr E 0 \<and> \<not> pe_intr E 1 \<longrightarrow> c = Reaped) \<and>
     f = (if pe_fork E > 0 \<and> pe_traceme E \<and> \<not> pe_intr E 0 then try_child E else no_findings) \<and>
     (pe_fork E > 0 \<and> pe_traceme E \<and> pe_intr E 0 \<longrightarrow> c \<in> {Stop_pending, Stop_reported})"
  using SIGSTOP_stops by (auto simp: probe_traced_def traced_child_def wait_child_def Let_def)

lemma probe_filtered_ends:
  "\<exists>b c. probe_filtered E = Some (b, c) \<and> (\<not> pe_intr E 2 \<longrightarrow> c = Reaped) \<and>
     b = (pe_fork2 E > 0 \<and> \<not> pe_intr E 2 \<and> pe_no_new_privs E \<and> pe_install E)"
  using exited_status [of 0] exited_status [of 1]
  by (auto simp: probe_filtered_def filtered_child_def wait_child_def emuroot_seccomp_installable_def)

lemma probe_kernel_ends:
  "\<exists>c c2. probe_kernel E = Some
     ((if pe_fork E > 0 \<and> pe_traceme E \<and> \<not> pe_intr E 0 then try_child E else no_findings)
        \<lparr>f_seccomp := pe_fork2 E > 0 \<and> \<not> pe_intr E 2 \<and> pe_no_new_privs E \<and> pe_install E,
          f_supported := emuroot_seccomp_supported (pe_version E)\<rparr>, [c, c2]) \<and>
     (\<not> pe_intr E 0 \<and> \<not> pe_intr E 1 \<longrightarrow> c = Reaped) \<and> (\<not> pe_intr E 2 \<longrightarrow> c2 = Reaped) \<and>
     (pe_fork E > 0 \<and> pe_traceme E \<and> pe_intr E 0 \<longrightarrow> c \<in> {Stop_pending, Stop_reported})"
proof -
  obtain f c where a: "probe_traced E = Some (f, c)" "\<not> pe_intr E 0 \<and> \<not> pe_intr E 1 \<longrightarrow> c = Reaped"
    "f = (if pe_fork E > 0 \<and> pe_traceme E \<and> \<not> pe_intr E 0 then try_child E else no_findings)"
    "pe_fork E > 0 \<and> pe_traceme E \<and> pe_intr E 0 \<longrightarrow> c \<in> {Stop_pending, Stop_reported}"
    using probe_traced_ends by blast
  obtain b c2 where b: "probe_filtered E = Some (b, c2)" "\<not> pe_intr E 2 \<longrightarrow> c2 = Reaped"
    "b = (pe_fork2 E > 0 \<and> \<not> pe_intr E 2 \<and> pe_no_new_privs E \<and> pe_install E)"
    using probe_filtered_ends by blast
  have "probe_kernel E = Some (f\<lparr>f_seccomp := b, f_supported := emuroot_seccomp_supported (pe_version E)\<rparr>, [c, c2])"
    by (simp add: probe_kernel_def a(1) b(1))
  then show ?thesis using a(2,4) b(2) unfolding a(3) b(3) by blast
qed

text \<open>C36: the diagnosis always answers and leaves no child behind. Whatever the kernel answers, no wait blocks for
  ever; when none is interrupted by a signal both children have ended and been waited for, and the result says that
  emulation is available exactly when a child can be traced and followed, and its registers and memory can be
  reached in some way. When the first wait is interrupted, though, the traced child is left behind, stopped and
  never killed, and the result says that nothing works.\<close>

theorem diagnosis_answers:
  "\<exists>text rc c c2. emuroot_diagnose E len = Some (text, rc, [c, c2]) \<and>
     (\<not> pe_intr E 0 \<and> \<not> pe_intr E 1 \<and> \<not> pe_intr E 2 \<longrightarrow> c = Reaped \<and> c2 = Reaped \<and>
        rc = (if pe_fork E > 0 \<and> pe_traceme E \<and> usable (try_child E) then 0 else 1)) \<and>
     (pe_fork E > 0 \<and> pe_traceme E \<and> pe_intr E 0 \<longrightarrow> c \<in> {Stop_pending, Stop_reported} \<and> rc = 1)"
proof -
  let ?f = "if pe_fork E > 0 \<and> pe_traceme E \<and> \<not> pe_intr E 0 then try_child E else no_findings"
  obtain c c2 s v where p: "probe_kernel E = Some (?f\<lparr>f_seccomp := s, f_supported := v\<rparr>, [c, c2])"
    "\<not> pe_intr E 0 \<and> \<not> pe_intr E 1 \<longrightarrow> c = Reaped" "\<not> pe_intr E 2 \<longrightarrow> c2 = Reaped"
    "pe_fork E > 0 \<and> pe_traceme E \<and> pe_intr E 0 \<longrightarrow> c \<in> {Stop_pending, Stop_reported}"
    using probe_kernel_ends by metis
  have u: "usable (f\<lparr>f_seccomp := s, f_supported := v\<rparr>) = usable f" "\<not> usable no_findings" for f
    by (simp_all add: usable_def no_findings_def)
  have "emuroot_diagnose E len = Some (snprintf len (snprintf 2048 (report (pe_arch E) (pe_release E) (?f\<lparr>f_seccomp := s, f_supported := v\<rparr>))),
      if usable ?f then 0 else 1, [c, c2])"
    by (simp only: emuroot_diagnose_def p(1) option.map prod.case u)
  then show ?thesis using p(2-4) u(2) by auto
qed

subsection \<open>The diagnosis and the engine\<close>

lemma event_loop_code:
  assumes "event_loop C sm root ws T = Some (rc, T')" and "\<forall>n. Stop_signal n \<in> set ws \<longrightarrow> 0 < n"
  shows "rc \<ge> 0 \<or> rc = EMUROOT_ERR_SYSTEM"
  using assms
proof (induction ws arbitrary: T)
  case (Cons w ws)
  obtain x r T1 where s: "loop_step C sm root w T = (x, r, T1)" using prod_cases3 by blast
  show ?case
  proof (cases x)
    case None
    then show ?thesis using Cons s by auto
  next
    case (Some rc')
    then have rc: "rc' = rc" using Cons.prems(1) s by simp
    from s [unfolded Some rc] Cons.prems(2) status_ranges show ?thesis
      by (cases w) (auto simp: loop_step_def Let_def add_nonneg_nonneg split: option.splits prod.splits if_splits)
  qed
qed simp

text \<open>A start of the engine on the kernel that was probed.\<close>

definition same_kernel :: "probe_env \<Rightarrow> u32 \<Rightarrow> boot \<Rightarrow> bool" where
  "same_kernel E audit bt \<longleftrightarrow> bt_pipe bt \<and> bt_fork bt \<noteq> None \<and> bt_setopt bt = pe_setopt E \<and> bt_traceme bt = pe_traceme E \<and>
     bt_supported bt = emuroot_seccomp_supported (pe_version E) \<and>
     bt_filter bt = (\<lambda>nrs. fst (emuroot_seccomp_trace audit (pe_no_new_privs E) (pe_install E) nrs) = 0)"

text \<open>C37: the engine runs exactly as the report's first two rows say, and on no other row. When the report says that a
  child can be traced and followed, \<^verbatim>\<open>emuroot_run\<close> chooses the tracer and, whatever comes of the run, keeps its
  result: it never falls back to running without interception. The other rows, and so the verdict, play no part in
  it: with neither registers nor memory within reach the report says that the fall-back is used, and the engine
  runs nevertheless.\<close>

theorem rows_decide_engine:
  assumes "probe_kernel E = Some (f, cs)" "f_traced f" "f_follow f" and "same_kernel E audit bt"
    and "\<forall>opts. pe_setopt E opts \<longrightarrow> pe_setopt E (opts OR 0x80)"
    and "emuroot_run_ptrace C bt ctx waits = Some rr" and "\<forall>n. Stop_signal n \<in> set waits \<longrightarrow> 0 < n"
  shows "emuroot_run (Some ctx') (Some a) (emuroot_probe_backend False None True (pe_traceme E)) (rr_rc rr) envonly = rr_rc rr"
proof -
  have t: "pe_traceme E" "pe_setopt E (1 OR 2 OR 4 OR 8)"
    using probe_kernel_ends [of E] assms(1-3) by (auto simp: try_child_def no_findings_def Let_def split: if_splits)
  then have "pe_setopt E (ptrace_options sm)" for sm
    using spec [OF assms(5), of "1 OR 2 OR 4 OR 8"] by (cases sm) (simp_all add: ptrace_options_def)
  then have o: "bt_setopt bt (ptrace_options sm)" for sm using assms(4) by (simp add: same_kernel_def)
  have "rr_rc rr \<noteq> EMUROOT_ERR_UNSUPPORTED"
    using assms(4,6) o event_loop_code [OF _ assms(7)]
    by (fastforce simp: emuroot_run_ptrace_def same_kernel_def give_up_def status_defs Let_def split: option.splits prod.splits)
  then show ?thesis using t by (simp add: emuroot_run_def emuroot_probe_backend_def)
qed

text \<open>The fast path is used exactly when the report says so. On the kernel that was probed, with no wait of the
  probe interrupted, a guest that starts runs under the seccomp filter if and only if the row "seccomp fast path"
  says yes: the one-instruction filter the probe installs stands for the engine's own.\<close>

theorem fast_path_as_reported:
  assumes "probe_kernel E = Some (f, cs)" "pe_fork2 E > 0" "\<not> pe_intr E 2" and "same_kernel E audit bt" "\<not> bt_no_seccomp bt"
    and "c_nr C ''execve'' \<noteq> None" and "guest_start C bt root = Some filtered"
  shows "filtered \<longleftrightarrow> f_seccomp f \<and> f_supported f"
proof -
  let ?nrs = "traced_syscalls (c_nr C) (c_lp64 C)"
  have f: "f_seccomp f = (pe_no_new_privs E \<and> pe_install E)" "f_supported f = emuroot_seccomp_supported (pe_version E)"
    using probe_kernel_ends [of E] assms(1-3) by auto
  obtain k where "c_nr C ''execve'' = Some k" using assms(6) by blast
  then have "k \<in> set ?nrs" by (intro extra_traced [where n = "''execve''"]) (simp_all add: is_nr_def)
  then have n: "length ?nrs \<noteq> 0" "length ?nrs \<le> MAX_FILTERED" using traced_length [of "c_nr C" "c_lp64 C"] by (auto simp: MAX_FILTERED_def)
  have "fst (emuroot_seccomp_trace audit (pe_no_new_privs E) (pe_install E) ?nrs) = 0 \<longleftrightarrow> pe_no_new_privs E \<and> pe_install E"
    using n by (simp add: emuroot_seccomp_trace_def)
  then show ?thesis using assms(4,5,7) f by (auto simp: guest_start_def same_kernel_def Let_def split: if_splits)
qed

text \<open>Registers and memory are within the engine's reach exactly when the report shows a way to them. Assume the
  kernel answers the engine as it answered the probe, that a request it does not grant fails with an error that means
  "not this way", and that what can be read is the value. Then the engine, starting from its first method,
  gets the registers if and only if one of the two rows says yes, and reads the word if and only if one of the three
  rows for guest memory does.\<close>

theorem access_as_reported:
  assumes "probe_kernel E = Some (f, cs)" "f_traced f"
    and "case regset of Inl e \<Rightarrow> \<not> pe_regset E \<and> e \<in> {EIO, EINVAL, ENOSYS} | Inr _ \<Rightarrow> pe_regset E"
    and "case getregs of Inl _ \<Rightarrow> \<not> pe_getregs E | Inr _ \<Rightarrow> pe_getregs E"
    and "\<forall>r \<in> {vm_read (pe_kmem E) (pe_mem E) (pe_value E) 8, pm_read (pe_kmem E) (pe_mem E) (pe_value E) 8}.
      case r of Inl e \<Rightarrow> denied e | Inr bs \<Rightarrow> bs = probe_bytes"
    and "unat (pe_value E) mod 8 = 0" and "\<forall>bs. peek (pe_kmem E) (pe_mem E) (pe_value E) = Inr bs \<longrightarrow> length bs = 8"
  shows "(fst (regs_get False regset getregs UNDECIDED) \<noteq> None \<longleftrightarrow> f_regset f \<or> f_getregs f) \<and>
    (fst (transfer_read (pe_kmem E) (pe_mem E) PROCESS_VM (pe_value E) 8) = Inr probe_bytes \<longleftrightarrow> f_vm f \<or> f_procmem f \<or> f_peek f)"
proof -
  let ?k = "pe_kmem E" and ?m = "pe_mem E" and ?a = "pe_value E"
  have f: "f_regset f = pe_regset E" "f_getregs f = pe_getregs E" "f_vm f = (vm_read ?k ?m ?a 8 = Inr probe_bytes)"
    "f_procmem f = (pm_read ?k ?m ?a 8 = Inr probe_bytes)" "f_peek f = (peek ?k ?m ?a = Inr probe_bytes)"
    using probe_kernel_ends [of E] assms(1,2) by (auto simp: try_child_def no_findings_def Let_def split: if_splits)
  have off: "word_off ?a = 0" using assms(6) by (simp add: word_off_mod)
  then have al: "align_down 3 ?a = ?a" by (simp add: word_off_def align_down_le unat_eq_0)
  have p: "peek_read ?k ?m ?a 8 [] = Inr probe_bytes \<longleftrightarrow> peek ?k ?m ?a = Inr probe_bytes"
    using assms(7) by (subst peek_read.simps) (auto simp: off al Let_def peek_read.simps [of _ _ _ 0] split: sum.splits)
  show ?thesis unfolding f using assms(3-5) p
    by (auto simp: regs_get_def mode_now_def Let_def split: sum.splits)
qed

subsection \<open>Witnesses\<close>

text \<open>A kernel without register sets that serves only the word-at-a-time requests, and one that lets nothing be read.\<close>

definition demo_probe :: probe_env where
  "demo_probe = \<lparr>pe_arch = ''x86_64'', pe_release = ''5.10'', pe_version = Some (5, 10), pe_fork = 60, pe_traceme = True,
     pe_intr = (\<lambda>_. False), pe_regset = False, pe_getregs = True, pe_kmem = strict_kernel,
     pe_mem = (\<lambda>a. if a - 8192 < 8 then Some (probe_bytes ! unat (a - 8192)) else None), pe_value = 8192,
     pe_setopt = (\<lambda>_. True), pe_fork2 = 61, pe_no_new_privs = True, pe_install = True\<rparr>"

definition blind_probe :: probe_env where
  "blind_probe = demo_probe\<lparr>pe_getregs := False, pe_mem := (\<lambda>_. None)\<rparr>"

lemma demo_probe_fields:
  "pe_fork demo_probe > 0" "pe_traceme demo_probe" "pe_intr demo_probe n = False" "pe_fork2 demo_probe > 0"
  "vm_read (pe_kmem demo_probe) m a k = Inl EPERM" "pm_read (pe_kmem demo_probe) m a k = Inl EPERM"
  by (simp_all add: demo_probe_def strict_kernel_def)

lemma mread_numeral:
  "mread m a (numeral k) = (case m a of None \<Rightarrow> [] | Some b \<Rightarrow> b # mread m (a + 1) (pred_numeral k))"
  by (simp add: numeral_eq_Suc)

lemma demo_peek: "peek (pe_kmem demo_probe) (pe_mem demo_probe) (pe_value demo_probe) = Inr probe_bytes"
proof -
  have "mread (pe_mem demo_probe) 8192 8 = probe_bytes"
    by (simp add: demo_probe_def probe_bytes_def mread_numeral)
  then show ?thesis by (simp add: demo_probe_def strict_kernel_def probe_bytes_def)
qed

lemma demo_probe_kernel: "\<exists>cs. probe_kernel demo_probe =
  Some ((try_child demo_probe)\<lparr>f_seccomp := True, f_supported := True\<rparr>, cs)"
  using probe_kernel_ends [of demo_probe] by (auto simp: demo_probe_def emuroot_seccomp_supported_def)

theorem diagnosis_answers_witness:
  "\<exists>text. emuroot_diagnose demo_probe 4096 = Some (text, 0, [Reaped, Reaped])"
proof -
  have "usable (try_child demo_probe)" using demo_peek by (simp add: usable_def try_child_def no_findings_def demo_probe_def Let_def)
  then show ?thesis using diagnosis_answers [of demo_probe 4096] demo_probe_fields by auto
qed

theorem access_as_reported_witness:
  "fst (regs_get False (Inl EINVAL) (Inr (\<lambda>_. 0)) UNDECIDED) \<noteq> None \<and>
   fst (transfer_read (pe_kmem demo_probe) (pe_mem demo_probe) PROCESS_VM (pe_value demo_probe) 8) = Inr probe_bytes"
proof -
  obtain cs where k: "probe_kernel demo_probe = Some ((try_child demo_probe)\<lparr>f_seccomp := True, f_supported := True\<rparr>, cs)"
    using demo_probe_kernel by blast
  have "f_peek (try_child demo_probe)" "f_getregs (try_child demo_probe)" "f_traced (try_child demo_probe)"
    using demo_peek by (simp_all add: try_child_def demo_probe_def Let_def)
  then show ?thesis using access_as_reported [OF k, of "Inl EINVAL" "Inr (\<lambda>_. 0)"] demo_peek demo_probe_fields
    by (simp add: demo_probe_def denied_def errno_defs probe_bytes_def)
qed

text \<open>The boot of \<open>Ptrace\<close>'s examples, on that kernel.\<close>

definition demo_probed_boot :: boot where
  "demo_probed_boot = demo_boot\<lparr>bt_filter := (\<lambda>nrs. fst (emuroot_seccomp_trace 0xC000003E True True nrs) = 0)\<rparr>"

lemma demo_same_kernel: "same_kernel demo_probe 0xC000003E demo_probed_boot" "same_kernel blind_probe 0xC000003E demo_probed_boot"
  by (simp_all add: same_kernel_def demo_probed_boot_def demo_boot_def blind_probe_def demo_probe_def emuroot_seccomp_supported_def)

theorem fast_path_as_reported_witness:
  "\<exists>f cs. probe_kernel demo_probe = Some (f, cs) \<and> f_seccomp f \<and> f_supported f \<and> guest_start demo_cfg demo_probed_boot [] = Some True"
proof -
  obtain cs where k: "probe_kernel demo_probe = Some ((try_child demo_probe)\<lparr>f_seccomp := True, f_supported := True\<rparr>, cs)"
    using demo_probe_kernel by blast
  have e: "c_nr demo_cfg ''execve'' \<noteq> None" by code_simp
  obtain b where b: "guest_start demo_cfg demo_probed_boot [] = Some b"
    by (simp add: guest_start_def demo_probed_boot_def demo_boot_def)
  then show ?thesis using fast_path_as_reported [OF k _ _ demo_same_kernel(1) _ e b] demo_probe_fields k
    by (auto simp: demo_probed_boot_def demo_boot_def)
qed

theorem rows_decide_engine_witness:
  "\<exists>text cs rr. emuroot_diagnose blind_probe 4096 = Some (text, 1, cs) \<and>
     emuroot_run_ptrace demo_cfg demo_probed_boot zero_ctx [Stop_signal 15] = Some rr \<and>
     emuroot_run (Some zero_ctx) (Some ''sh'') (emuroot_probe_backend False None True True) (rr_rc rr) 0 = rr_rc rr"
proof -
  obtain c c2 where k: "probe_kernel blind_probe = Some ((try_child blind_probe)\<lparr>f_seccomp := True, f_supported := True\<rparr>, [c, c2])"
    using probe_kernel_ends [of blind_probe] by (auto simp: blind_probe_def demo_probe_def emuroot_seccomp_supported_def)
  have f: "f_traced (try_child blind_probe)" "f_follow (try_child blind_probe)" "\<not> usable (try_child blind_probe)"
    by (simp_all add: try_child_def usable_def no_findings_def blind_probe_def demo_probe_def strict_kernel_def probe_bytes_def Let_def)
  have b: "bt_pipe demo_probed_boot" "bt_fork demo_probed_boot = Some 50" "bt_setopt demo_probed_boot = (\<lambda>_. True)"
    "h_calloc (bt_host demo_probed_boot) = (\<lambda>n. True)"
    by (simp_all add: demo_probed_boot_def demo_boot_def demo_host_def Let_def)
  have "\<exists>rr. emuroot_run_ptrace demo_cfg demo_probed_boot zero_ctx [Stop_signal 15] = Some rr"
    using b by (auto simp: emuroot_run_ptrace_def loop_step_def tracee_add_def Let_def split: option.split)
  then obtain rr where r: "emuroot_run_ptrace demo_cfg demo_probed_boot zero_ctx [Stop_signal 15] = Some rr" ..
  have t: "pe_traceme blind_probe" "\<forall>o'. pe_setopt blind_probe o'" by (simp_all add: blind_probe_def demo_probe_def)
  have u: "\<not> usable ((try_child blind_probe)\<lparr>f_seccomp := True, f_supported := True\<rparr>)" using f(3) by (simp add: usable_def)
  show ?thesis using rows_decide_engine [OF k _ _ demo_same_kernel(2) _ r, of zero_ctx "''sh''" 0] f(1,2) r t u
    by (auto simp: emuroot_diagnose_def k)
qed

end
