(* ===== verification/Jni.thy ===== *)
theory Jni
  imports Probe
begin

text \<open>
  \<^verbatim>\<open>emuroot_jni.c\<close>: the Java binding over the C interface. A Java string is a reference of any type \<open>'j\<close>; what the
  virtual machine and the system answer is the record \<open>jvm\<close>. The configuration calls thread the context and the
  references whose characters are held; \<open>nativeStart\<close> threads the caller's descriptor table and ends in the
  caller or, in the child of the \<^verbatim>\<open>fork\<close>, in the supervisor of \<open>Spawn\<close>.
\<close>

subsection \<open>Strings\<close>

text \<open>\<open>jv_utf\<close> is \<^verbatim>\<open>GetStringUTFChars\<close>, \<open>None\<close> when there is no memory; \<open>jv_pipe2 t\<close> are the reading and the
  writing end a \<^verbatim>\<open>pipe2\<close> gives when \<open>t\<close> is open.\<close>

record 'j jvm =
  jv_utf :: "'j \<Rightarrow> string option"
  jv_calloc :: "nat \<Rightarrow> bool"
  jv_strdup :: "string \<Rightarrow> bool"
  jv_new_array :: bool
  jv_pipe2 :: "fd_table \<Rightarrow> (int \<times> int) option"

text \<open>The entries of the allocated vector; \<open>None\<close> is a NULL among them.\<close>

definition to_strv :: "'j jvm \<Rightarrow> 'j option list option \<Rightarrow> string option list option" where
  "to_strv J array =
     (case array of
        None \<Rightarrow> None
      | Some js \<Rightarrow>
          if \<not> jv_calloc J (length js + 1) then None
          else Some (map (\<lambda>j.
            let utf = (case j of Some j \<Rightarrow> jv_utf J j | None \<Rightarrow> None);
                s = (case utf of Some s \<Rightarrow> s | None \<Rightarrow> [])
            in if jv_strdup J s then Some s else None) js))"

text \<open>A vector as C code reads it, up to the first NULL; and the strings \<^verbatim>\<open>free_strv\<close> does not reach.\<close>

definition c_vector :: "string option list \<Rightarrow> string list" where
  "c_vector v = map the (takeWhile (\<lambda>x. x \<noteq> None) v)"

definition free_strv :: "string option list option \<Rightarrow> string list" where
  "free_strv v = (case v of None \<Rightarrow> [] | Some v \<Rightarrow> map the (filter (\<lambda>x. x \<noteq> None) (dropWhile (\<lambda>x. x \<noteq> None) v)))"

subsection \<open>Configuration\<close>

record 'j jcall =
  jc_rc :: int
  jc_ctx :: "emuroot_ctx option"
  jc_held :: "'j list"

definition with_utf :: "'j jvm \<Rightarrow> 'j \<Rightarrow> (string \<Rightarrow> 'j jcall \<Rightarrow> 'j jcall) \<Rightarrow> 'j jcall \<Rightarrow> 'j jcall" where
  "with_utf J j body s =
     (case jv_utf J j of
        None \<Rightarrow> s
      | Some p \<Rightarrow> let s = body p (s\<lparr>jc_held := j # jc_held s\<rparr>) in s\<lparr>jc_held := remove1 j (jc_held s)\<rparr>)"

definition set_rc :: "(emuroot_ctx option \<Rightarrow> int \<times> emuroot_ctx option) \<Rightarrow> 'j jcall \<Rightarrow> 'j jcall" where
  "set_rc f s = (case f (jc_ctx s) of (rc, c) \<Rightarrow> s\<lparr>jc_rc := rc, jc_ctx := c\<rparr>)"

definition nativeSetRoot :: "'j jvm \<Rightarrow> 'j \<Rightarrow> 'j jcall \<Rightarrow> 'j jcall" where
  "nativeSetRoot J path s =
     with_utf J path (\<lambda>p. set_rc (\<lambda>c. emuroot_set_root c (Some p))) (s\<lparr>jc_rc := EMUROOT_ERR_INVAL\<rparr>)"

definition nativeBind :: "'j jvm \<Rightarrow> 'j \<Rightarrow> 'j \<Rightarrow> 'j jcall \<Rightarrow> 'j jcall" where
  "nativeBind J host guest s =
     with_utf J host (\<lambda>h. with_utf J guest (\<lambda>g. set_rc (\<lambda>c. emuroot_bind c (Some h) (Some g)))) (s\<lparr>jc_rc := EMUROOT_ERR_INVAL\<rparr>)"

definition nativeSetFakeIds :: "32 word \<Rightarrow> 32 word \<Rightarrow> 'j jcall \<Rightarrow> 'j jcall" where
  "nativeSetFakeIds u g = set_rc (\<lambda>c. emuroot_set_fake_ids c u g)"

definition nativeSetFakeUname :: "'j jvm \<Rightarrow> 'j \<Rightarrow> 'j \<Rightarrow> 'j \<Rightarrow> 'j jcall \<Rightarrow> 'j jcall" where
  "nativeSetFakeUname J sys rel machine s =
     with_utf J sys (\<lambda>sn. with_utf J rel (\<lambda>r. with_utf J machine (\<lambda>m.
       set_rc (\<lambda>c. emuroot_set_fake_uname c (Some sn) (Some r) (Some m))))) (s\<lparr>jc_rc := EMUROOT_ERR_INVAL\<rparr>)"

definition nativeSetIdsFile :: "'j jvm \<Rightarrow> 'j \<Rightarrow> 'j jcall \<Rightarrow> 'j jcall" where
  "nativeSetIdsFile J path s =
     with_utf J path (\<lambda>p. set_rc (\<lambda>c. emuroot_set_ids_file c (Some p))) (s\<lparr>jc_rc := EMUROOT_ERR_INVAL\<rparr>)"

definition nativeSetVerbose :: "bool \<Rightarrow> 'j jcall \<Rightarrow> 'j jcall" where
  "nativeSetVerbose on = set_rc (\<lambda>c. emuroot_set_verbose c on)"

definition nativeCreate :: "bool \<Rightarrow> emuroot_ctx option" where
  "nativeCreate alloc = emuroot_create alloc"

definition nativeDestroy :: "emuroot_ctx option \<Rightarrow> ctx_block list" where
  "nativeDestroy ctx = emuroot_destroy ctx"

subsection \<open>Starting a guest\<close>

text \<open>The two ends of a pipe, -1 before it is made.\<close>

type_synonym pipe_ends = "int \<times> int"

definition open_pipe :: "'j jvm \<Rightarrow> nat \<Rightarrow> fd_table \<Rightarrow> (pipe_ends \<times> fd_table) option" where
  "open_pipe J n t =
     (case jv_pipe2 J t of
        None \<Rightarrow> None
      | Some (r, w) \<Rightarrow> Some ((r, w), t(r \<mapsto> (Pipe_read n, True), w \<mapsto> (Pipe_write n, True))))"

definition close_fd :: "int \<Rightarrow> fd_table \<Rightarrow> fd_table" where
  "close_fd fd t = (if fd \<ge> 0 then t(fd := None) else t)"

definition close_ends :: "pipe_ends \<Rightarrow> pipe_ends \<Rightarrow> pipe_ends \<Rightarrow> fd_table \<Rightarrow> fd_table" where
  "close_ends i ou er = close_fd (snd er) \<circ> close_fd (snd ou) \<circ> close_fd (snd i) \<circ> close_fd (fst er) \<circ> close_fd (fst ou) \<circ> close_fd (fst i)"

text \<open>In the caller: the array returned, the descriptors left open and the strings leaked.\<close>

datatype started = Returned "int list option" fd_table "string list" | Child_exits "(int \<times> process option) option"

definition nativeStart :: "'j jvm \<Rightarrow> spawn_host \<Rightarrow> (emuroot_ctx \<Rightarrow> string list \<Rightarrow> string list option \<Rightarrow> process \<Rightarrow> int) \<Rightarrow>
    emuroot_ctx option \<Rightarrow> 'j option list option \<Rightarrow> 'j option list option \<Rightarrow> int \<Rightarrow> process \<Rightarrow> started" where
  "nativeStart J H run ctx argv_j envp_j forked p =
     (let argv = to_strv J argv_j; envp = to_strv J envp_j;
          none = (- 1, - 1) :: pipe_ends;
          finish = (\<lambda>result i ou er t. Returned result (close_ends i ou er t) (free_strv argv @ free_strv envp))
      in case map_option c_vector argv of
           None \<Rightarrow> finish None none none none (p_fds p)
         | Some [] \<Rightarrow> finish None none none none (p_fds p)
         | Some (a # as) \<Rightarrow>
       (case open_pipe J 0 (p_fds p) of
           None \<Rightarrow> finish None none none none (p_fds p)
         | Some (i, t) \<Rightarrow>
       (case open_pipe J 1 t of
           None \<Rightarrow> finish None i none none t
         | Some (ou, t) \<Rightarrow>
       (case open_pipe J 2 t of
           None \<Rightarrow> finish None i ou none t
         | Some (er, t) \<Rightarrow>
       (case emuroot_spawn H run ctx (Some (a # as)) (map_option c_vector envp)
               (Some \<lparr>stdin_fd = fst i, stdout_fd = snd ou, stderr_fd = snd er, die_with_parent = True\<rparr>) forked (p\<lparr>p_fds := t\<rparr>) of
           In_supervisor r \<Rightarrow> Child_exits r
         | In_caller pid \<Rightarrow>
             if pid < 0 then finish None i ou er t
             else let t = close_fd (snd er) (close_fd (snd ou) (close_fd (fst i) t));
                      result = (if jv_new_array J then Some [pid, snd i, fst ou, fst er] else None)
                  in finish result none none none t)))))"

definition nativeWait :: "waited list \<Rightarrow> int option" where
  "nativeWait = emuroot_wait"

definition nativeTerminate :: "(int \<Rightarrow> int \<Rightarrow> int) \<Rightarrow> int \<Rightarrow> int" where
  "nativeTerminate kill pid = emuroot_terminate kill pid"

definition nativeDiagnose :: "probe_env \<Rightarrow> string option" where
  "nativeDiagnose E = map_option fst (emuroot_diagnose E 2048)"

definition nativeVersion :: string where
  "nativeVersion = emuroot_version_string 64"

subsection \<open>Argument vectors\<close>

definition java_text :: "'j jvm \<Rightarrow> 'j option \<Rightarrow> string" where
  "java_text J j = (case j of None \<Rightarrow> [] | Some j \<Rightarrow> (case jv_utf J j of None \<Rightarrow> [] | Some s \<Rightarrow> s))"

lemma to_strv_texts:
  "to_strv J (Some js) = (if jv_calloc J (length js + 1) then
     Some (map (\<lambda>s. if jv_strdup J s then Some s else None) (map (java_text J) js)) else None)"
  by (auto simp: to_strv_def java_text_def Let_def split: option.splits)

lemma c_vector_texts:
  "c_vector (map (\<lambda>s. if ok s then Some s else None) xs) = takeWhile ok xs"
  by (induction xs) (auto simp: c_vector_def)

lemma free_strv_texts:
  "free_strv (Some (map (\<lambda>s. if ok s then Some s else None) xs)) = filter ok (dropWhile ok xs)"
proof -
  have "map the (filter (\<lambda>x. x \<noteq> None) (map (\<lambda>s. if ok s then Some s else None) ys)) = filter ok ys" for ys :: "string list"
    by (induction ys) auto
  moreover have "dropWhile (\<lambda>x. x \<noteq> None) (map (\<lambda>s. if ok s then Some s else None) xs) =
      map (\<lambda>s. if ok s then Some s else None) (dropWhile ok xs)"
    by (induction xs) auto
  ultimately show ?thesis by (simp only: free_strv_def option.case)
qed

text \<open>What becomes of a Java string array. The vector the C code reads is the strings up to the first that could
  not be copied, and what \<^verbatim>\<open>free_strv\<close> leaks is the copies after it; so with enough memory the program gets exactly
  the strings of the array (empty for a null) and nothing is leaked.\<close>

theorem java_arguments:
  assumes "to_strv J (Some js) = Some v"
  shows "c_vector v = takeWhile (jv_strdup J) (map (java_text J) js) \<and>
    free_strv (Some v) = filter (jv_strdup J) (dropWhile (jv_strdup J) (map (java_text J) js)) \<and>
    ((\<forall>s. jv_strdup J s) \<longrightarrow> c_vector v = map (java_text J) js \<and> free_strv (Some v) = [])"
proof -
  have v: "v = map (\<lambda>s. if jv_strdup J s then Some s else None) (map (java_text J) js)"
    using assms unfolding to_strv_texts by (simp only: split: if_splits) simp_all
  have "(\<forall>s. jv_strdup J s) \<Longrightarrow> takeWhile (jv_strdup J) xs = xs \<and> dropWhile (jv_strdup J) xs = []" for xs
    by (induction xs) simp_all
  then show ?thesis unfolding v c_vector_texts free_strv_texts by simp
qed

subsection \<open>Configuration from Java\<close>

datatype 'j native_config = SetRoot 'j | Bind 'j 'j | SetFakeIds "32 word" "32 word" | SetFakeUname 'j 'j 'j | SetIdsFile 'j | SetVerbose bool

fun native_step :: "'j jvm \<Rightarrow> 'j native_config \<Rightarrow> 'j jcall \<Rightarrow> 'j jcall" where
  "native_step J (SetRoot p) = nativeSetRoot J p"
| "native_step J (Bind h g) = nativeBind J h g"
| "native_step J (SetFakeIds u g) = nativeSetFakeIds u g"
| "native_step J (SetFakeUname a b c) = nativeSetFakeUname J a b c"
| "native_step J (SetIdsFile p) = nativeSetIdsFile J p"
| "native_step J (SetVerbose on) = nativeSetVerbose on"

text \<open>The C call each stands for.\<close>

fun c_config :: "string native_config \<Rightarrow> emuroot_ctx option \<Rightarrow> int \<times> emuroot_ctx option" where
  "c_config (SetRoot p) c = emuroot_set_root c (Some p)"
| "c_config (Bind h g) c = emuroot_bind c (Some h) (Some g)"
| "c_config (SetFakeIds u g) c = emuroot_set_fake_ids c u g"
| "c_config (SetFakeUname s r m) c = emuroot_set_fake_uname c (Some s) (Some r) (Some m)"
| "c_config (SetIdsFile p) c = emuroot_set_ids_file c (Some p)"
| "c_config (SetVerbose on) c = emuroot_set_verbose c on"

lemma with_utf_fields:
  assumes "\<And>p s. jc_held (body p s) = jc_held s"
  shows "with_utf J j body s = (case jv_utf J j of None \<Rightarrow> s | Some p \<Rightarrow> (body p (s\<lparr>jc_held := j # jc_held s\<rparr>))\<lparr>jc_held := jc_held s\<rparr>)"
    and "jc_held (with_utf J j body s) = jc_held s"
  by (simp_all add: with_utf_def assms Let_def split: option.split)

lemma held_set_rc [simp]: "jc_held (set_rc f s) = jc_held s"
  by (simp add: set_rc_def split: prod.split)

lemma set_rc_held [simp]: "(set_rc f (s\<lparr>jc_held := h\<rparr>))\<lparr>jc_held := h'\<rparr> = (set_rc f s)\<lparr>jc_held := h'\<rparr>"
  by (simp add: set_rc_def split: prod.split)

lemma set_rc_same [simp]: "(set_rc f s)\<lparr>jc_held := jc_held s\<rparr> = set_rc f s"
  by (cases s) (simp add: set_rc_def split: prod.split)

lemma native_step_spec:
  "native_step J call s =
     (if \<exists>j \<in> set_native_config call. jv_utf J j = None then s\<lparr>jc_rc := EMUROOT_ERR_INVAL\<rparr>
      else set_rc (c_config (map_native_config (the \<circ> jv_utf J) call)) s)"
  by (cases call; simp add: nativeSetRoot_def nativeBind_def nativeSetFakeIds_def nativeSetFakeUname_def nativeSetIdsFile_def
      nativeSetVerbose_def with_utf_fields split: option.split; simp add: set_rc_def split: prod.split)

lemma c_config_wf:
  assumes "ctx_wf c" and "\<forall>p \<in> set_native_config call. NUL \<notin> set p"
  shows "\<exists>c'. snd (c_config call (Some c)) = Some c' \<and> ctx_wf c'"
proof (cases call)
  case (SetRoot p)
  then show ?thesis using ctx_step_wf [OF assms(1), of "OpRoot p"] set_root_Some [of c p] assms(2) by (auto simp: ctx_op_cstr_def)
next
  case (Bind h g)
  then show ?thesis using ctx_step_wf [OF assms(1), of "OpBind h g"] bind_Some [of c h g] assms(2) by (auto simp: ctx_op_cstr_def)
qed (use assms in \<open>auto simp: emuroot_set_fake_ids_def emuroot_set_fake_uname_def emuroot_set_ids_file_def emuroot_set_verbose_def
    ctx_wf_def binding_wf_def split: prod.split\<close>)

lemma native_step_wf:
  assumes "jc_ctx s = Some c" "ctx_wf c" and "\<forall>j p. jv_utf J j = Some p \<longrightarrow> NUL \<notin> set p"
  shows "\<exists>c'. jc_ctx (native_step J call s) = Some c' \<and> ctx_wf c' \<and> jc_held (native_step J call s) = jc_held s"
proof (cases "\<exists>j \<in> set_native_config call. jv_utf J j = None")
  case False
  then have "\<forall>p \<in> set_native_config (map_native_config (the \<circ> jv_utf J) call). NUL \<notin> set p"
    using assms(3) by (fastforce simp: native_config.set_map)
  from c_config_wf [OF assms(2) this] show ?thesis using False assms(1)
    unfolding native_step_spec by (auto simp: set_rc_def split: prod.split)
qed (use assms in \<open>simp add: native_step_spec\<close>)

text \<open>C38: a context configured from Java is the one the C interface would build. A native call whose strings can all be
  converted does what the C call does on their characters; one with a string that cannot be converted reports an
  invalid argument and changes nothing. Every sequence of calls on a new context leaves it well-formed, and
  no string stays pinned.\<close>

theorem java_configuration:
  assumes "\<forall>j p. jv_utf J j = Some p \<longrightarrow> NUL \<notin> set p" and "jc_ctx s = nativeCreate True"
  shows "\<exists>c. jc_ctx (fold (native_step J) calls s) = Some c \<and> ctx_wf c \<and> jc_held (fold (native_step J) calls s) = jc_held s \<and>
    (let t = native_step J call (fold (native_step J) calls s)
     in if \<exists>j \<in> set_native_config call. jv_utf J j = None then jc_rc t = EMUROOT_ERR_INVAL \<and> jc_ctx t = Some c
        else (jc_rc t, jc_ctx t) = c_config (map_native_config (the \<circ> jv_utf J) call) (Some c))"
proof -
  have "\<exists>c. jc_ctx (fold (native_step J) calls s) = Some c \<and> ctx_wf c \<and> jc_held (fold (native_step J) calls s) = jc_held s"
    if "jc_ctx s = Some c" "ctx_wf c" for c s
    using that
  proof (induction calls arbitrary: s c)
    case (Cons x xs)
    from native_step_wf [OF Cons.prems assms(1), of x] obtain c' where
      c': "jc_ctx (native_step J x s) = Some c'" "ctx_wf c'" "jc_held (native_step J x s) = jc_held s" by blast
    from Cons.IH [OF c'(1,2)] show ?case using c'(3) by simp
  qed simp
  moreover have "nativeCreate True = Some zero_ctx" by (simp add: nativeCreate_def emuroot_create_def)
  ultimately obtain c where "jc_ctx (fold (native_step J) calls s) = Some c" "ctx_wf c" "jc_held (fold (native_step J) calls s) = jc_held s"
    using assms(2) zero_ctx_wf by metis
  then show ?thesis unfolding native_step_spec by (auto simp: set_rc_def Let_def split: prod.split)
qed

subsection \<open>The pipes of a guest\<close>

definition fresh_pipes :: "'j jvm \<Rightarrow> bool" where
  "fresh_pipes J \<longleftrightarrow> (\<forall>t r w. jv_pipe2 J t = Some (r, w) \<longrightarrow> 0 \<le> r \<and> 0 \<le> w \<and> r \<noteq> w \<and> r \<notin> dom t \<and> w \<notin> dom t)"

lemma open_pipe_fresh:
  assumes "fresh_pipes J" and "open_pipe J n t = Some (e, t')"
  shows "0 \<le> fst e \<and> 0 \<le> snd e \<and> fst e \<noteq> snd e \<and> t (fst e) = None \<and> t (snd e) = None \<and>
    t' = t(fst e \<mapsto> (Pipe_read n, True), snd e \<mapsto> (Pipe_write n, True))"
  using assms unfolding open_pipe_def fresh_pipes_def by (auto split: option.splits) fastforce+

lemma three_pipes:
  assumes "fresh_pipes J" "open_pipe J 0 t = Some (i, t1)" "open_pipe J 1 t1 = Some (ou, t2)" "open_pipe J 2 t2 = Some (er, t3)"
  shows "distinct [fst i, snd i, fst ou, snd ou, fst er, snd er]"
    and "\<forall>fd \<in> set [fst i, snd i, fst ou, snd ou, fst er, snd er]. 0 \<le> fd \<and> t fd = None"
    and "t3 = t(fst i \<mapsto> (Pipe_read 0, True), snd i \<mapsto> (Pipe_write 0, True), fst ou \<mapsto> (Pipe_read 1, True), snd ou \<mapsto> (Pipe_write 1, True),
      fst er \<mapsto> (Pipe_read 2, True), snd er \<mapsto> (Pipe_write 2, True))"
proof -
  note a = open_pipe_fresh [OF assms(1,2)] and b = open_pipe_fresh [OF assms(1,3)] and c = open_pipe_fresh [OF assms(1,4)]
  from a have t1: "t1 = t(fst i \<mapsto> (Pipe_read 0, True), snd i \<mapsto> (Pipe_write 0, True))" by simp
  from b have t2: "t2 = t1(fst ou \<mapsto> (Pipe_read 1, True), snd ou \<mapsto> (Pipe_write 1, True))" by simp
  show "t3 = t(fst i \<mapsto> (Pipe_read 0, True), snd i \<mapsto> (Pipe_write 0, True), fst ou \<mapsto> (Pipe_read 1, True), snd ou \<mapsto> (Pipe_write 1, True),
      fst er \<mapsto> (Pipe_read 2, True), snd er \<mapsto> (Pipe_write 2, True))" using c by (simp add: t1 t2)
  have b': "fst ou \<noteq> fst i" "fst ou \<noteq> snd i" "snd ou \<noteq> fst i" "snd ou \<noteq> snd i" "t (fst ou) = None" "t (snd ou) = None"
    using b by (auto simp: t1 split: if_splits)
  have c': "fst er \<noteq> fst i" "fst er \<noteq> snd i" "snd er \<noteq> fst i" "snd er \<noteq> snd i" "fst er \<noteq> fst ou" "fst er \<noteq> snd ou"
    "snd er \<noteq> fst ou" "snd er \<noteq> snd ou" "t (fst er) = None" "t (snd er) = None"
    using c by (auto simp: t1 t2 split: if_splits)
  show "distinct [fst i, snd i, fst ou, snd ou, fst er, snd er]" using a b b' c c' by auto
  show "\<forall>fd \<in> set [fst i, snd i, fst ou, snd ou, fst er, snd er]. 0 \<le> fd \<and> t fd = None" using a b b' c c' by simp
qed

lemma close_none: "close_fd (- 1) t = t"
  by (simp add: close_fd_def)

lemma close_open:
  assumes "fresh_pipes J" "open_pipe J n t = Some (e, t')"
  shows "close_fd (snd e) (close_fd (fst e) t') = t"
  using open_pipe_fresh [OF assms] by (auto simp: close_fd_def fun_eq_iff)

lemma close_comm: "close_fd x (close_fd y t) = close_fd y (close_fd x t)"
  by (auto simp: close_fd_def fun_eq_iff)

text \<open>The table with the three ends the caller keeps.\<close>

definition kept_ends :: "fd_table \<Rightarrow> int list \<Rightarrow> fd_table \<Rightarrow> bool" where
  "kept_ends t fds t' \<longleftrightarrow> (\<exists>i ou er. fds = [i, ou, er] \<and> distinct fds \<and> set fds \<inter> dom t = {} \<and>
     t' = t(i \<mapsto> (Pipe_write 0, True), ou \<mapsto> (Pipe_read 1, True), er \<mapsto> (Pipe_read 2, True)))"

lemma pipes_closed:
  assumes "fresh_pipes J" "open_pipe J 0 t = Some (i, t1)" "open_pipe J 1 t1 = Some (ou, t2)"
  shows "close_ends i (- 1, - 1) (- 1, - 1) t1 = t" "close_ends i ou (- 1, - 1) t2 = t"
    and "open_pipe J 2 t2 = Some (er, t3) \<Longrightarrow> close_ends i ou er t3 = t"
    and "open_pipe J 2 t2 = Some (er, t3) \<Longrightarrow>
      kept_ends t [snd i, fst ou, fst er] (close_fd (snd er) (close_fd (snd ou) (close_fd (fst i) t3)))"
proof -
  note a = close_open [OF assms(1,2)] and b = close_open [OF assms(1,3)]
  show "close_ends i (- 1, - 1) (- 1, - 1) t1 = t" by (simp add: close_ends_def close_none a)
  have "close_fd (snd ou) (close_fd (snd i) (close_fd (fst ou) (close_fd (fst i) t2))) =
      close_fd (snd i) (close_fd (fst i) (close_fd (snd ou) (close_fd (fst ou) t2)))"
    by (simp only: close_comm [of "fst ou" "fst i"] close_comm [of "snd ou" "snd i"] close_comm [of "snd ou" "fst i"])
  then show "close_ends i ou (- 1, - 1) t2 = t" by (simp add: close_ends_def close_none a b)
  assume c: "open_pipe J 2 t2 = Some (er, t3)"
  note d = three_pipes [OF assms c]
  have dist: "distinct [fst i, snd i, fst ou, snd ou, fst er, snd er]" and free: "\<forall>fd \<in> set [fst i, snd i, fst ou, snd ou, fst er, snd er]. 0 \<le> fd \<and> t fd = None"
    by (rule d(1), rule d(2))
  then have rdist: "distinct [snd er, fst er, snd ou, fst ou, snd i, fst i]" by auto
  show "close_ends i ou er t3 = t" using free unfolding d(3) by (simp add: close_ends_def close_fd_def fun_eq_iff)
  have "close_fd (snd er) (close_fd (snd ou) (close_fd (fst i) t3)) =
      t(snd i \<mapsto> (Pipe_write 0, True), fst ou \<mapsto> (Pipe_read 1, True), fst er \<mapsto> (Pipe_read 2, True))"
    using free dist rdist unfolding d(3) by (simp add: close_fd_def fun_eq_iff)
  then show "kept_ends t [snd i, fst ou, fst er] (close_fd (snd er) (close_fd (snd ou) (close_fd (fst i) t3)))"
    unfolding kept_ends_def using free dist by (intro exI [of _ "snd i"] exI [of _ "fst ou"] exI [of _ "fst er"]) (simp add: domIff)
qed

text \<open>C23: starting a guest from Java loses no descriptor of the caller, with one exception. Whatever fails on the way (the
  arguments, a pipe, the \<^verbatim>\<open>fork\<close>), null is returned and the caller's table is what it was; when a guest is started
  the table has in addition just the three ends the array names, connected to the guest's input, output and errors.
  Only when the array itself cannot be made are these ends left open with no name for them, and the supervisor's
  number is lost.\<close>

theorem native_start_accounts:
  assumes "fresh_pipes J" and "nativeStart J H run ctx argv envp forked p = Returned result t leaked"
  shows "case result of
      Some vs \<Rightarrow> forked > 0 \<and> jv_new_array J \<and> hd vs = forked \<and> kept_ends (p_fds p) (tl vs) t
    | None \<Rightarrow> t = p_fds p \<or> forked > 0 \<and> \<not> jv_new_array J \<and> (\<exists>fds. kept_ends (p_fds p) fds t)"
proof -
  let ?t = "p_fds p" and ?none = "(- 1, - 1) :: pipe_ends"
  have z: "close_ends ?none ?none ?none t = t" for t by (simp add: close_ends_def close_none)
  note d = assms(2) [unfolded nativeStart_def Let_def z]
  show ?thesis
  proof (cases "map_option c_vector (to_strv J argv) \<in> {None, Some []}")
    case True
    then show ?thesis using d by auto
  next
    case False
    then obtain a as where v: "map_option c_vector (to_strv J argv) = Some (a # as)" by (cases "to_strv J argv"; auto simp: neq_Nil_conv)
    note d = d [unfolded v option.case list.case]
    show ?thesis
    proof (cases "open_pipe J 0 ?t")
      case None
      then show ?thesis using d by auto
    next
      case (Some i)
      then obtain i t1 where p1: "open_pipe J 0 ?t = Some (i, t1)" by (cases i) auto
      note d = d [unfolded p1 option.case prod.case]
      show ?thesis
      proof (cases "open_pipe J 1 t1")
        case None
        then show ?thesis using d close_open [OF assms(1) p1] by (auto simp: close_ends_def close_none)
      next
        case (Some ou)
        then obtain ou t2 where p2: "open_pipe J 1 t1 = Some (ou, t2)" by (cases ou) auto
        note d = d [unfolded p2 option.case prod.case] and q = pipes_closed [OF assms(1) p1 p2]
        show ?thesis
        proof (cases "open_pipe J 2 t2")
          case None
          then show ?thesis using d q(2) by auto
        next
          case (Some er)
          then obtain er t3 where p3: "open_pipe J 2 t2 = Some (er, t3)" by (cases er) auto
          show ?thesis using d [unfolded p3 option.case prod.case] q(3,4) [OF p3]
            by (auto simp: emuroot_spawn_def z split: spawned.splits option.splits if_splits)
        qed
      qed
    qed
  qed
qed

text \<open>C22: the guest of a Java program talks to the pipes the program holds. In the child, when all three pipes were made
  above the standard descriptors, the supervisor runs the guest with the reading end of the first pipe as 0, the
  writing ends of the others as 1 and 2 and nothing else above, so none of the program's own files and none
  of the ends kept by the program; its signals are reset; the arguments are the strings of the array.\<close>

theorem native_start_guest:
  assumes "fresh_pipes J" and std: "{0, 1, 2} \<subseteq> dom (p_fds p)"
    and host: "sh_dup H = (\<lambda>_ _. True)" "\<forall>t. finite (dom t) \<longrightarrow> closable H t" and fin: "finite (dom (p_fds p))"
    and argv: "map_option c_vector (to_strv J argv) = Some (a # as)"
    and pipes: "open_pipe J 0 (p_fds p) = Some (i, t1)" "open_pipe J 1 t1 = Some (ou, t2)" "open_pipe J 2 t2 = Some (er, t3)"
  shows "\<exists>p'. nativeStart J H run (Some c) argv envp 0 p =
      Child_exits (let rc = run c (a # as) (map_option c_vector (to_strv J envp)) p' in Some (if rc < 0 then 127 else rc mod 256, Some p')) \<and>
    p_fds p' 0 = Some (Pipe_read 0, False) \<and> p_fds p' 1 = Some (Pipe_write 1, False) \<and> p_fds p' 2 = Some (Pipe_write 2, False) \<and>
    (\<forall>fd > 2. p_fds p' fd = None) \<and> p_blocked p' = {} \<and> (\<forall>sig \<in> {1..31} - {SIGKILL, SIGSTOP}. p_action p' sig = SIG_DFL)"
proof -
  note t = three_pipes [OF assms(1) pipes]
  let ?o = "\<lparr>stdin_fd = fst i, stdout_fd = snd ou, stderr_fd = snd er, die_with_parent = True\<rparr>" and ?p = "p\<lparr>p_fds := t3\<rparr>"
  have big: "fd \<notin> {0, 1, 2}" if "p_fds p fd = None" for fd using that std by auto
  have ne: "fst i \<notin> {0, 1, 2}" "snd ou \<notin> {0, 1, 2}" "snd er \<notin> {0, 1, 2}" using t(2) big [of "fst i"] big [of "snd ou"] big [of "snd er"] by simp_all
  have l: "t3 (fst i) = Some (Pipe_read 0, True)" "t3 (snd ou) = Some (Pipe_write 1, True)" "t3 (snd er) = Some (Pipe_write 2, True)"
    using t(1) unfolding t(3) by auto
  have "plain_order (p_fds ?p) ?o" using l ne by (auto simp: plain_order_def)
  moreover have "finite (dom t3)" using fin unfolding t(3) by simp
  then have "\<forall>t. dom t \<subseteq> dom (p_fds ?p) \<union> {0, 1, 2} \<longrightarrow> closable H t" using host(2) by (auto intro: finite_subset)
  ultimately have "supervisor H (Some ?o) (run c (a # as) (map_option c_vector (to_strv J envp))) ?p =
      (let p' = guest_process ?o ?p; rc = run c (a # as) (map_option c_vector (to_strv J envp)) p' in Some (if rc < 0 then 127 else rc mod 256, Some p'))"
    by (intro supervisor_runs [OF host(1)])
  then have "nativeStart J H run (Some c) argv envp 0 p = Child_exits (let p' = guest_process ?o ?p; rc = run c (a # as) (map_option c_vector (to_strv J envp)) p'
      in Some (if rc < 0 then 127 else rc mod 256, Some p'))"
    unfolding nativeStart_def Let_def argv pipes option.case list.case prod.case by (simp add: emuroot_spawn_def)
  moreover have "0 \<le> fst i" "0 \<le> snd ou" "0 \<le> snd er" using t(2) by simp_all
  ultimately show ?thesis using l ne by (intro exI [of _ "guest_process ?o ?p"]) (auto simp: guest_process_def std_file_def Let_def)
qed

text \<open>A program whose standard input is closed gives its guest none. The first pipe's reading end then takes the free
  descriptor 0, which is already where it belongs, so it is not copied and keeps its close-on-exec mark: the guest
  program starts with 0 closed.\<close>

theorem native_start_closed_stdin:
  assumes "fresh_pipes J" and "p_fds p 0 = None" "{1, 2} \<subseteq> dom (p_fds p)" "finite (dom (p_fds p))"
    and "sh_dup H = (\<lambda>_ _. True)" "\<forall>t. finite (dom t) \<longrightarrow> closable H t"
    and argv: "map_option c_vector (to_strv J argv) = Some (a # as)"
    and pipes: "open_pipe J 0 (p_fds p) = Some (i, t1)" "open_pipe J 1 t1 = Some (ou, t2)" "open_pipe J 2 t2 = Some (er, t3)"
    and zero: "fst i = 0"
  shows "\<exists>rc p'. nativeStart J H run (Some c) argv envp 0 p = Child_exits (Some (rc, Some p')) \<and> p_fds p' 0 = Some (Pipe_read 0, True)"
proof -
  note t = three_pipes [OF assms(1) pipes]
  let ?o = "\<lparr>stdin_fd = fst i, stdout_fd = snd ou, stderr_fd = snd er, die_with_parent = True\<rparr>" and ?p = "p\<lparr>p_fds := t3\<rparr>"
  have ne: "snd ou \<notin> {0, 1, 2}" "snd er \<notin> {0, 1, 2}" using t(1,2) assms(3) zero by auto
  have l: "t3 0 = Some (Pipe_read 0, True)" "snd ou \<in> dom t3" "snd er \<in> dom t3"
    using t(1) zero unfolding t(3) by auto
  have "plain_order (p_fds ?p) ?o" using l ne zero by (auto simp: plain_order_def)
  moreover have "finite (dom t3)" using assms(4) unfolding t(3) by simp
  then have "\<forall>t. dom t \<subseteq> dom (p_fds ?p) \<union> {0, 1, 2} \<longrightarrow> closable H t" using assms(6) by (auto intro: finite_subset)
  ultimately have s: "supervisor H (Some ?o) run ?p =
      (let p' = guest_process ?o ?p; rc = run p' in Some (if rc < 0 then 127 else rc mod 256, Some p'))" for run
    by (intro supervisor_runs [OF assms(5)])
  have "\<exists>rc. nativeStart J H run (Some c) argv envp 0 p = Child_exits (Some (rc, Some (guest_process ?o ?p)))"
    unfolding nativeStart_def Let_def argv pipes option.case list.case prod.case by (simp add: emuroot_spawn_def s [unfolded Let_def])
  moreover have "p_fds (guest_process ?o ?p) 0 = Some (Pipe_read 0, True)"
    using l(1) zero by (simp add: guest_process_def std_file_def)
  ultimately show ?thesis by blast
qed

text \<open>The report Java receives is complete. Neither of its two buffers cuts it, for every kernel release and architecture
  name of ordinary length, so its last line is the verdict, which is what \<^verbatim>\<open>Emuroot.isFullyAvailable\<close> looks for: it
  says that emulation is available exactly when \<^verbatim>\<open>emuroot_diagnose\<close> returns 0.\<close>

theorem java_report_complete:
  assumes "length (pe_release E) \<le> 64" and "length (pe_arch E) \<le> 20" and "nativeDiagnose E = Some r"
  shows "\<exists>rc cs rows. emuroot_diagnose E 2048 = Some (r, rc, cs) \<and>
    r = rows @ ''=> '' @ (if rc = 0 then ''full emulation available'' else ''degraded: env-only fallback'') @ [char_of (10 :: nat)]"
proof -
  obtain f cs where k: "probe_kernel E = Some (f, cs)" "r = snprintf 2048 (snprintf 2048 (report (pe_arch E) (pe_release E) f))"
    using assms(3) by (auto simp: nativeDiagnose_def emuroot_diagnose_def)
  have "snprintf 2048 (report (pe_arch E) (pe_release E) f) = report (pe_arch E) (pe_release E) f"
    by (rule snprintf_len [OF report_fits [OF assms(1,2)]])
  then have "r = report (pe_arch E) (pe_release E) f" using k(2) by simp
  moreover have "emuroot_diagnose E 2048 = Some (r, if usable f then 0 else 1, cs)"
    using k by (simp add: emuroot_diagnose_def)
  ultimately show ?thesis unfolding report_def by (intro exI [of _ "if usable f then 0 else 1"] exI [of _ cs]) auto
qed

subsection \<open>Witnesses\<close>

text \<open>A virtual machine with two strings, referred to by 1 and 2; pipes are made above the open descriptors, except for a
  free 0. Directories are opened above them too.\<close>

definition demo_jvm :: "nat jvm" where
  "demo_jvm = \<lparr>jv_utf = (\<lambda>j. if j = 1 then Some ''/srv'' else if j = 2 then Some ''sh'' else None), jv_calloc = (\<lambda>_. True),
     jv_strdup = (\<lambda>_. True), jv_new_array = True,
     jv_pipe2 = (\<lambda>t. if finite (dom t) then Some (if t 0 = None then 0 else Max (insert 2 (dom t)) + 2, Max (insert 2 (dom t)) + 1) else None)\<rparr>"

definition demo_jni_host :: spawn_host where
  "demo_jni_host = demo_spawn_host\<lparr>sh_opendir := (\<lambda>t. Some (Max (insert 2 (dom t)) + 1))\<rparr>"

lemma above_Max: "finite (dom t) \<Longrightarrow> Max (insert 2 (dom t)) < (k :: int) \<Longrightarrow> t k = None \<and> 2 < k"
  using Max_ge [of "insert 2 (dom t)"] by fastforce

lemma demo_fresh: "fresh_pipes demo_jvm"
  unfolding fresh_pipes_def
proof (intro allI impI)
  fix t r w assume "jv_pipe2 demo_jvm t = Some (r, w)"
  then have f: "finite (dom t)" and rw: "r = (if t 0 = None then 0 else Max (insert 2 (dom t)) + 2)" "w = Max (insert 2 (dom t)) + 1"
    by (auto simp: demo_jvm_def split: if_splits)
  have "t w = None \<and> 2 < w" "t (Max (insert 2 (dom t)) + 2) = None \<and> 2 < Max (insert 2 (dom t)) + 2"
    using above_Max [OF f, of w] above_Max [OF f, of "Max (insert 2 (dom t)) + 2"] rw(2) by simp_all
  then show "0 \<le> r \<and> 0 \<le> w \<and> r \<noteq> w \<and> r \<notin> dom t \<and> w \<notin> dom t" using rw by auto
qed

lemma demo_closable_all: "\<forall>t. finite (dom t) \<longrightarrow> closable demo_jni_host t" "sh_dup demo_jni_host = (\<lambda>_ _. True)"
proof -
  have "t (Max (insert 2 (dom t)) + 1) = None" if "finite (dom t)" for t :: fd_table using above_Max [OF that] by simp
  then show "\<forall>t. finite (dom t) \<longrightarrow> closable demo_jni_host t" using lists_open_demo
    by (auto simp: closable_def demo_jni_host_def domIff)
qed (simp add: demo_jni_host_def demo_spawn_host_def)

lemma demo_open: "finite (dom t) \<Longrightarrow> \<exists>e t'. open_pipe demo_jvm n t = Some (e, t') \<and> finite (dom t') \<and> (t 0 = None \<longrightarrow> fst e = 0)"
  by (simp add: open_pipe_def demo_jvm_def)

lemma demo_pipes:
  assumes "finite (dom t)"
  obtains i t1 ou t2 er t3 where "open_pipe demo_jvm 0 t = Some (i, t1)" "open_pipe demo_jvm 1 t1 = Some (ou, t2)"
    "open_pipe demo_jvm 2 t2 = Some (er, t3)" "t 0 = None \<longrightarrow> fst i = 0"
  using demo_open [OF assms] demo_open by meson

lemma demo_argv: "map_option c_vector (to_strv demo_jvm (Some [Some 2])) = Some [''sh'']"
  by (simp add: to_strv_def demo_jvm_def c_vector_def)

theorem java_arguments_witness:
  "c_vector [Some ''sh'', Some [], Some ''/srv''] = [''sh'', [], ''/srv'']"
proof -
  have "to_strv demo_jvm (Some [Some 2, None, Some 1]) = Some [Some ''sh'', Some [], Some ''/srv'']"
    by (simp add: to_strv_def demo_jvm_def)
  from java_arguments [OF this] show ?thesis by (simp add: demo_jvm_def java_text_def)
qed

theorem java_configuration_witness:
  "let s = fold (native_step demo_jvm) [SetRoot 1, Bind 1 1] \<lparr>jc_rc = 0, jc_ctx = Some zero_ctx, jc_held = []\<rparr>
   in (\<exists>c. jc_ctx s = Some c \<and> ctx_wf c) \<and> jc_held s = [] \<and> jc_rc (native_step demo_jvm (SetIdsFile 3) s) = EMUROOT_ERR_INVAL"
proof -
  have utf: "\<forall>j p. jv_utf demo_jvm j = Some p \<longrightarrow> NUL \<notin> set p" by (auto simp: demo_jvm_def)
  have "jc_ctx \<lparr>jc_rc = 0, jc_ctx = Some zero_ctx, jc_held = ([] :: nat list)\<rparr> = nativeCreate True"
    by (simp add: nativeCreate_def emuroot_create_def)
  from java_configuration [OF utf this, of "[SetRoot 1, Bind 1 1]" "SetIdsFile 3"] show ?thesis
    by (auto simp: Let_def demo_jvm_def)
qed

lemma finite_demo_fds: "finite (dom (p_fds demo_process))"
  by (simp add: demo_process_def demo_fds_def)

theorem native_start_accounts_witness:
  "\<exists>vs t. nativeStart demo_jvm demo_jni_host (\<lambda>_ _ _ _. 0) (Some zero_ctx) (Some [Some 2]) None 77 demo_process = Returned (Some vs) t [] \<and>
    hd vs = 77 \<and> kept_ends (p_fds demo_process) (tl vs) t"
proof -
  obtain i t1 ou t2 er t3 where p: "open_pipe demo_jvm 0 (p_fds demo_process) = Some (i, t1)" "open_pipe demo_jvm 1 t1 = Some (ou, t2)"
    "open_pipe demo_jvm 2 t2 = Some (er, t3)" using demo_pipes [OF finite_demo_fds] by metis
  have "free_strv (to_strv demo_jvm (Some [Some 2])) = []" "free_strv (to_strv demo_jvm None) = []" "jv_new_array demo_jvm"
    by (simp_all add: to_strv_def demo_jvm_def free_strv_def)
  then obtain vs t where r: "nativeStart demo_jvm demo_jni_host (\<lambda>_ _ _ _. 0) (Some zero_ctx) (Some [Some 2]) None 77 demo_process = Returned (Some vs) t []"
    unfolding nativeStart_def Let_def demo_argv option.case list.case p prod.case by (simp add: emuroot_spawn_def)
  from native_start_accounts [OF demo_fresh r] show ?thesis using r by simp
qed

theorem native_start_guest_witness:
  "\<exists>p'. nativeStart demo_jvm demo_jni_host (\<lambda>_ _ _ _. 5) (Some zero_ctx) (Some [Some 2]) None 0 demo_process = Child_exits (Some (5, Some p')) \<and>
    p_fds p' 0 = Some (Pipe_read 0, False) \<and> p_fds p' 7 = None"
proof -
  obtain i t1 ou t2 er t3 where p: "open_pipe demo_jvm 0 (p_fds demo_process) = Some (i, t1)" "open_pipe demo_jvm 1 t1 = Some (ou, t2)"
    "open_pipe demo_jvm 2 t2 = Some (er, t3)" using demo_pipes [OF finite_demo_fds] by metis
  have std: "{0, 1, 2} \<subseteq> dom (p_fds demo_process)" by (simp add: demo_process_def demo_fds_def)
  from native_start_guest [OF demo_fresh std demo_closable_all(2,1) finite_demo_fds demo_argv p, of "\<lambda>_ _ _ _. 5" zero_ctx None] show ?thesis
    by auto
qed

theorem native_start_closed_stdin_witness:
  "\<exists>rc p'. nativeStart demo_jvm demo_jni_host (\<lambda>_ _ _ _. 5) (Some zero_ctx) (Some [Some 2]) None 0
      (demo_process\<lparr>p_fds := (p_fds demo_process)(0 := None)\<rparr>) = Child_exits (Some (rc, Some p')) \<and>
    p_fds p' 0 = Some (Pipe_read 0, True)"
proof -
  let ?p = "demo_process\<lparr>p_fds := (p_fds demo_process)(0 := None)\<rparr>"
  have f: "finite (dom (p_fds ?p))" "p_fds ?p 0 = None" "{1, 2} \<subseteq> dom (p_fds ?p)"
    using finite_demo_fds by (auto simp: demo_process_def demo_fds_def)
  obtain i t1 ou t2 er t3 where p: "open_pipe demo_jvm 0 (p_fds ?p) = Some (i, t1)" "open_pipe demo_jvm 1 t1 = Some (ou, t2)"
    "open_pipe demo_jvm 2 t2 = Some (er, t3)" "fst i = 0" using demo_pipes [OF f(1)] f(2) by metis
  show ?thesis by (rule native_start_closed_stdin [OF demo_fresh f(2,3,1) demo_closable_all(2,1) demo_argv p])
qed

theorem java_report_complete_witness:
  "\<exists>r rows. nativeDiagnose demo_probe = Some r \<and> r = rows @ ''=> full emulation available'' @ [char_of (10 :: nat)]"
proof -
  obtain cs where k: "probe_kernel demo_probe = Some ((try_child demo_probe)\<lparr>f_seccomp := True, f_supported := True\<rparr>, cs)"
    using demo_probe_kernel by blast
  have u: "usable ((try_child demo_probe)\<lparr>f_seccomp := True, f_supported := True\<rparr>)"
    using demo_peek by (simp add: usable_def try_child_def no_findings_def demo_probe_def Let_def)
  obtain r where r: "nativeDiagnose demo_probe = Some r" by (simp add: nativeDiagnose_def emuroot_diagnose_def k)
  have "length (pe_release demo_probe) \<le> 64" "length (pe_arch demo_probe) \<le> 20" by (simp_all add: demo_probe_def)
  from java_report_complete [OF this r] show ?thesis using r u by (auto simp: emuroot_diagnose_def k)
qed

end
