(* ===== verification/Frontend.thy ===== *)
theory Frontend
  imports Ptrace
begin

text \<open>
  The ways in for a user: \<^verbatim>\<open>main.c\<close> (the command line) and \<^verbatim>\<open>envonly.c\<close> (the backend that intercepts
  nothing). What the operating system and \<^verbatim>\<open>getopt\<close> answer are arguments.
\<close>

subsection \<open>The backend that intercepts nothing (envonly.c)\<close>

definition BINDINGS_SIZE :: nat where
  "BINDINGS_SIZE = MAX_BINDINGS * (2 * PATH_LEN + 2)"

text \<open>The buffer so far and \<^verbatim>\<open>pos\<close>, which counts also what did not fit.\<close>

fun env_bindings :: "binding_t list \<Rightarrow> string \<times> nat \<Rightarrow> string \<times> nat" where
  "env_bindings [] (buf, pos) = (buf, pos)"
| "env_bindings (b # bs) (buf, pos) =
     (if pos < BINDINGS_SIZE then
        (let t = (if pos \<noteq> 0 then '';'' else []) @ b_host b @ '':'' @ b_guest b
         in env_bindings bs (buf @ snprintf (BINDINGS_SIZE - pos) t, pos + length t))
      else (buf, pos))"

type_synonym environment = "string \<rightharpoonup> string"

definition envonly_setenv :: "emuroot_ctx \<Rightarrow> environment \<Rightarrow> environment" where
  "envonly_setenv ctx env =
     (case env_bindings (bindings ctx) ([], 0) of
        (buf, pos) \<Rightarrow>
          let env = (if ctx_root ctx \<noteq> [] then env(''EMUROOT_ROOT'' \<mapsto> ctx_root ctx) else env);
              env = (if pos \<noteq> 0 then env(''EMUROOT_BINDINGS'' \<mapsto> buf) else env)
          in if has_fake_ids ctx
             then env(''EMUROOT_FAKE_IDS'' \<mapsto> snprintf 32 (dec (unat (fake_uid ctx)) @ '':'' @ dec (unat (fake_gid ctx))))
             else env)"

text \<open>The result, and the environment the program is started in.\<close>

definition emuroot_run_envonly :: "emuroot_ctx \<Rightarrow> environment \<Rightarrow> environment option \<Rightarrow> bool \<Rightarrow> u32 \<Rightarrow> int \<times> environment" where
  "emuroot_run_envonly ctx env envp forked status =
     (let env = envonly_setenv ctx env
      in (if \<not> forked then EMUROOT_ERR_SYSTEM
          else if WIFEXITED status then WEXITSTATUS status
          else if WIFSIGNALED status then 128 + WTERMSIG status else EMUROOT_ERR_SYSTEM,
          case envp of Some e \<Rightarrow> e | None \<Rightarrow> env))"

subsection \<open>The command line (main.c)\<close>

definition split_colon :: "string \<Rightarrow> (string \<times> string) option" where
  "split_colon s =
     (if CHR '':'' \<in> set s then Some (takeWhile (\<lambda>c. c \<noteq> CHR '':'') s, tl (dropWhile (\<lambda>c. c \<noteq> CHR '':'') s)) else None)"

text \<open>\<^verbatim>\<open>sscanf(optarg, "%u:%u", ...)\<close> when both numbers are there.\<close>

definition scan_ids :: "string \<Rightarrow> (u32 \<times> u32) option" where
  "scan_ids s =
     (case scan_number s of
        Some (u, c # t) \<Rightarrow>
          if c = CHR '':'' then (case scan_number t of Some (g, _) \<Rightarrow> Some (ucast u, ucast g) | None \<Rightarrow> None) else None
      | _ \<Rightarrow> None)"

text \<open>\<^verbatim>\<open>sscanf(optarg, "%64[^:]:%64[^:]:%64[^:]", ...)\<close> into \<open>n\<close> zeroed fields: a field takes at most 64
  characters, an empty one ends the scan, and the next needs a colon.\<close>

fun scan_fields :: "nat \<Rightarrow> string \<Rightarrow> string list" where
  "scan_fields 0 s = []"
| "scan_fields (Suc n) s =
     (let f = take 64 (takeWhile (\<lambda>c. c \<noteq> CHR '':'') s); rest = drop (length f) s
      in f # (if f \<noteq> [] \<and> c_at rest 0 = CHR '':'' then scan_fields n (tl rest) else replicate n []))"

text \<open>The help, for the program's name, and the letters \<^verbatim>\<open>getopt\<close> accepts.\<close>

definition usage_lines :: "string \<Rightarrow> string list" where
  "usage_lines prog =
    [''emuroot - independent user-space fake-root / filesystem emulation'',
     ''Author: Mohamad Almousli'',
     [],
     ''Usage: '' @ prog @ '' [options] -- <command> [args...]'',
     ''  -r <path>          set emulated root (like chroot, no privileges needed)'',
     ''  -b <host:guest>    bind a host path onto a guest path (repeatable)'',
     ''  -u <uid:gid>       report this uid/gid to the guest process'',
     ''  -n <sysname:release:machine>  fake uname() output'',
     ''  -s <file>          keep fake file ownership (chown) in <file> across runs'',
     ''  -v                 verbose syscall trace to stderr'',
     ''  -D                 diagnose: what this system lets emuroot use'',
     ''  -V                 print version and exit'',
     ''  -h                 show this help'']"

definition usage :: "string \<Rightarrow> string" where
  "usage prog = concat (map (\<lambda>l. l @ [CHR 10]) (usage_lines prog))"

definition option_letters :: string where
  "option_letters = ''rbunsvVhD''"

lemma usage_names_options: "c \<in> set option_letters \<Longrightarrow> \<exists>rest. (''  -'' @ [c] @ '' '' @ rest) \<in> set (usage_lines prog)"
proof -
  have "list_all (\<lambda>c. list_ex (\<lambda>l. take 4 l = ''  -'' @ [c]) (drop 4 (usage_lines []))) option_letters" by code_simp
  moreover have "drop 4 (usage_lines prog) = drop 4 (usage_lines [])" by (simp add: usage_lines_def)
  moreover have "list_all (\<lambda>l. drop 4 l = '' '' @ drop 5 l) (drop 4 (usage_lines []))" by code_simp
  moreover assume "c \<in> set option_letters"
  ultimately obtain l where "l \<in> set (drop 4 (usage_lines prog))" "take 4 l = ''  -'' @ [c]" "drop 4 l = '' '' @ drop 5 l"
    by (auto simp: list_all_iff list_ex_iff)
  then have "l \<in> set (usage_lines prog)" "l = ''  -'' @ [c] @ '' '' @ drop 5 l"
    using in_set_dropD append_take_drop_id [of 4 l] by (force, metis append_assoc)
  then show ?thesis by metis
qed

text \<open>One option: the code to exit with, if any, and the context. \<open>diagnose\<close> is the result of
  \<^verbatim>\<open>emuroot_diagnose\<close>. What the configuration calls return is dropped.\<close>

definition main_option :: "int \<Rightarrow> char \<Rightarrow> string \<Rightarrow> emuroot_ctx option \<Rightarrow> int option \<times> emuroot_ctx option" where
  "main_option diagnose opt a ctx =
     (if opt = CHR ''r'' then (None, snd (emuroot_set_root ctx (Some a)))
      else if opt = CHR ''b'' then
        (case split_colon a of
           None \<Rightarrow> (Some 2, ctx)
         | Some (h, g) \<Rightarrow> (None, snd (emuroot_bind ctx (Some h) (Some g))))
      else if opt = CHR ''u'' then
        (case scan_ids a of None \<Rightarrow> (Some 2, ctx) | Some (u, g) \<Rightarrow> (None, snd (emuroot_set_fake_ids ctx u g)))
      else if opt = CHR ''n'' then
        (let f = scan_fields 3 a
         in (None, snd (emuroot_set_fake_uname ctx (Some (f ! 0)) (Some (f ! 1)) (Some (f ! 2)))))
      else if opt = CHR ''s'' then (None, snd (emuroot_set_ids_file ctx (Some a)))
      else if opt = CHR ''D'' then (Some diagnose, ctx)
      else if opt = CHR ''v'' then (None, snd (emuroot_set_verbose ctx True))
      else if opt = CHR ''V'' \<or> opt = CHR ''h'' then (Some 0, ctx)
      else (Some 2, ctx))"

fun main_options :: "int \<Rightarrow> (char \<times> string) list \<Rightarrow> emuroot_ctx option \<Rightarrow> int option \<times> emuroot_ctx option" where
  "main_options diagnose [] ctx = (None, ctx)"
| "main_options diagnose ((c, a) # os) ctx =
     (case main_option diagnose c a ctx of
        (Some rc, ctx) \<Rightarrow> (Some rc, ctx)
      | (None, ctx) \<Rightarrow> main_options diagnose os ctx)"

text \<open>\<open>os\<close> are the options as \<^verbatim>\<open>getopt\<close> gives them, \<open>rest\<close> the arguments after them, \<open>run\<close> is \<^verbatim>\<open>emuroot_run\<close>.\<close>

definition emuroot_main :: "bool \<Rightarrow> int \<Rightarrow> (char \<times> string) list \<Rightarrow> string list \<Rightarrow> (emuroot_ctx \<Rightarrow> string list \<Rightarrow> int) \<Rightarrow> int" where
  "emuroot_main alloc diagnose os rest run =
     (case emuroot_create alloc of
        None \<Rightarrow> 1
      | Some c \<Rightarrow>
          (case main_options diagnose os (Some c) of
             (Some rc, _) \<Rightarrow> rc
           | (None, ctx) \<Rightarrow>
               if rest = [] then 2
               else (case ctx of None \<Rightarrow> 1
                     | Some c \<Rightarrow> let rc = run c rest in if rc < 0 then 1 else rc)))"

subsection \<open>Properties\<close>

text \<open>An option that cannot be applied is ignored. A root that is too long, or a binding that is too long or does
  not fit the table any more, is dropped without an error and the command is run all the same: with a root of
  4096 characters or more and nothing else it runs on the host's own root, and its code is what \<^verbatim>\<open>main\<close>
  returns (1 if that is negative).\<close>

theorem failed_options_ignored:
  assumes "length path \<ge> PATH_LEN" and "CHR '':'' \<notin> set h" and "length h \<ge> PATH_LEN \<or> length g \<ge> PATH_LEN" and "cmd \<noteq> []"
  shows "emuroot_main True diagnose [(CHR ''r'', path), (CHR ''b'', h @ '':'' @ g)] cmd run =
    (let rc = run zero_ctx cmd in if rc < 0 then 1 else rc)"
proof -
  have "split_colon (h @ '':'' @ g) = Some (h, g)"
    using assms(2) by (auto simp: split_colon_def takeWhile_tail dropWhile_append)
  moreover have "snd (emuroot_set_root (Some zero_ctx) (Some path)) = Some zero_ctx"
    using assms(1) by (simp add: emuroot_set_root_def copy_path_def status_defs)
  moreover have "snd (emuroot_bind (Some zero_ctx) (Some h) (Some g)) = Some zero_ctx"
    using assms(3) by (auto simp: emuroot_bind_def copy_path_def status_defs zero_ctx_def MAX_BINDINGS_def)
  ultimately show ?thesis using assms(4) by (simp add: emuroot_main_def emuroot_create_def main_option_def Let_def)
qed

theorem failed_options_ignored_witness:
  "emuroot_main True 0 [(CHR ''r'', replicate 4096 SLASH), (CHR ''b'', replicate 4096 SLASH @ '':/'')] [''sh''] (\<lambda>_ _. 3) = 3"
  using failed_options_ignored [of "replicate 4096 SLASH" "replicate 4096 SLASH" "''/''" "[''sh'']" 0 "\<lambda>_ _. 3"]
  by (simp add: PATH_LEN_def)

subsection \<open>Buffers\<close>

text \<open>The bindings of a well-formed context fit the buffer of the environment variable.\<close>

definition bindings_text :: "binding_t list \<Rightarrow> string" where
  "bindings_text bs = concat (map (\<lambda>b. '';'' @ b_host b @ '':'' @ b_guest b) bs)"

lemma env_bindings_fit:
  assumes "\<forall>b \<in> set bs. length (b_host b) < PATH_LEN \<and> length (b_guest b) < PATH_LEN"
    and "length buf + length bs * (2 * PATH_LEN) < BINDINGS_SIZE" and "buf \<noteq> []"
  shows "env_bindings bs (buf, length buf) = (buf @ bindings_text bs, length buf + length (bindings_text bs))"
  using assms
proof (induction bs arbitrary: buf)
  case (Cons b bs)
  let ?t = "'';'' @ b_host b @ '':'' @ b_guest b"
  have t: "length ?t \<le> 2 * PATH_LEN" using Cons.prems(1) by auto
  have lt: "length buf < BINDINGS_SIZE" using Cons.prems(2) by simp
  have s: "snprintf (BINDINGS_SIZE - length buf) ?t = ?t" using Cons.prems(2) t by (intro snprintf_len) auto
  have "env_bindings bs (buf @ ?t, length (buf @ ?t)) = ((buf @ ?t) @ bindings_text bs, length (buf @ ?t) + length (bindings_text bs))"
    by (rule Cons.IH) (use Cons.prems t in \<open>auto simp del: append.simps\<close>)
  then show ?case using lt s Cons.prems(3) by (simp add: bindings_text_def Let_def)
qed (simp add: bindings_text_def)

end
