(* ===== verification/Spec2Isabelle.thy ===== *)
theory Spec2Isabelle
  imports Emu_Prelude Creds Ownership Ctx Path Resolve Arch Syscalls Seccomp Guest Tracee Dac Rewrite Identity Mounts
    ProcMem Exec Fake Entry Frame Ptrace Runs Confine Privilege Messages Unread FastPath Spawn Probe
    Jni Frontend
begin

text \<open>
  A verification development for emuroot, a program that runs a guest under an emulated root directory without
  privileges: a tracer stops the guest at every system call that matters, redirects its paths before the call
  (entry) and patches what the guest sees after it (exit).

  \<^bold>\<open>How the program works and where it is modelled.\<close> All C sources are under \<^verbatim>\<open>src/src\<close>.

  \<^item> \<open>Ctx\<close> (\<^verbatim>\<open>emuroot.c\<close>, \<^verbatim>\<open>internal.h\<close>): the session context with the root, the bindings, the fake identity and
    uname, the public calls that configure it, and the choice of a backend.
  \<^item> \<open>Frontend\<close> (\<^verbatim>\<open>main.c\<close>, \<^verbatim>\<open>envonly.c\<close>): the command line and the backend without interception.
    \<open>Spawn\<close> (\<^verbatim>\<open>spawn.c\<close>): the supervisor process, with its descriptors, signals and session. \<open>Probe\<close>
    (\<^verbatim>\<open>probe.c\<close>): the diagnosis, its children and its report. \<open>Jni\<close> (\<^verbatim>\<open>emuroot_jni.c\<close> under
    \<^verbatim>\<open>src/android\<close>): the Java binding over the public calls and \<^verbatim>\<open>emuroot_spawn\<close>.
  \<^item> \<open>Ptrace\<close> (\<^verbatim>\<open>ptrace.c\<close>): the table of traced processes, one stop (\<open>handle_stop\<close>), one pass of the event loop
    (\<open>loop_step\<close>) and a whole run (\<open>emuroot_run_ptrace\<close>). A stop carries what the tracer reads at it.
  \<^item> \<open>Entry\<close> (\<^verbatim>\<open>emuroot_on_entry\<close> of \<^verbatim>\<open>rewrite.c\<close>) calls \<open>Identity\<close> (\<^verbatim>\<open>identity.c\<close>: credential calls made
    harmless, owners and creations noted), \<open>Mounts\<close> (\<^verbatim>\<open>mounts.c\<close>: chroot, mount and umount emulated on the
    context), \<open>Exec\<close> (\<^verbatim>\<open>exec.c\<close>: scripts and the root's own loader), and \<open>Rewrite\<close> (the rest of \<^verbatim>\<open>rewrite.c\<close>:
    paths and socket addresses), which uses \<open>Dac\<close> (\<^verbatim>\<open>dac.c\<close>: permission bits a real root would not need).
  \<^item> \<open>Fake\<close> (\<^verbatim>\<open>fake.c\<close>): the exit handler: credentials, owners, working directory, uname, process links.
  \<^item> \<open>Path\<close> and \<open>Resolve\<close> (\<^verbatim>\<open>path.c\<close>): guest path to host path and back, links resolved inside the root.
  \<^item> \<open>Creds\<close> (\<^verbatim>\<open>creds.c\<close>): the fake credentials of a process; \<open>Ownership\<close> (\<^verbatim>\<open>ownership.c\<close>): the table of fake
    file owners and its text file.
  \<^item> \<open>Syscalls\<close> (\<^verbatim>\<open>syscalls.c\<close>): which calls are handled and how; \<open>Seccomp\<close> (\<^verbatim>\<open>seccomp.c\<close>): the filter that
    makes only those stop; \<open>Arch\<close> (\<^verbatim>\<open>arch.h\<close>, \<^verbatim>\<open>regs.c\<close>): registers; \<open>Guest\<close> (\<^verbatim>\<open>guest.c\<close>): guest memory;
    \<open>Tracee\<close> (\<^verbatim>\<open>tracee.h\<close>): the state kept per process, the record \<open>sys\<close> every handler maps to a \<open>sys\<close>, and
    scratch memory. \<open>Emu_Prelude\<close> holds C strings, error numbers and shared lemmas.
  \<^item> \<open>ProcMem\<close> (\<^verbatim>\<open>guest.c\<close>): the system calls behind the first two ways to guest memory. \<open>Messages\<close> (\<^verbatim>\<open>ptrace.c\<close>): what the
    tracer says about calls and seccomp kills.
  \<^item> The other theories model no further code: \<open>Frame\<close> says which part of its state each handler keeps, \<open>Unread\<close> which fields
    a handler does not look at, \<open>Runs\<close> what is true throughout a run of the loop when the handlers keep it; \<open>Confine\<close> and
    \<open>Privilege\<close> are such truths, and \<open>FastPath\<close> compares two runs.

  \<^bold>\<open>Conventions.\<close> A C string is a \<open>string\<close> without its NUL; buffers of fixed size show as \<open>snprintf\<close> and length
  tests. Register values, device and inode numbers are \<open>64 word\<close>, ids and status words \<open>32 word\<close>; results are
  ints. A pointer that may be NULL is an option. Functions thread the state they change; \<open>s_regs\<close> is the
  handler's copy of the registers and \<open>s_kregs\<close> what the kernel holds. System calls, the file system, memory
  allocation, system-call numbers and the layout of \<^verbatim>\<open>struct stat\<close> are arguments (\<open>host_t\<close>, \<open>cfg\<close>, \<open>boot\<close>, and
  the fields of a \<open>stop\<close>).

  \<^bold>\<open>What the lemmas show.\<close>

  \<^item> Confinement: a resolved path has only proper components, its host path is the image under bindings and root,
    and the string code computes resolution on lists of components (\<open>Resolve\<close>); with a root and no bindings all
    host paths lie below the root. What the resolution lets through (below the host's \<^verbatim>\<open>/proc\<close>, after too many
    links) is stated exactly.
  \<^item> Redirection: a path argument is its translation or NULL when the kernel sees it (\<open>Rewrite\<close>), for whole
    calls with two paths and every other handler in between (\<open>Entry\<close>), for socket addresses, for an exec with
    its expanded argument vector (\<open>Exec\<close>), and for emulated mounts (\<open>Mounts\<close>). Scratch buffers never overlap.
  \<^item> Identity: no process without a root id ever gains one, dropping root is permanent (\<open>Creds\<close>), and through
    entry and exit handler together a process's calls change these credentials and never the real ones
    (\<open>Entry\<close>). A chown is seen by later stats (\<open>Fake\<close>); the hash table is a finite map, its probing ends and
    its file format reads back (\<open>Ownership\<close>).
  \<^item> The tracer: the loop implements a protocol automaton over the events of all processes in any interleaving,
    from which it follows which handler a stop goes to; a run returns the guest's status and kills exactly what
    is left; fork events and new children commute (\<open>Ptrace\<close>). The filter traces exactly the handled calls
    (\<open>Seccomp\<close>); guest strings read and write back the same by all three access methods (\<open>Guest\<close>).
  \<^item> Whole runs: whatever the processes do (\<^verbatim>\<open>chroot\<close>, \<^verbatim>\<open>mount\<close>, \<^verbatim>\<open>umount\<close>, forks, in any interleaving), the paths the
    kernel is left with stay under the directories the caller configured (\<open>Confine\<close>), under conditions whose
    necessity is shown: a relative path outside the name space, or one the code takes for relative to the wrong
    directory (\<open>Entry\<close>), gets through.
  \<^item> A session that is not root stays as it is: in every run its processes keep their credentials and root and the context
    its bindings, and are told the session's ids (\<open>Privilege\<close>).
  \<^item> The two ways to trace: with the filter, which stops the guest only where a handler would do something, every process
    meets the same registers, memory and signals as when it is stopped at every call, in any interleaving (\<open>FastPath\<close>),
    for numbers of 32 bits; a wider number gets past both. What the tracer says about a killed process (\<open>Messages\<close>).
  \<^item> The ways in: what the process the guest starts in looks like, for \<^verbatim>\<open>emuroot_spawn\<close> (\<open>Spawn\<close>) and from Java
    (\<open>Jni\<close>, with an account of every descriptor); the status reaches the caller through the supervisor; descriptors are
    closed however many there are; what the diagnosis says agrees with what the engine then does, row by
    row (\<open>Probe\<close>); what is ignored on the command line (\<open>Frontend\<close>).

  Interfaces are locales: \<open>id_side\<close> (user and group ids obey the same rules), \<open>owner_map\<close> (what a store of owners
  promises), \<open>read_access\<close> (a way to read guest memory), \<open>stop_handler\<close> (a handler keeps the loop's own
  fields), \<open>kept_view\<close> with its extensions \<open>kept_by_entry\<close> and \<open>kept_by_both\<close> (a part of the state that steps keep),
  \<open>unread\<close> and \<open>unread_and_log\<close> (a change of fields the handlers do not read) and \<open>run_invariant\<close> (what a run keeps);
  each is interpreted on the code's definitions.

  \<^bold>\<open>Bounds and termination.\<close> The link walk ends because of its 40-link limit (a lexicographic measure in \<open>Path\<close>),
  probing because a table always has a free slot, script expansion at five levels by the code's own counter, the
  fd-closing loop because every round that leaves entries has closed some (it is a \<open>partial_function\<close>, shown to
  return). The event loop runs over the list of what \<^verbatim>\<open>waitpid\<close> returns: \<open>None\<close> is a loop that is still waiting,
  and \<open>run_ends_and_kills\<close> states when it has returned. No fuel is used elsewhere.

  \<^bold>\<open>Not modelled.\<close> Log and error messages but those of \<open>Messages\<close>, \<open>Probe\<close> and the help text; the tracer's own signal handlers
  and descriptors; use of freed memory (what \<^verbatim>\<open>emuroot_destroy\<close> frees is listed); big-endian and 32-bit hosts in the handlers (the register layouts cover them); concurrency
  between the guest's threads and a handler (a stopped process does not run, but another thread may change the
  strings a handler has read). The Java sources of the Android library and app, the tests and the build files are
  not part of the model.
\<close>

end
